(* ===== verification/Prelude.thy ===== *)
theory Prelude
  imports Main "HOL-Library.Word" "HOL-Library.Monad_Syntax" "HOL-Library.Signed_Division"
    "HOL-Library.Multiset"
begin

text \<open>
  Shared vocabulary of the development: the machine types of the C++ sources, undefined
  behaviour as \<open>None\<close> with a total-correctness predicate \<open>wp\<close> for it, \<open>memcpy\<close> on byte
  arrays, the little-endian object representation of integers, and \<open>std::unordered_map\<close> as an
  association list.
\<close>

unbundle bit_operations_syntax

type_synonym byte = "8 word"
type_synonym bytes = "byte list"
type_synonym WORD = "16 word"
type_synonym LONG = "32 word"
type_synonym SessionID = "64 word"
type_synonym SOCKET = "64 word"

named_theorems wp_simps \<open>computing a weakest precondition\<close>
named_theorems mem_simps \<open>byte arrays and copies\<close>

section \<open>Undefined behaviour\<close>

text \<open>
  An operation whose C++ text can run into undefined behaviour (an access outside an array, a
  null dereference) has an option result, and \<open>None\<close> is the undefined run. \<open>wp m P\<close> says that
  \<open>m\<close> is defined and its result satisfies \<open>P\<close>: total correctness.
\<close>

definition wp :: "'a option \<Rightarrow> ('a \<Rightarrow> bool) \<Rightarrow> bool" where
  "wp m P \<longleftrightarrow> (case m of None \<Rightarrow> False | Some x \<Rightarrow> P x)"

lemma wp_None [simp, wp_simps]: "wp None P \<longleftrightarrow> False"
  by (simp add: wp_def)

lemma wp_Some [simp, wp_simps]: "wp (Some x) P \<longleftrightarrow> P x"
  by (simp add: wp_def)

lemma wp_bind [simp, wp_simps]: "wp (Option.bind m f) P \<longleftrightarrow> wp m (\<lambda>x. wp (f x) P)"
  by (cases m) simp_all

lemma wp_iff: "wp m P \<longleftrightarrow> (\<exists>x. m = Some x \<and> P x)"
  by (cases m) simp_all

lemma wp_mono: "wp m P \<Longrightarrow> (\<And>x. P x \<Longrightarrow> Q x) \<Longrightarrow> wp m Q"
  by (cases m) simp_all

lemma wpE:
  assumes "wp m P"
  obtains x where "m = Some x" "P x"
  using assms by (auto simp: wp_iff)

lemma wp_conj: "wp m (\<lambda>x. P x \<and> Q x) \<longleftrightarrow> wp m P \<and> wp m Q"
  by (cases m) simp_all

lemma wp_SomeD: "wp m P \<Longrightarrow> m = Some x \<Longrightarrow> P x"
  by simp

text \<open>Running an operation on each element of a list in turn.\<close>

fun foldM :: "('x \<Rightarrow> 's \<Rightarrow> 's option) \<Rightarrow> 'x list \<Rightarrow> 's \<Rightarrow> 's option" where
  "foldM f [] s = Some s"
| "foldM f (x # xs) s = do { s' \<leftarrow> f x s; foldM f xs s' }"

lemma foldM_append: "foldM f (xs @ ys) s = do { s' \<leftarrow> foldM f xs s; foldM f ys s' }"
proof (induction xs arbitrary: s)
  case (Cons x xs)
  then show ?case by (cases "f x s") simp_all
qed simp

lemma foldM_invariant:
  assumes "I s" and "\<And>x s. x \<in> set xs \<Longrightarrow> I s \<Longrightarrow> wp (f x s) I"
  shows "wp (foldM f xs s) I"
  using assms
proof (induction xs arbitrary: s)
  case Nil
  then show ?case by simp
next
  case (Cons x xs)
  have "wp (f x s) I" using Cons.prems by simp
  then obtain s' where s': "f x s = Some s'" "I s'" by (rule wpE)
  have "wp (foldM f xs s') I" by (rule Cons.IH [OF s'(2)]) (use Cons.prems in auto)
  with s' show ?case by simp
qed

section \<open>Byte arrays\<close>

text \<open>The \<open>n\<close> bytes of an array from offset \<open>off\<close> on.\<close>

definition seg :: "int \<Rightarrow> int \<Rightarrow> 'a list \<Rightarrow> 'a list" where
  "seg off n xs = take (nat n) (drop (nat off) xs)"

text \<open>
  \<open>memcpy(dest + d, src + s, n)\<close>. The count is a \<open>size_t\<close>, so a negative one is a huge one:
  like every range that leaves one of the two arrays it is undefined.
\<close>

definition memcpy :: "'a list \<Rightarrow> int \<Rightarrow> 'a list \<Rightarrow> int \<Rightarrow> int \<Rightarrow> 'a list option" where
  "memcpy dest d src s n =
     (if 0 \<le> n \<and> 0 \<le> d \<and> d + n \<le> int (length dest) \<and> 0 \<le> s \<and> s + n \<le> int (length src)
      then Some (take (nat d) dest @ seg s n src @ drop (nat (d + n)) dest) else None)"

text \<open>Reading and writing one array element.\<close>

definition nth_opt :: "'a list \<Rightarrow> int \<Rightarrow> 'a option" where
  "nth_opt xs i = (if 0 \<le> i \<and> i < int (length xs) then Some (xs ! nat i) else None)"

definition upd_opt :: "'a list \<Rightarrow> int \<Rightarrow> 'a \<Rightarrow> 'a list option" where
  "upd_opt xs i v = (if 0 \<le> i \<and> i < int (length xs) then Some (xs[nat i := v]) else None)"

text \<open>Reading a block of bytes.\<close>

definition mem_read :: "'a list \<Rightarrow> int \<Rightarrow> int \<Rightarrow> 'a list option" where
  "mem_read xs off n =
     (if 0 \<le> off \<and> 0 \<le> n \<and> off + n \<le> int (length xs) then Some (seg off n xs) else None)"

lemma mem_read_wp [wp_simps]:
  "wp (mem_read xs off n) P \<longleftrightarrow> 0 \<le> off \<and> 0 \<le> n \<and> off + n \<le> int (length xs) \<and> P (seg off n xs)"
  by (auto simp: mem_read_def)

lemma length_seg [simp, mem_simps]:
  "length (seg off n xs) = min (nat n) (length xs - nat off)"
  by (simp add: seg_def)

lemma length_seg_in:
  "0 \<le> off \<Longrightarrow> 0 \<le> n \<Longrightarrow> off + n \<le> int (length xs) \<Longrightarrow> length (seg off n xs) = nat n"
  by simp

lemma seg_0 [simp]: "seg off 0 xs = []"
  by (simp add: seg_def)

lemma seg_all: "int (length xs) \<le> n \<Longrightarrow> seg 0 n xs = xs"
  by (simp add: seg_def)

lemma memcpy_wp [wp_simps]:
  "wp (memcpy dest d src s n) P \<longleftrightarrow>
     0 \<le> n \<and> 0 \<le> d \<and> d + n \<le> int (length dest) \<and> 0 \<le> s \<and> s + n \<le> int (length src) \<and>
     P (take (nat d) dest @ seg s n src @ drop (nat (d + n)) dest)"
  by (auto simp: memcpy_def)

lemma memcpy_length: "memcpy dest d src s n = Some r \<Longrightarrow> length r = length dest"
  by (auto simp: memcpy_def split: if_splits)

lemma nth_opt_wp [wp_simps]:
  "wp (nth_opt xs i) P \<longleftrightarrow> 0 \<le> i \<and> i < int (length xs) \<and> P (xs ! nat i)"
  by (auto simp: nth_opt_def)

lemma upd_opt_wp [wp_simps]:
  "wp (upd_opt xs i v) P \<longleftrightarrow> 0 \<le> i \<and> i < int (length xs) \<and> P (xs[nat i := v])"
  by (auto simp: upd_opt_def)

lemma seg_append_left:
  "0 \<le> n \<Longrightarrow> nat n \<le> length xs \<Longrightarrow> seg 0 n (xs @ ys) = take (nat n) xs"
  by (simp add: seg_def)

lemma seg_split:
  "0 \<le> n \<Longrightarrow> 0 \<le> m \<Longrightarrow> 0 \<le> off \<Longrightarrow>
   seg off (n + m) xs = seg off n xs @ seg (off + n) m xs"
  by (simp add: seg_def nat_add_distrib take_add) (simp add: add.commute)

section \<open>Object representation of integers\<close>

text \<open>The little-endian bytes of a word, and the word of a byte list (x64 object layout).\<close>

fun word_to_le :: "nat \<Rightarrow> 'a::len word \<Rightarrow> bytes" where
  "word_to_le 0 w = []"
| "word_to_le (Suc n) w = ucast w # word_to_le n (drop_bit 8 w)"

fun le_to_word :: "bytes \<Rightarrow> 'a::len word" where
  "le_to_word [] = 0"
| "le_to_word (b # bs) = ucast b OR push_bit 8 (le_to_word bs)"

lemma length_word_to_le [simp]: "length (word_to_le n w) = n"
  by (induction n w rule: word_to_le.induct) simp_all

lemma le_to_word_to_le: "le_to_word (word_to_le n w) = take_bit (8 * n) (w :: 'a::len word)"
proof (induction n w rule: word_to_le.induct)
  case (1 w)
  then show ?case by simp
next
  case (2 n w)
  show ?case
    by (rule bit_word_eqI)
      (auto simp: 2 bit_simps algebra_simps dest: bit_imp_le_length)
qed

lemma le_to_word_to_le_all [simp]:
  "LENGTH('a) \<le> 8 * n \<Longrightarrow> le_to_word (word_to_le n w) = (w :: 'a::len word)"
  by (simp add: le_to_word_to_le take_bit_word_eq_self)

section \<open>\<open>std::unordered_map\<close>\<close>

text \<open>
  An unordered map is an association list with distinct keys: its order is the (unspecified)
  iteration order. \<open>insert\<close> keeps an existing entry, \<open>erase\<close> returns how many entries it removed,
  \<open>m[k] = v\<close> overwrites or adds.
\<close>

type_synonym ('k, 'v) umap = "('k \<times> 'v) list"

definition umap_insert :: "'k \<Rightarrow> 'v \<Rightarrow> ('k, 'v) umap \<Rightarrow> ('k, 'v) umap" where
  "umap_insert k v m = (case map_of m k of None \<Rightarrow> m @ [(k, v)] | Some _ \<Rightarrow> m)"

definition umap_erase :: "'k \<Rightarrow> ('k, 'v) umap \<Rightarrow> ('k, 'v) umap \<times> nat" where
  "umap_erase k m = (let m' = filter (\<lambda>e. fst e \<noteq> k) m in (m', length m - length m'))"

fun umap_set :: "'k \<Rightarrow> 'v \<Rightarrow> ('k, 'v) umap \<Rightarrow> ('k, 'v) umap" where
  "umap_set k v [] = [(k, v)]"
| "umap_set k v (e # m) = (if fst e = k then (k, v) # m else e # umap_set k v m)"

definition umap_wf :: "('k, 'v) umap \<Rightarrow> bool" where
  "umap_wf m \<longleftrightarrow> distinct (map fst m)"

lemma map_of_umap_insert [simp]:
  "map_of (umap_insert k v m) = (if k \<in> fst ` set m then map_of m else (map_of m)(k \<mapsto> v))"
proof (cases "map_of m k")
  case None
  then have "k \<notin> fst ` set m" by (simp add: map_of_eq_None_iff)
  with None show ?thesis
    by (auto simp: umap_insert_def map_add_def fun_eq_iff split: option.splits)
next
  case (Some a)
  then have "k \<in> fst ` set m" by (metis map_of_eq_None_iff option.distinct(1))
  with Some show ?thesis by (simp add: umap_insert_def)
qed

lemma umap_wf_insert: "umap_wf m \<Longrightarrow> umap_wf (umap_insert k v m)"
  by (auto simp: umap_wf_def umap_insert_def map_of_eq_None_iff split: option.splits)

lemma keys_umap_insert [simp]: "fst ` set (umap_insert k v m) = insert k (fst ` set m)"
  by (auto simp: umap_insert_def split: option.splits)
    (metis fst_conv image_eqI map_of_SomeD)

lemma map_of_umap_erase [simp]:
  "map_of (fst (umap_erase k m)) = (map_of m)(k := None)"
  by (induction m) (auto simp: umap_erase_def Let_def fun_eq_iff)

lemma umap_wf_erase: "umap_wf m \<Longrightarrow> umap_wf (fst (umap_erase k m))"
  by (auto simp: umap_wf_def umap_erase_def Let_def distinct_map_filter)

lemma keys_umap_erase [simp]: "fst ` set (fst (umap_erase k m)) = fst ` set m - {k}"
  by (auto simp: umap_erase_def Let_def)

lemma umap_erase_count: "snd (umap_erase k m) \<noteq> 0 \<longleftrightarrow> k \<in> fst ` set m"
proof -
  have "length (filter (\<lambda>e. fst e \<noteq> k) m) < length m \<longleftrightarrow> (\<exists>e \<in> set m. fst e = k)"
    by (induction m) (auto simp: less_Suc_eq_le)
  then show ?thesis by (auto simp: umap_erase_def Let_def image_iff)
qed

lemma map_of_umap_set [simp]: "map_of (umap_set k v m) = (map_of m)(k \<mapsto> v)"
  by (induction k v m rule: umap_set.induct) (auto simp: fun_eq_iff)

lemma keys_umap_set [simp]: "fst ` set (umap_set k v m) = insert k (fst ` set m)"
  by (induction k v m rule: umap_set.induct) auto

lemma umap_wf_set: "umap_wf m \<Longrightarrow> umap_wf (umap_set k v m)"
  by (induction k v m rule: umap_set.induct) (auto simp: umap_wf_def image_iff)

lemma umap_find_None [simp]: "map_of m k = None \<longleftrightarrow> k \<notin> fst ` set m"
  by (rule map_of_eq_None_iff)

section \<open>Truncated remainder\<close>

lemma smod_nonneg: "0 \<le> a \<Longrightarrow> 0 < b \<Longrightarrow> (a :: int) smod b = a mod b"
  by (simp add: signed_modulo_int_def signed_divide_int_def sgn_if minus_div_mult_eq_mod
        minus_mult_div_eq_mod)

end
