(* ===== verification/Interfaces.thy ===== *)
theory Interfaces
  imports Prelude
begin

text \<open>
  The interfaces one component of the server relies on in another, as locales: a first-in
  first-out queue (content queue, database job and result queues, per-session send queue), a byte
  stream buffer (the receive ring), and a pool of reusable objects (session slots, packets). Each
  locale proves once what its clients need; the theories of the providers interpret it on the
  model of the code.
\<close>

section \<open>Sequences of queue operations\<close>

fun pop_n :: "('q \<Rightarrow> ('a \<times> 'q) option) \<Rightarrow> nat \<Rightarrow> 'q \<Rightarrow> ('a list \<times> 'q) option" where
  "pop_n pop 0 q = Some ([], q)"
| "pop_n pop (Suc n) q =
     do { (x, q') \<leftarrow> pop q; (xs, q'') \<leftarrow> pop_n pop n q'; Some (x # xs, q'') }"

section \<open>First-in first-out queues\<close>

text \<open>
  \<open>room\<close> is the guard the client checks before it pushes, \<open>nonempty\<close> the guard before it pops;
  \<open>space\<close> says how many pushes are still allowed (None: no bound).
\<close>

locale fifo =
  fixes invar :: "'q \<Rightarrow> bool"
    and items :: "'q \<Rightarrow> 'a list"
    and room :: "'q \<Rightarrow> bool"
    and nonempty :: "'q \<Rightarrow> bool"
    and push :: "'a \<Rightarrow> 'q \<Rightarrow> 'q option"
    and pop :: "'q \<Rightarrow> ('a \<times> 'q) option"
    and cap :: "nat option"
  assumes push_ok: "invar q \<Longrightarrow> room q \<Longrightarrow>
        wp (push x q) (\<lambda>q'. invar q' \<and> items q' = items q @ [x])"
    and pop_ok: "invar q \<Longrightarrow> nonempty q \<Longrightarrow>
        wp (pop q) (\<lambda>(x, q'). invar q' \<and> items q = x # items q')"
    and nonempty_iff: "invar q \<Longrightarrow> nonempty q \<longleftrightarrow> items q \<noteq> []"
    and room_iff: "invar q \<Longrightarrow> room q \<longleftrightarrow> (\<forall>c. cap = Some c \<longrightarrow> length (items q) < c)"
begin

lemma push_all_ok:
  "invar q \<Longrightarrow> (\<forall>c. cap = Some c \<longrightarrow> length (items q) + length xs \<le> c) \<Longrightarrow>
   wp (foldM push xs q) (\<lambda>q'. invar q' \<and> items q' = items q @ xs)"
proof (induction xs arbitrary: q)
  case Nil
  then show ?case by simp
next
  case (Cons x xs)
  have "room q" using Cons.prems by (auto simp: room_iff)
  with Cons.prems(1) obtain q' where q': "push x q = Some q'" "invar q'" "items q' = items q @ [x]"
    using push_ok [of q x] by (auto simp: wp_iff)
  moreover have "wp (foldM push xs q') (\<lambda>r. invar r \<and> items r = items q' @ xs)"
    by (rule Cons.IH) (use q' Cons.prems in auto)
  ultimately show ?case by simp
qed

lemma pop_n_ok:
  "invar q \<Longrightarrow> n \<le> length (items q) \<Longrightarrow>
   wp (pop_n pop n q) (\<lambda>(xs, q'). invar q' \<and> xs = take n (items q) \<and> items q' = drop n (items q))"
proof (induction n arbitrary: q)
  case 0
  then show ?case by simp
next
  case (Suc n)
  have "nonempty q" using Suc.prems by (auto simp: nonempty_iff)
  with Suc.prems(1) obtain x q' where q': "pop q = Some (x, q')" "invar q'" "items q = x # items q'"
    using pop_ok [of q] by (auto simp: wp_iff)
  moreover have "wp (pop_n pop n q')
      (\<lambda>(xs, r). invar r \<and> xs = take n (items q') \<and> items r = drop n (items q'))"
    by (rule Suc.IH) (use q' Suc.prems in auto)
  ultimately show ?case by (auto simp: wp_iff)
qed

text \<open>What goes into an empty queue comes out in the same order.\<close>

lemma push_all_pop_n:
  assumes "invar q" and "items q = []" and "\<forall>c. cap = Some c \<longrightarrow> length xs \<le> c"
  shows "wp (foldM push xs q)
           (\<lambda>q'. wp (pop_n pop (length xs) q') (\<lambda>(ys, q''). ys = xs \<and> items q'' = []))"
proof -
  obtain q' where q': "foldM push xs q = Some q'" "invar q'" "items q' = xs"
    using push_all_ok [of q xs] assms by (auto simp: wp_iff)
  then have "wp (pop_n pop (length xs) q')
      (\<lambda>(ys, r). invar r \<and> ys = take (length xs) xs \<and> items r = drop (length xs) xs)"
    using pop_n_ok [of q' "length xs"] by simp
  with q' show ?thesis by (auto simp: wp_iff)
qed

end

section \<open>Byte stream buffers\<close>

text \<open>
  What the receive path needs of its buffer: the number of buffered bytes, a copy of the first
  \<open>n\<close> of them, and a copy that also consumes them.
\<close>

locale stream_buffer =
  fixes invar :: "'b \<Rightarrow> bool"
    and contents :: "'b \<Rightarrow> bytes"
    and used :: "'b \<Rightarrow> int"
    and peek :: "'b \<Rightarrow> bytes \<Rightarrow> int \<Rightarrow> (int \<times> bytes) option"
    and read :: "'b \<Rightarrow> bytes \<Rightarrow> int \<Rightarrow> (int \<times> bytes \<times> 'b) option"
  assumes used_eq: "invar b \<Longrightarrow> used b = int (length (contents b))"
    and peek_ok: "invar b \<Longrightarrow> 0 < n \<Longrightarrow> n \<le> used b \<Longrightarrow> n \<le> int (length dest) \<Longrightarrow>
        wp (peek b dest n) (\<lambda>(r, d). r = n \<and> d = take (nat n) (contents b) @ drop (nat n) dest)"
    and read_ok: "invar b \<Longrightarrow> 0 < n \<Longrightarrow> n \<le> used b \<Longrightarrow> n \<le> int (length dest) \<Longrightarrow>
        wp (read b dest n) (\<lambda>(r, d, b'). r = n \<and> invar b' \<and>
          d = take (nat n) (contents b) @ drop (nat n) dest \<and>
          contents b' = drop (nat n) (contents b))"
begin

text \<open>Looking at a header and then reading the frame it announces: both see the same bytes.\<close>

lemma peek_then_read:
  assumes "invar b" and "0 < h" and "h \<le> n" and "n \<le> used b"
    and "h \<le> int (length hdr)" and "n \<le> int (length dest)"
  shows "wp (peek b hdr h) (\<lambda>(r, d). wp (read b dest n) (\<lambda>(r', d', b').
           invar b' \<and> take (nat h) d = take (nat h) d' \<and>
           take (nat n) d' = take (nat n) (contents b) \<and> contents b = take (nat n) d' @ contents b'))"
proof -
  have len: "nat n \<le> length (contents b)" "nat h \<le> nat n"
    using assms by (auto simp: used_eq)
  obtain r d where p: "peek b hdr h = Some (r, d)" "d = take (nat h) (contents b) @ drop (nat h) hdr"
    using peek_ok [of b h hdr] assms by (auto simp: wp_iff)
  obtain r' d' b' where q: "read b dest n = Some (r', d', b')" "invar b'"
      "d' = take (nat n) (contents b) @ drop (nat n) dest" "contents b' = drop (nat n) (contents b)"
    using read_ok [of b n dest] assms by (auto simp: wp_iff)
  show ?thesis using p q len assms
    by (auto simp: min_def)
qed

end

section \<open>Pools\<close>

text \<open>
  A pool of reusable objects: \<open>put\<close> returns an object, \<open>get\<close> hands one out if there is one.
\<close>

locale pool_spec =
  fixes invar :: "'p \<Rightarrow> bool"
    and avail :: "'p \<Rightarrow> 'a multiset"
    and put :: "'a \<Rightarrow> 'p \<Rightarrow> 'p"
    and get :: "'p \<Rightarrow> ('a \<times> 'p) option"
  assumes put_ok: "invar p \<Longrightarrow> invar (put x p) \<and> avail (put x p) = add_mset x (avail p)"
    and get_None: "invar p \<Longrightarrow> get p = None \<longleftrightarrow> avail p = {#}"
    and get_Some: "invar p \<Longrightarrow> get p = Some (x, p') \<Longrightarrow> invar p' \<and> avail p = add_mset x (avail p')"
begin

text \<open>An object is never handed out twice: taking one out removes one occurrence of it.\<close>

lemma get_once:
  assumes "invar p" and "get p = Some (x, p')" and "count (avail p) x \<le> 1"
  shows "x \<notin># avail p'"
  using get_Some [OF assms(1,2)] assms(3) by (auto simp: not_in_iff)

lemma get_put_conserves:
  "invar p \<Longrightarrow> get p = Some (x, p') \<Longrightarrow> avail (put x p') = avail p"
  using get_Some [of p x p'] put_ok [of p' x] by auto

end

section \<open>Reference counting\<close>

text \<open>
  Shared objects with explicit \<open>acquire\<close> and \<open>release\<close>. \<open>inv h\<close> says that the store is consistent
  when the references in the multiset \<open>h\<close> are outstanding.
\<close>

locale refcounted =
  fixes inv :: "'r multiset \<Rightarrow> 's \<Rightarrow> bool"
    and alloc :: "'s \<Rightarrow> 'r \<times> 's"
    and acquire :: "'r \<Rightarrow> 's \<Rightarrow> 's option"
    and release :: "'r \<Rightarrow> 's \<Rightarrow> 's option"
  assumes alloc_ok: "inv h s \<Longrightarrow> alloc s = (r, s') \<Longrightarrow> r \<notin># h \<and> inv (add_mset r h) s'"
    and acquire_ok: "inv h s \<Longrightarrow> r \<in># h \<Longrightarrow> wp (acquire r s) (inv (add_mset r h))"
    and release_ok: "inv (add_mset r h) s \<Longrightarrow> wp (release r s) (inv h)"
begin

lemma release_all:
  "inv (mset rs + h) s \<Longrightarrow> wp (foldM release rs s) (inv h)"
proof (induction rs arbitrary: s)
  case Nil
  then show ?case by simp
next
  case (Cons r rs)
  then have "wp (release r s) (inv (mset rs + h))" using release_ok by simp
  then obtain s' where "release r s = Some s'" "inv (mset rs + h) s'" by (rule wpE)
  with Cons.IH show ?case by simp
qed

text \<open>A temporary reference changes nothing for the others.\<close>

lemma acquire_release:
  "inv h s \<Longrightarrow> r \<in># h \<Longrightarrow> wp (acquire r s) (\<lambda>s'. wp (release r s') (inv h))"
  by (rule wp_mono [OF acquire_ok]) (assumption+, rule release_ok)

end

end
