(* ===== verification/LockFreeStack.thy ===== *)
theory LockFreeStack
  imports Interfaces
begin

text \<open>
  \<open>CLockFreeStack<T>\<close> at the granularity of its shared-memory accesses: each load of \<open>m_pTop\<close>,
  each read of \<open>oldPtr->next\<close>, each \<open>InterlockedCompareExchange64\<close>, each \<open>new\<close> and \<open>delete\<close> of a
  node is one step of one of any number of threads. The 64-bit top word carries a 17-bit stamp over
  a 47-bit node address. The main result is that the successful exchanges linearise \<open>Push\<close> and
  \<open>Pop\<close>: their order is a run of an ordinary stack, provided no thread sleeps through \<open>2 ^ 17\<close>
  successful exchanges between its load and its exchange.
\<close>

section \<open>The combined top word\<close>

definition GetPtr :: "64 word \<Rightarrow> 64 word" where
  "GetPtr combined = combined AND 0x00007FFFFFFFFFFF"

definition GetStamp :: "64 word \<Rightarrow> 64 word" where
  "GetStamp combined = drop_bit 47 combined"

definition Combine :: "64 word \<Rightarrow> 64 word \<Rightarrow> 64 word" where
  "Combine stamp ptr = push_bit 47 stamp OR ptr"

section \<open>Atomic stack: the abstract specification\<close>

definition stack_push :: "'a \<Rightarrow> 'a list \<Rightarrow> 'a list" where
  "stack_push x xs = x # xs"

definition stack_pop :: "'a list \<Rightarrow> ('a \<times> 'a list) option" where
  "stack_pop xs = (case xs of [] \<Rightarrow> None | x # ys \<Rightarrow> Some (x, ys))"

text \<open>The visible effect of a step: a completed push, a completed pop, a pop that found nothing.\<close>

datatype 'a event = Tau | EvPush 'a | EvPop 'a | EvEmpty

fun stack_run :: "'a list \<Rightarrow> 'a event list \<Rightarrow> 'a list option" where
  "stack_run xs [] = Some xs"
| "stack_run xs (Tau # es) = stack_run xs es"
| "stack_run xs (EvPush d # es) = stack_run (stack_push d xs) es"
| "stack_run xs (EvPop d # es) =
     (case stack_pop xs of Some (e, ys) \<Rightarrow> if e = d then stack_run ys es else None | None \<Rightarrow> None)"
| "stack_run xs (EvEmpty # es) = (if stack_pop xs = None then stack_run xs es else None)"

section \<open>The concurrent stack\<close>

record 'a Node =
  node_data :: 'a
  node_next :: "64 word"

text \<open>
  Where a thread stands in \<open>Push\<close> or \<open>Pop\<close>, with its local variables. The last number of a load
  is the ghost count of successful exchanges at that moment.
\<close>

datatype 'a pc =
    Idle
  | PushLoop "64 word"                 \<comment> \<open>before \<open>old = m_pTop\<close>, with \<open>newNode\<close>\<close>
  | PushCas "64 word" "64 word" nat    \<comment> \<open>before the exchange, with \<open>newNode\<close>, \<open>old\<close>\<close>
  | PopLoop                            \<comment> \<open>before \<open>old = m_pTop\<close>\<close>
  | PopRead "64 word" nat              \<comment> \<open>before \<open>oldPtr->next\<close>, with \<open>old\<close>\<close>
  | PopCas "64 word" "64 word" nat     \<comment> \<open>before the exchange, with \<open>old\<close> and the value read\<close>
  | PopDone "64 word" 'a               \<comment> \<open>before \<open>*out = temp->data; delete temp\<close>\<close>

record 'a lfs =
  m_pTop :: "64 word"
  heap :: "64 word \<Rightarrow> 'a Node option"
  pcs :: "nat \<Rightarrow> 'a pc"
  cnt :: nat                           \<comment> \<open>ghost: successful exchanges so far\<close>

definition lfs_init :: "'a lfs" where
  "lfs_init = \<lparr>m_pTop = 0, heap = Map.empty, pcs = (\<lambda>_. Idle), cnt = 0\<rparr>"

text \<open>
  The steps. \<open>new\<close> returns any address not in use, non-null and below \<open>2 ^ 47\<close>; reading \<open>next\<close>
  of a node that was freed meanwhile yields any value.
\<close>

inductive lf_step :: "'a lfs \<Rightarrow> 'a event \<Rightarrow> 'a lfs \<Rightarrow> bool" where
  push_new: "pcs s t = Idle \<Longrightarrow> heap s a = None \<Longrightarrow> a \<noteq> 0 \<Longrightarrow> a < 2 ^ 47 \<Longrightarrow>
    lf_step s Tau (s\<lparr>heap := (heap s)(a \<mapsto> \<lparr>node_data = d, node_next = n0\<rparr>),
                     pcs := (pcs s)(t := PushLoop a)\<rparr>)"
| push_load: "pcs s t = PushLoop a \<Longrightarrow> heap s a = Some nd \<Longrightarrow>
    lf_step s Tau (s\<lparr>heap := (heap s)(a \<mapsto> nd\<lparr>node_next := GetPtr (m_pTop s)\<rparr>),
                     pcs := (pcs s)(t := PushCas a (m_pTop s) (cnt s))\<rparr>)"
| push_cas_ok: "pcs s t = PushCas a old c \<Longrightarrow> m_pTop s = old \<Longrightarrow> heap s a = Some nd \<Longrightarrow>
    lf_step s (EvPush (node_data nd))
      (s\<lparr>m_pTop := Combine (GetStamp old + 1) a, pcs := (pcs s)(t := Idle), cnt := Suc (cnt s)\<rparr>)"
| push_cas_fail: "pcs s t = PushCas a old c \<Longrightarrow> m_pTop s \<noteq> old \<Longrightarrow>
    lf_step s Tau (s\<lparr>pcs := (pcs s)(t := PushLoop a)\<rparr>)"
| pop_call: "pcs s t = Idle \<Longrightarrow> lf_step s Tau (s\<lparr>pcs := (pcs s)(t := PopLoop)\<rparr>)"
| pop_empty: "pcs s t = PopLoop \<Longrightarrow> GetPtr (m_pTop s) = 0 \<Longrightarrow>
    lf_step s EvEmpty (s\<lparr>pcs := (pcs s)(t := Idle)\<rparr>)"
| pop_load: "pcs s t = PopLoop \<Longrightarrow> GetPtr (m_pTop s) \<noteq> 0 \<Longrightarrow>
    lf_step s Tau (s\<lparr>pcs := (pcs s)(t := PopRead (m_pTop s) (cnt s))\<rparr>)"
| pop_read: "pcs s t = PopRead old c \<Longrightarrow>
    (\<forall>nd. heap s (GetPtr old) = Some nd \<longrightarrow> nxt = node_next nd) \<Longrightarrow>
    lf_step s Tau (s\<lparr>pcs := (pcs s)(t := PopCas old nxt c)\<rparr>)"
| pop_cas_ok: "pcs s t = PopCas old nxt c \<Longrightarrow> m_pTop s = old \<Longrightarrow> heap s (GetPtr old) = Some nd \<Longrightarrow>
    lf_step s (EvPop (node_data nd))
      (s\<lparr>m_pTop := Combine (GetStamp old + 1) nxt,
         pcs := (pcs s)(t := PopDone (GetPtr old) (node_data nd)), cnt := Suc (cnt s)\<rparr>)"
| pop_cas_fail: "pcs s t = PopCas old nxt c \<Longrightarrow> m_pTop s \<noteq> old \<Longrightarrow>
    lf_step s Tau (s\<lparr>pcs := (pcs s)(t := PopLoop)\<rparr>)"
| pop_delete: "pcs s t = PopDone a d \<Longrightarrow>
    lf_step s Tau (s\<lparr>heap := (heap s)(a := None), pcs := (pcs s)(t := Idle)\<rparr>)"

text \<open>
  No thread is out of date by a full turn of the 17-bit stamp. Without this the exchange of a
  sleeping thread can succeed on a top word that was rebuilt in the meantime.
\<close>

definition fresh_loads :: "'a lfs \<Rightarrow> bool" where
  "fresh_loads s \<longleftrightarrow> (\<forall>t. case pcs s t of
       PushCas a old c \<Rightarrow> cnt s - c < 2 ^ 17
     | PopRead old c \<Rightarrow> cnt s - c < 2 ^ 17
     | PopCas old nxt c \<Rightarrow> cnt s - c < 2 ^ 17
     | _ \<Rightarrow> True)"

inductive lf_exec :: "'a event list \<Rightarrow> 'a lfs \<Rightarrow> bool" where
  exec_init: "lf_exec [] lfs_init"
| exec_step: "lf_exec es s \<Longrightarrow> fresh_loads s \<Longrightarrow> lf_step s e s' \<Longrightarrow> lf_exec (es @ [e]) s'"

section \<open>Bit layout\<close>

lemma GetPtr_take_bit: "GetPtr x = take_bit 47 x"
  by (simp add: GetPtr_def take_bit_eq_mask mask_eq_exp_minus_1)

lemma take_bit_self: "(p :: 64 word) < 2 ^ 47 \<Longrightarrow> take_bit 47 p = p"
  by (simp add: take_bit_eq_mask less_mask_eq)

lemma GetPtr_Combine [simp]: "p < 2 ^ 47 \<Longrightarrow> GetPtr (Combine st p) = p"
proof -
  assume "p < 2 ^ 47"
  then have p: "take_bit 47 p = p" by (rule take_bit_self)
  have "take_bit 47 (push_bit 47 st OR p) = take_bit 47 p"
    by (rule bit_word_eqI) (auto simp: bit_simps)
  with p show ?thesis by (simp add: GetPtr_take_bit Combine_def)
qed

lemma GetStamp_Combine: "p < 2 ^ 47 \<Longrightarrow> GetStamp (Combine st p) = take_bit 17 st"
proof -
  assume "p < 2 ^ 47"
  then have p: "take_bit 47 p = p" by (rule take_bit_self)
  then have nb: "\<not> bit p (47 + n)" for n by (metis bit_take_bit_iff not_add_less1)
  show ?thesis
    by (rule bit_word_eqI) (auto simp: GetStamp_def Combine_def bit_simps nb)
qed

lemma stamp_succ:
  "take_bit 17 (of_nat (c mod 2 ^ 17) + 1 :: 64 word) = of_nat (Suc c mod 2 ^ 17)"
proof -
  have "of_nat (c mod 2 ^ 17) + 1 = (of_nat (Suc (c mod 2 ^ 17)) :: 64 word)" by simp
  also have "take_bit 17 \<dots> = of_nat (take_bit 17 (Suc (c mod 2 ^ 17)))"
    by (simp only: take_bit_of_nat)
  also have "take_bit 17 (Suc (c mod 2 ^ 17)) = Suc c mod 2 ^ 17"
    by (simp only: take_bit_eq_mod mod_Suc_eq)
  finally show ?thesis .
qed

lemma stamp_inj:
  assumes "(of_nat (c mod 2 ^ 17) :: 64 word) = of_nat (d mod 2 ^ 17)"
    and "c \<le> d" and "d - c < 2 ^ 17"
  shows "c = d"
proof -
  have "unat (of_nat (c mod 2 ^ 17) :: 64 word) = unat (of_nat (d mod 2 ^ 17) :: 64 word)"
    using assms(1) by simp
  then have "c mod 2 ^ 17 = d mod 2 ^ 17" by (simp add: unat_of_nat take_bit_nat_eq_self)
  then have "(2 ^ 17 :: nat) dvd d - c"
    using assms(2) by (metis mod_eq_dvd_iff_nat)
  with assms show ?thesis by (auto dest: dvd_imp_le)
qed

section \<open>The invariant\<close>

text \<open>The list of nodes linked from an address, all of them allocated.\<close>

fun chain :: "(64 word \<Rightarrow> 'a Node option) \<Rightarrow> 64 word \<Rightarrow> 64 word list \<Rightarrow> bool" where
  "chain h p [] \<longleftrightarrow> p = 0"
| "chain h p (a # as) \<longleftrightarrow> p = a \<and> a \<noteq> 0 \<and> a < 2 ^ 47 \<and>
     (\<exists>nd. h a = Some nd \<and> chain h (node_next nd) as)"

definition vals :: "(64 word \<Rightarrow> 'a Node option) \<Rightarrow> 64 word list \<Rightarrow> 'a list" where
  "vals h as = map (\<lambda>a. node_data (the (h a))) as"

text \<open>The abstract stack held by a concrete state.\<close>

definition stack_of :: "'a lfs \<Rightarrow> 'a list \<Rightarrow> bool" where
  "stack_of s xs \<longleftrightarrow> (\<exists>as. chain (heap s) (GetPtr (m_pTop s)) as \<and> distinct as \<and> xs = vals (heap s) as)"

text \<open>Nodes that only one thread knows: being pushed, or popped and not yet deleted.\<close>

fun own :: "'a pc \<Rightarrow> 64 word set" where
  "own (PushLoop a) = {a}"
| "own (PushCas a old c) = {a}"
| "own (PopDone a d) = {a}"
| "own _ = {}"

definition load_ok :: "'a lfs \<Rightarrow> 64 word \<Rightarrow> nat \<Rightarrow> bool" where
  "load_ok s old c \<longleftrightarrow> c \<le> cnt s \<and> GetStamp old = of_nat (c mod 2 ^ 17) \<and> (c = cnt s \<longrightarrow> old = m_pTop s)"

fun pc_ok :: "'a lfs \<Rightarrow> 'a pc \<Rightarrow> bool" where
  "pc_ok s (PushLoop a) \<longleftrightarrow> a \<noteq> 0 \<and> a < 2 ^ 47 \<and> heap s a \<noteq> None"
| "pc_ok s (PushCas a old c) \<longleftrightarrow> a \<noteq> 0 \<and> a < 2 ^ 47 \<and> load_ok s old c \<and>
     (\<exists>nd. heap s a = Some nd \<and> node_next nd = GetPtr old)"
| "pc_ok s (PopRead old c) \<longleftrightarrow> load_ok s old c \<and> GetPtr old \<noteq> 0"
| "pc_ok s (PopCas old nxt c) \<longleftrightarrow> load_ok s old c \<and> GetPtr old \<noteq> 0 \<and>
     (c = cnt s \<longrightarrow> (\<forall>nd. heap s (GetPtr old) = Some nd \<longrightarrow> node_next nd = nxt))"
| "pc_ok s (PopDone a d) \<longleftrightarrow> a \<noteq> 0 \<and> (\<exists>nd. heap s a = Some nd \<and> node_data nd = d)"
| "pc_ok s _ \<longleftrightarrow> True"

definition lf_inv :: "'a lfs \<Rightarrow> 64 word list \<Rightarrow> bool" where
  "lf_inv s as \<longleftrightarrow> chain (heap s) (GetPtr (m_pTop s)) as \<and> distinct as \<and>
     GetStamp (m_pTop s) = of_nat (cnt s mod 2 ^ 17) \<and>
     (\<forall>t. own (pcs s t) \<inter> set as = {}) \<and>
     (\<forall>t u. t \<noteq> u \<longrightarrow> own (pcs s t) \<inter> own (pcs s u) = {}) \<and>
     (\<forall>t. pc_ok s (pcs s t))"

lemma chain_upd: "a \<notin> set as \<Longrightarrow> chain (h(a := v)) p as = chain h p as"
  by (induction as arbitrary: p) auto

lemma vals_upd: "a \<notin> set as \<Longrightarrow> vals (h(a := v)) as = vals h as"
  by (simp add: vals_def)

lemma chain_alloc: "chain h p as \<Longrightarrow> x \<in> set as \<Longrightarrow> h x \<noteq> None"
  by (induction as arbitrary: p) auto

lemma chain_lt: "chain h p as \<Longrightarrow> p < 2 ^ 47"
  by (cases as) auto

lemma chain_0: "chain h 0 as \<longleftrightarrow> as = []"
  by (cases as) auto

lemma lf_inv_init: "lf_inv lfs_init []"
  by (simp add: lf_inv_def lfs_init_def GetPtr_def GetStamp_def)

text \<open>
  If a thread's exchange succeeds within the window, nothing was exchanged since its load.
\<close>

lemma cas_succeeds:
  assumes "load_ok s old c" and "m_pTop s = old" and "cnt s - c < 2 ^ 17"
    and "GetStamp (m_pTop s) = of_nat (cnt s mod 2 ^ 17)"
  shows "c = cnt s"
  using assms by (auto simp: load_ok_def intro: stamp_inj)

lemma pc_ok_pcs [simp]: "pc_ok (s\<lparr>pcs := f\<rparr>) pc = pc_ok s pc"
  by (cases pc) (auto simp: load_ok_def)

lemma pc_ok_heap:
  assumes "pc_ok s pc" and "a \<notin> own pc" and "a \<notin> set as"
    and "chain (heap s) (GetPtr (m_pTop s)) as"
  shows "pc_ok (s\<lparr>heap := (heap s)(a := v)\<rparr>) pc"
proof (cases pc)
  case (PopCas old nxt c)
  have "GetPtr old \<noteq> a" if "c = cnt s"
    using that assms PopCas by (cases as) (auto simp: load_ok_def)
  with assms PopCas show ?thesis by (auto simp: load_ok_def)
qed (use assms in \<open>auto simp: load_ok_def\<close>)

lemma pc_ok_exchange:
  "pc_ok s pc \<Longrightarrow> pc_ok (s\<lparr>m_pTop := x, cnt := Suc (cnt s)\<rparr>) pc"
  by (cases pc) (auto simp: load_ok_def)

lemma own_upd_disjoint:
  assumes "\<And>t u. t \<noteq> u \<Longrightarrow> own (f t) \<inter> own (f u) = {}"
    and "own p \<subseteq> own (f t0) \<union> X" and "\<And>t. X \<inter> own (f t) = {}"
    and "t \<noteq> u"
  shows "own ((f(t0 := p)) t) \<inter> own ((f(t0 := p)) u) = {}"
proof -
  have "own p \<inter> own (f w) = {}" if "w \<noteq> t0" for w
    using assms(1) [of t0 w] assms(2) assms(3) [of w] that by blast
  then show ?thesis using assms(1) [of t u] assms(4) by (auto simp: Int_commute)
qed

section \<open>Every step is a step of the atomic stack\<close>

text \<open>What one step does to the abstract stack.\<close>

fun event_effect :: "'a event \<Rightarrow> 'a list \<Rightarrow> 'a list \<Rightarrow> bool" where
  "event_effect Tau xs ys \<longleftrightarrow> ys = xs"
| "event_effect (EvPush d) xs ys \<longleftrightarrow> ys = stack_push d xs"
| "event_effect (EvPop d) xs ys \<longleftrightarrow> stack_pop xs = Some (d, ys)"
| "event_effect EvEmpty xs ys \<longleftrightarrow> stack_pop xs = None \<and> ys = xs"

lemma lf_inv_pc_change:
  assumes inv: "lf_inv s as" and "pc_ok s p" and own: "own p \<subseteq> own (pcs s t)"
  shows "lf_inv (s\<lparr>pcs := (pcs s)(t := p)\<rparr>) as"
proof -
  have "own (((pcs s)(t := p)) u) \<inter> own (((pcs s)(t := p)) v) = {}" if "u \<noteq> v" for u v
    using inv that own by (intro own_upd_disjoint [where X = "{}"]) (auto simp: lf_inv_def)
  moreover have "own p \<inter> set as = {}" using inv own by (auto simp: lf_inv_def)
  ultimately show ?thesis using assms by (simp add: lf_inv_def)
qed

lemma push_new_step:
  assumes inv: "lf_inv s as" and pc: "pcs s t = Idle" and a: "heap s a = None" "a \<noteq> 0" "a < 2 ^ 47"
  shows "lf_inv (s\<lparr>heap := (heap s)(a \<mapsto> nd), pcs := (pcs s)(t := PushLoop a)\<rparr>) as"
    and "vals ((heap s)(a \<mapsto> nd)) as = vals (heap s) as"
proof -
  have notin: "a \<notin> set as" using inv a chain_alloc by (fastforce simp: lf_inv_def)
  have notown: "a \<notin> own (pcs s u)" for u
  proof
    assume "a \<in> own (pcs s u)"
    moreover have "pc_ok s (pcs s u)" using inv by (simp add: lf_inv_def)
    ultimately show False using a by (cases "pcs s u") auto
  qed
  have "pc_ok (s\<lparr>heap := (heap s)(a \<mapsto> nd)\<rparr>) (pcs s u)" for u
    using inv notin notown by (intro pc_ok_heap [where as = as]) (auto simp: lf_inv_def)
  moreover have "own (((pcs s)(t := PushLoop a)) u) \<inter> own (((pcs s)(t := PushLoop a)) v) = {}"
    if "u \<noteq> v" for u v
    using inv that notown by (intro own_upd_disjoint [where X = "{a}"]) (auto simp: lf_inv_def)
  ultimately show "lf_inv (s\<lparr>heap := (heap s)(a \<mapsto> nd), pcs := (pcs s)(t := PushLoop a)\<rparr>) as"
    using inv a notin pc by (simp add: lf_inv_def chain_upd)
  show "vals ((heap s)(a \<mapsto> nd)) as = vals (heap s) as" using notin by (rule vals_upd)
qed

text \<open>A thread writes to, or frees, a node of its own.\<close>

lemma own_node_step:
  assumes inv: "lf_inv s as" and a: "a \<in> own (pcs s t)"
    and p: "pc_ok (s\<lparr>heap := (heap s)(a := v)\<rparr>) p" "own p \<subseteq> own (pcs s t)"
  shows "lf_inv (s\<lparr>heap := (heap s)(a := v), pcs := (pcs s)(t := p)\<rparr>) as"
    and "vals ((heap s)(a := v)) as = vals (heap s) as"
proof -
  have notin: "a \<notin> set as" using inv a by (auto simp: lf_inv_def)
  have "own (pcs s t) \<inter> own (pcs s u) = {}" if "u \<noteq> t" for u
    using inv that by (simp add: lf_inv_def)
  then have "a \<notin> own (pcs s u)" if "u \<noteq> t" for u using a that by blast
  then have "pc_ok (s\<lparr>heap := (heap s)(a := v)\<rparr>) (pcs s u)" if "u \<noteq> t" for u
    using inv notin that by (intro pc_ok_heap [where as = as]) (auto simp: lf_inv_def)
  moreover have "own (((pcs s)(t := p)) u) \<inter> own (((pcs s)(t := p)) w) = {}" if "u \<noteq> w" for u w
    using inv that p by (intro own_upd_disjoint [where X = "{}"]) (auto simp: lf_inv_def)
  moreover have "own p \<inter> set as = {}" using inv p(2) by (auto simp: lf_inv_def)
  ultimately show "lf_inv (s\<lparr>heap := (heap s)(a := v), pcs := (pcs s)(t := p)\<rparr>) as"
    using inv p notin by (simp add: lf_inv_def chain_upd)
  show "vals ((heap s)(a := v)) as = vals (heap s) as" using notin by (rule vals_upd)
qed

text \<open>A successful exchange: the stack changes at its head, one node changes owner.\<close>

lemma exchange_step:
  assumes inv: "lf_inv s as" and p: "p < 2 ^ 47" "chain (heap s) p bs" "distinct bs"
    and old: "m_pTop s = old"
    and pc: "pc_ok s q" "own q \<inter> set bs = {}"
    and fresh: "\<And>u. u \<noteq> t \<Longrightarrow> own (pcs s u) \<inter> (set bs \<union> own q) = {}"
  shows "lf_inv (s\<lparr>m_pTop := Combine (GetStamp old + 1) p, pcs := (pcs s)(t := q),
           cnt := Suc (cnt s)\<rparr>) bs"
proof -
  let ?s = "s\<lparr>m_pTop := Combine (GetStamp old + 1) p, cnt := Suc (cnt s)\<rparr>"
  have st: "GetStamp (Combine (GetStamp old + 1) p) = of_nat (Suc (cnt s) mod 2 ^ 17)"
    using inv old p(1) stamp_succ [of "cnt s"] by (simp add: GetStamp_Combine lf_inv_def)
  have "pc_ok ?s pc" if "pc_ok s pc" for pc using that by (rule pc_ok_exchange)
  moreover have "own (((pcs s)(t := q)) u) \<inter> own (((pcs s)(t := q)) w) = {}" if "u \<noteq> w" for u w
  proof -
    have "own (pcs s u) \<inter> own (pcs s w) = {}" using inv that by (simp add: lf_inv_def)
    with fresh [of u] fresh [of w] that show ?thesis by (auto simp: Int_commute Int_Un_distrib)
  qed
  moreover have "own (((pcs s)(t := q)) u) \<inter> set bs = {}" for u using fresh pc by auto
  ultimately have "lf_inv (?s\<lparr>pcs := (pcs s)(t := q)\<rparr>) bs"
    using inv pc p st unfolding lf_inv_def by simp
  moreover have "?s\<lparr>pcs := (pcs s)(t := q)\<rparr> = s\<lparr>m_pTop := Combine (GetStamp old + 1) p,
      pcs := (pcs s)(t := q), cnt := Suc (cnt s)\<rparr>"
    by simp
  ultimately show ?thesis by (simp only:)
qed

lemma fresh_loads_push: "fresh_loads s \<Longrightarrow> pcs s t = PushCas a old c \<Longrightarrow> cnt s - c < 2 ^ 17"
  unfolding fresh_loads_def by (drule spec [of _ t]) simp

lemma fresh_loads_pop: "fresh_loads s \<Longrightarrow> pcs s t = PopCas old nxt c \<Longrightarrow> cnt s - c < 2 ^ 17"
  unfolding fresh_loads_def by (drule spec [of _ t]) simp

lemma push_exchange:
  assumes inv: "lf_inv s as" and fresh: "fresh_loads s"
    and pc: "pcs s t = PushCas a old c" and old: "m_pTop s = old" and nd: "heap s a = Some nd"
  shows "lf_inv (s\<lparr>m_pTop := Combine (GetStamp old + 1) a, pcs := (pcs s)(t := Idle),
           cnt := Suc (cnt s)\<rparr>) (a # as)"
    and "vals (heap s) (a # as) = stack_push (node_data nd) (vals (heap s) as)"
proof -
  have ok: "pc_ok s (PushCas a old c)" using inv pc unfolding lf_inv_def by metis
  have "cnt s - c < 2 ^ 17" using fresh pc by (rule fresh_loads_push)
  with ok inv old have "c = cnt s"
    by (intro cas_succeeds [of s old c]) (auto simp: lf_inv_def)
  have a: "a \<notin> set as" "a \<notin> own (pcs s u)" if "u \<noteq> t" for u
  proof -
    have "own (pcs s t) = {a}" using pc by simp
    moreover have "own (pcs s t) \<inter> set as = {}" "own (pcs s t) \<inter> own (pcs s u) = {}"
      using inv that unfolding lf_inv_def by blast+
    ultimately show "a \<notin> set as" "a \<notin> own (pcs s u)" by auto
  qed
  have notin: "a \<notin> set as" using inv pc unfolding lf_inv_def by (metis disjoint_iff insertI1 own.simps(2))
  have ch: "chain (heap s) a (a # as)" using ok nd inv old by (auto simp: lf_inv_def)
  show "lf_inv (s\<lparr>m_pTop := Combine (GetStamp old + 1) a, pcs := (pcs s)(t := Idle),
      cnt := Suc (cnt s)\<rparr>) (a # as)"
  proof (rule exchange_step [OF inv])
    show "a < 2 ^ 47" using ok by simp
    show "distinct (a # as)" using notin inv by (simp add: lf_inv_def)
    show "own (pcs s u) \<inter> (set (a # as) \<union> own Idle) = {}" if "u \<noteq> t" for u
      using a(2) [OF that] inv by (auto simp: lf_inv_def)
  qed (use ch old in auto)
  show "vals (heap s) (a # as) = stack_push (node_data nd) (vals (heap s) as)"
    using nd by (simp add: vals_def stack_push_def)
qed

lemma pop_exchange:
  assumes inv: "lf_inv s as" and fresh: "fresh_loads s"
    and pc: "pcs s t = PopCas old nxt c" and old: "m_pTop s = old"
    and nd: "heap s (GetPtr old) = Some nd"
  obtains bs where "lf_inv (s\<lparr>m_pTop := Combine (GetStamp old + 1) nxt,
      pcs := (pcs s)(t := PopDone (GetPtr old) (node_data nd)), cnt := Suc (cnt s)\<rparr>) bs"
    and "stack_pop (vals (heap s) as) = Some (node_data nd, vals (heap s) bs)"
proof -
  have ok: "pc_ok s (PopCas old nxt c)" using inv pc unfolding lf_inv_def by metis
  have "cnt s - c < 2 ^ 17" using fresh pc by (rule fresh_loads_pop)
  with ok inv old have c: "c = cnt s"
    by (intro cas_succeeds [of s old c]) (auto simp: lf_inv_def)
  obtain bs where as: "as = GetPtr old # bs" and ch: "chain (heap s) (node_next nd) bs"
    using inv ok old nd by (cases as) (auto simp: lf_inv_def)
  have nxt: "node_next nd = nxt" using ok c nd by simp
  have "lf_inv (s\<lparr>m_pTop := Combine (GetStamp old + 1) nxt,
      pcs := (pcs s)(t := PopDone (GetPtr old) (node_data nd)), cnt := Suc (cnt s)\<rparr>) bs"
  proof (rule exchange_step [OF inv])
    show "nxt < 2 ^ 47" using ch nxt chain_lt by blast
    show "own (pcs s u) \<inter> (set bs \<union> own (PopDone (GetPtr old) (node_data nd))) = {}"
      if "u \<noteq> t" for u
      using inv as by (auto simp: lf_inv_def)
  qed (use ch nxt inv as ok nd old in \<open>auto simp: lf_inv_def\<close>)
  moreover have "stack_pop (vals (heap s) as) = Some (node_data nd, vals (heap s) bs)"
    using as nd by (simp add: vals_def stack_pop_def)
  ultimately show thesis by (rule that)
qed

lemma lf_step_refines:
  assumes "lf_step s e s'" and inv: "lf_inv s as" and fresh: "fresh_loads s"
  obtains bs where "lf_inv s' bs" and "event_effect e (vals (heap s) as) (vals (heap s') bs)"
  using assms(1)
proof cases
  case (push_new t a d n0)
  then show thesis using push_new_step [OF inv] by (intro that [of as]) auto
next
  case (push_load t a nd)
  have "pc_ok s (PushLoop a)" using inv push_load unfolding lf_inv_def by metis
  moreover have "load_ok (s\<lparr>heap := h\<rparr>) (m_pTop s) (cnt s)" for h
    using inv by (simp add: load_ok_def lf_inv_def)
  ultimately show thesis
    using push_load own_node_step [OF inv, of a t "Some (nd\<lparr>node_next := GetPtr (m_pTop s)\<rparr>)"
        "PushCas a (m_pTop s) (cnt s)"]
    by (intro that [of as]) auto
next
  case (push_cas_ok t a old c nd)
  then show thesis using push_exchange [OF inv fresh, of t a old c nd]
    by (intro that [of "a # as"]) auto
next
  case (push_cas_fail t a old c)
  have "pc_ok s (PushCas a old c)" using inv push_cas_fail unfolding lf_inv_def by metis
  then show thesis using push_cas_fail lf_inv_pc_change [OF inv, of "PushLoop a" t]
    by (intro that [of as]) auto
next
  case (pop_call t)
  then show thesis using lf_inv_pc_change [OF inv, of PopLoop t] by (intro that [of as]) auto
next
  case (pop_empty t)
  then show thesis using lf_inv_pc_change [OF inv, of Idle t] inv
    by (intro that [of as]) (auto simp: lf_inv_def chain_0 vals_def stack_pop_def)
next
  case (pop_load t)
  then show thesis using lf_inv_pc_change [OF inv, of "PopRead (m_pTop s) (cnt s)" t] inv
    by (intro that [of as]) (auto simp: lf_inv_def load_ok_def)
next
  case (pop_read t old c nxt)
  have "pc_ok s (PopRead old c)" using inv pop_read unfolding lf_inv_def by metis
  then show thesis using pop_read lf_inv_pc_change [OF inv, of "PopCas old nxt c" t]
    by (intro that [of as]) auto
next
  case (pop_cas_ok t old nxt c nd)
  obtain bs where "lf_inv s' bs" "stack_pop (vals (heap s) as) = Some (node_data nd, vals (heap s) bs)"
    using pop_exchange [OF inv fresh pop_cas_ok(3-5)] pop_cas_ok(2) by metis
  then show thesis using pop_cas_ok by (intro that [of bs]) auto
next
  case (pop_cas_fail t old nxt c)
  then show thesis using lf_inv_pc_change [OF inv, of PopLoop t] by (intro that [of as]) auto
next
  case (pop_delete t a d)
  then show thesis using own_node_step [OF inv, of a t None Idle] by (intro that [of as]) auto
qed

section \<open>Executions\<close>

lemma stack_run_snoc:
  "stack_run xs es = Some ys \<Longrightarrow> event_effect e ys zs \<Longrightarrow> stack_run xs (es @ [e]) = Some zs"
  by (induction xs es rule: stack_run.induct)
    (auto split: option.splits if_splits, (cases e; auto)+)

lemma lf_exec_inv:
  assumes "lf_exec es s"
  obtains as where "lf_inv s as" and "stack_run [] es = Some (vals (heap s) as)"
  using assms
proof (induction arbitrary: thesis rule: lf_exec.induct)
  case exec_init
  show ?case using lf_inv_init by (rule exec_init) (simp add: vals_def)
next
  case (exec_step es s e s')
  then obtain as where "lf_inv s as" "stack_run [] es = Some (vals (heap s) as)" by metis
  with exec_step(2,3,5) show ?case by (metis lf_step_refines stack_run_snoc)
qed

text \<open>
  C33: linearizability of the lock-free stack. In every execution of any number of threads in which
  no thread sleeps through a full turn of the stamp, the node list reachable from \<open>m_pTop\<close> holds
  exactly what an ordinary stack holds after the pushes and pops in the order of their successful
  exchanges; a pop returns the value an ordinary pop would, and reports an empty stack only when it
  is empty. The ABA problem cannot occur.
\<close>

theorem lf_linearizable:
  assumes "lf_exec es s"
  shows "\<exists>xs. stack_of s xs \<and> stack_run [] es = Some xs"
  using assms by (elim lf_exec_inv) (auto simp: stack_of_def lf_inv_def)

text \<open>A concrete run: one push, then two threads that both pop the node.\<close>

lemma fresh_small: "cnt s < 2 ^ 17 \<Longrightarrow> fresh_loads s"
  by (auto simp: fresh_loads_def split: pc.splits)

lemma lf_exec_push:
  "lf_exec [Tau, Tau, EvPush (7 :: nat)]
     \<lparr>m_pTop = Combine (GetStamp 0 + 1) 16, heap = [16 \<mapsto> \<lparr>node_data = 7, node_next = 0\<rparr>],
      pcs = \<lambda>_. Idle, cnt = 1\<rparr>"
proof -
  let ?n = "\<lparr>node_data = 7 :: nat, node_next = 0\<rparr>"
  have "lf_exec [Tau] \<lparr>m_pTop = 0, heap = [16 \<mapsto> ?n], pcs = (\<lambda>_. Idle)(0 := PushLoop 16), cnt = 0\<rparr>"
    using exec_step [OF exec_init _ push_new [of _ 0 16 7 0]]
    by (simp add: lfs_init_def fresh_small)
  then have "lf_exec [Tau, Tau] \<lparr>m_pTop = 0, heap = [16 \<mapsto> ?n],
      pcs = (\<lambda>_. Idle)(0 := PushCas 16 0 0), cnt = 0\<rparr>"
    using exec_step [OF _ _ push_load [of _ 0 16 ?n], of "[Tau]"
        "\<lparr>m_pTop = 0, heap = [16 \<mapsto> ?n], pcs = (\<lambda>_. Idle)(0 := PushLoop 16), cnt = 0\<rparr>"]
    by (simp add: fresh_small GetPtr_def)
  then show ?thesis
    using exec_step [OF _ _ push_cas_ok [of _ 0 16 0 0 ?n], of "[Tau, Tau]"
        "\<lparr>m_pTop = 0, heap = [16 \<mapsto> ?n], pcs = (\<lambda>_. Idle)(0 := PushCas 16 0 0), cnt = 0\<rparr>"]
    by (simp add: fresh_small fun_upd_idem)
qed

definition two_pops :: "nat event list" where
  "two_pops = [Tau, Tau, EvPush 7, Tau, Tau, Tau, Tau, Tau, EvPop 7]"

text \<open>Thread 0 has loaded the top word; thread 2 has popped the node and not deleted it yet.\<close>

lemma lf_exec_two_pops:
  "\<exists>s. lf_exec two_pops s \<and> pcs s = (\<lambda>_. Idle)(0 := PopRead (Combine (GetStamp 0 + 1) 16) 1,
      2 := PopDone 16 7) \<and> heap s = [16 \<mapsto> \<lparr>node_data = 7, node_next = 0\<rparr>] \<and>
     GetPtr (m_pTop s) = 0 \<and> cnt s = 2"
proof -
  let ?n = "\<lparr>node_data = 7 :: nat, node_next = 0\<rparr>"
  define T :: "64 word" where "T = Combine (GetStamp 0 + 1) 16"
  have T: "GetPtr T = 16" by (simp add: T_def)
  define st where "st f = \<lparr>m_pTop = T, heap = [16 \<mapsto> ?n], pcs = f, cnt = 1\<rparr>" for f
  define f where "f p q = (\<lambda>_ :: nat. Idle :: nat pc)(0 := p, 2 := q)" for p q
  have pcs_f: "f p q 0 = p" "f p q 2 = q" "(f p q)(0 := p') = f p' q" "(f p q)(2 := q') = f p q'"
      "(\<lambda>_. Idle) = f Idle Idle" for p q p' q'
    by (auto simp: f_def fun_eq_iff)
  have fresh: "fresh_loads (st (f p q))" for p q by (rule fresh_small) (simp add: st_def)
  have 3: "lf_exec [Tau, Tau, EvPush 7] (st (f Idle Idle))"
    using lf_exec_push by (simp add: st_def T_def pcs_f(5))
  have 4: "lf_exec ([Tau, Tau, EvPush 7] @ [Tau]) (st (f PopLoop Idle))"
    using exec_step [OF 3 fresh pop_call [of _ 0]] by (simp add: st_def pcs_f)
  have 5: "lf_exec ([Tau, Tau, EvPush 7, Tau] @ [Tau]) (st (f (PopRead T 1) Idle))"
    using exec_step [OF 4 fresh pop_load [of _ 0]] T by (simp add: st_def pcs_f)
  have 6: "lf_exec ([Tau, Tau, EvPush 7, Tau, Tau] @ [Tau]) (st (f (PopRead T 1) PopLoop))"
    using exec_step [OF 5 fresh pop_call [of _ 2]] by (simp add: st_def pcs_f)
  have 7: "lf_exec ([Tau, Tau, EvPush 7, Tau, Tau, Tau] @ [Tau]) (st (f (PopRead T 1) (PopRead T 1)))"
    using exec_step [OF 6 fresh pop_load [of _ 2]] T by (simp add: st_def pcs_f)
  have 8: "lf_exec ([Tau, Tau, EvPush 7, Tau, Tau, Tau, Tau] @ [Tau])
      (st (f (PopRead T 1) (PopCas T 0 1)))"
    using exec_step [OF 7 fresh pop_read [of _ 2 T 1 0]] T by (simp add: st_def pcs_f)
  have 9: "lf_exec two_pops ((st (f (PopRead T 1) (PopDone 16 7)))
      \<lparr>m_pTop := Combine (GetStamp T + 1) 0, cnt := Suc 1\<rparr>)"
    using exec_step [OF 8 fresh pop_cas_ok [of _ 2 T 0 1 ?n]] T
    by (simp add: st_def pcs_f two_pops_def)
  show ?thesis
    by (rule exI, rule conjI, rule 9) (simp add: st_def f_def T_def)
qed

theorem lf_linearizable_witness:
  "\<exists>s xs. lf_exec [Tau, Tau, EvPush (7 :: nat)] s \<and> stack_of s xs \<and>
     stack_run [] [Tau, Tau, EvPush (7 :: nat)] = Some xs \<and> xs = [7]"
  using lf_linearizable [OF lf_exec_push] lf_exec_push by (auto simp: stack_push_def)

text \<open>
  C34: memory safety of the node accesses other than \<open>oldPtr->next\<close>. In every such execution a
  thread that is about to copy \<open>temp->data\<close> and delete \<open>temp\<close> still owns a live node holding the
  value its pop linearised with (so no node is deleted twice and no pop returns another value),
  a thread inside \<open>Push\<close> writes to a live node that no other thread can reach, and an exchange of
  \<open>Pop\<close> that is about to succeed names a live node whose link is the value it installs.
\<close>

theorem lf_node_safety:
  assumes "lf_exec es s"
  shows "(\<forall>t a d. pcs s t = PopDone a d \<longrightarrow> (\<exists>nd. heap s a = Some nd \<and> node_data nd = d)) \<and>
     (\<forall>t a old c. pcs s t = PushLoop a \<or> pcs s t = PushCas a old c \<longrightarrow>
        heap s a \<noteq> None \<and> (\<forall>u. u \<noteq> t \<longrightarrow> a \<notin> own (pcs s u))) \<and>
     (\<forall>t old nxt c. fresh_loads s \<and> pcs s t = PopCas old nxt c \<and> m_pTop s = old \<longrightarrow>
        (\<exists>nd. heap s (GetPtr old) = Some nd \<and> node_next nd = nxt))"
proof -
  obtain as where inv: "lf_inv s as" using assms by (rule lf_exec_inv)
  have ok: "pc_ok s (pcs s t)" for t using inv by (simp add: lf_inv_def)
  have disj: "t \<noteq> u \<Longrightarrow> own (pcs s t) \<inter> own (pcs s u) = {}" for t u using inv by (simp add: lf_inv_def)
  have pop: "\<exists>nd. heap s (GetPtr old) = Some nd \<and> node_next nd = nxt"
    if "fresh_loads s" "pcs s t = PopCas old nxt c" "m_pTop s = old" for t old nxt c
  proof -
    have "c = cnt s"
      using that ok [of t] inv fresh_loads_pop [OF that(1,2)]
      by (intro cas_succeeds [of s old c]) (auto simp: lf_inv_def)
    with that ok [of t] inv show ?thesis by (cases as) (auto simp: lf_inv_def)
  qed
  have fin: "\<exists>nd. heap s a = Some nd \<and> node_data nd = d" if "pcs s t = PopDone a d" for t a d
    using ok [of t] that by simp
  have push: "heap s a \<noteq> None" "u \<noteq> t \<Longrightarrow> a \<notin> own (pcs s u)"
    if "pcs s t = PushLoop a \<or> pcs s t = PushCas a old c" for t a old c u
    using ok [of t] disj [of t u] that by auto
  show ?thesis using pop fin push by blast
qed

theorem lf_node_safety_witness:
  "\<exists>es s. lf_exec es s \<and> pcs s (2 :: nat) = PopDone 16 (7 :: nat) \<and>
     (\<exists>nd. heap s 16 = Some nd \<and> node_data nd = 7)"
proof -
  obtain s where s: "lf_exec two_pops s" "pcs s 2 = PopDone 16 (7 :: nat)" using lf_exec_two_pops by auto
  have "\<exists>nd. heap s 16 = Some nd \<and> node_data nd = 7"
    using lf_node_safety [OF s(1)] s(2) by blast
  with s show ?thesis by blast
qed

text \<open>
  C35: lock freedom. When a compare-exchange of \<open>Push\<close> or \<open>Pop\<close> fails, another exchange has
  succeeded since this thread loaded \<open>m_pTop\<close>: a retry is always paid for by somebody's progress.
\<close>

theorem lf_lock_free:
  assumes "lf_exec es s" and "pcs s t = PushCas a old c \<or> pcs s t = PopCas old nxt c"
    and "m_pTop s \<noteq> old"
  shows "c < cnt s"
proof -
  obtain as where "lf_inv s as" using assms(1) by (rule lf_exec_inv)
  then have "pc_ok s (pcs s t)" by (simp add: lf_inv_def)
  with assms(2,3) have "load_ok s old c \<and> m_pTop s \<noteq> old" by auto
  then show ?thesis by (auto simp: load_ok_def le_less)
qed

theorem lf_lock_free_witness:
  "\<exists>es s. lf_exec es (s :: nat lfs) \<and> cnt s = 2 \<and>
     pcs s 0 = PopCas (Combine (GetStamp 0 + 1) 16) 0 1 \<and>
     m_pTop s \<noteq> Combine (GetStamp 0 + 1) 16 \<and> (1 :: nat) < cnt s"
proof -
  let ?T = "Combine (GetStamp 0 + 1) 16"
  obtain s where s: "lf_exec two_pops s" "pcs s = (\<lambda>_. Idle)(0 := PopRead ?T 1, 2 := PopDone 16 7)"
      "heap s = [16 \<mapsto> \<lparr>node_data = 7, node_next = 0\<rparr>]" "GetPtr (m_pTop s) = 0" "cnt s = 2"
    using lf_exec_two_pops by auto
  have "fresh_loads s" using s by (simp add: fresh_small)
  from exec_step [OF s(1) this pop_read [of s 0 ?T 1 0]] s(2,3)
  have e: "lf_exec (two_pops @ [Tau]) (s\<lparr>pcs := (pcs s)(0 := PopCas ?T 0 1)\<rparr>)" by simp
  have "GetPtr ?T = 16" by simp
  with s(4) have top: "m_pTop s \<noteq> ?T" by auto
  have "(1 :: nat) < cnt s"
    using lf_lock_free [OF e, of 0 0 ?T 1 0] top by simp
  with e top s(5) show ?thesis
    by (intro exI [of _ "two_pops @ [Tau]"] exI [of _ "s\<lparr>pcs := (pcs s)(0 := PopCas ?T 0 1)\<rparr>"]) auto
qed

text \<open>
  C36: the read of \<open>oldPtr->next\<close> in \<open>Pop\<close> is a use after free. There is an execution in which a
  thread is about to read the link of a node that another thread has already deleted. (The stamp
  makes the following exchange fail, so the value read is never used, but the read itself touches
  freed memory.)
\<close>

theorem lf_pop_reads_freed_node:
  "\<exists>es s t old c. lf_exec es (s :: nat lfs) \<and> pcs s t = PopRead old c \<and> heap s (GetPtr old) = None"
proof -
  obtain s where s: "lf_exec two_pops s"
      "pcs s = (\<lambda>_. Idle)(0 := PopRead (Combine (GetStamp 0 + 1) 16) 1, 2 := PopDone 16 7)"
      "cnt s = 2"
    using lf_exec_two_pops by auto
  have "fresh_loads s" using s by (simp add: fresh_small)
  from exec_step [OF s(1) this pop_delete [of s 2 16 7]] s(2)
  have "lf_exec (two_pops @ [Tau]) (s\<lparr>heap := (heap s)(16 := None), pcs := (pcs s)(2 := Idle)\<rparr>)"
    by simp
  moreover have "pcs (s\<lparr>heap := (heap s)(16 := None), pcs := (pcs s)(2 := Idle)\<rparr>) 0
      = PopRead (Combine (GetStamp 0 + 1) 16) 1"
    using s(2) by simp
  ultimately show ?thesis by (intro exI conjI) (assumption+, simp)
qed

interpretation atomic_pool: pool_spec "\<lambda>_. True" mset stack_push stack_pop
  by unfold_locales (auto simp: stack_push_def stack_pop_def split: list.splits)

end
