(* ===== verification/Packet.thy ===== *)
theory Packet
  imports Interfaces LockFreeStack
begin

text \<open>
  \<open>CPacket\<close>: the serialisation buffer, the encrypted wire frame and the reference-counted packet
  pool of \<open>CPacket.h\<close> and \<open>CPacket.cpp\<close>. OpenSSL is a parameter: what \<open>EVP_EncryptUpdate\<close>,
  \<open>EVP_DecryptUpdate\<close> (AES-128-CTR) and HMAC-SHA256 compute are arguments of the definitions.
\<close>

section \<open>Layout\<close>

definition PACKET_BUFFER_SIZE :: int where "PACKET_BUFFER_SIZE = 4096"
definition PKT_NONCE_OFFSET :: int where "PKT_NONCE_OFFSET = 2"
definition PKT_NONCE_SIZE :: int where "PKT_NONCE_SIZE = 12"
definition PKT_MAC_OFFSET :: int where "PKT_MAC_OFFSET = 14"
definition PKT_MAC_SIZE :: int where "PKT_MAC_SIZE = 16"
definition PKT_MAC_FULL_SIZE :: int where "PKT_MAC_FULL_SIZE = 32"
definition PKT_HEADER_SIZE :: int where "PKT_HEADER_SIZE = 30"

lemmas packet_layout = PACKET_BUFFER_SIZE_def PKT_NONCE_OFFSET_def PKT_NONCE_SIZE_def
  PKT_MAC_OFFSET_def PKT_MAC_SIZE_def PKT_MAC_FULL_SIZE_def PKT_HEADER_SIZE_def

definition PKT_AES_KEY :: bytes where
  "PKT_AES_KEY = [0x2B, 0x7E, 0x15, 0x16, 0x28, 0xAE, 0xD2, 0xA6,
     0xAB, 0xF7, 0x15, 0x88, 0x09, 0xCF, 0x4F, 0x3C]"

definition PKT_MAC_KEY :: bytes where
  "PKT_MAC_KEY = [0xA1, 0xB2, 0xC3, 0xD4, 0xE5, 0xF6, 0x07, 0x18,
     0x29, 0x3A, 0x4B, 0x5C, 0x6D, 0x7E, 0x8F, 0x90,
     0xAA, 0xBB, 0xCC, 0xDD, 0xEE, 0xFF, 0x11, 0x22,
     0x33, 0x44, 0x55, 0x66, 0x77, 0x88, 0x99, 0x00]"

section \<open>OpenSSL\<close>

record ossl =
  evp_encrypt :: "bytes \<Rightarrow> bytes \<Rightarrow> bytes \<Rightarrow> bytes"    \<comment> \<open>key, iv, plain text\<close>
  evp_decrypt :: "bytes \<Rightarrow> bytes \<Rightarrow> bytes \<Rightarrow> bytes"    \<comment> \<open>key, iv, cipher text\<close>
  hmac_sha256 :: "bytes \<Rightarrow> bytes \<Rightarrow> bytes"             \<comment> \<open>key, message\<close>

text \<open>
  What the code relies on: counter mode keeps the length and decryption undoes encryption under the
  same key and initial vector; the digest has 32 bytes.
\<close>

definition ossl_ok :: "ossl \<Rightarrow> bool" where
  "ossl_ok E \<longleftrightarrow> (\<forall>k iv m. length (evp_encrypt E k iv m) = length m) \<and>
     (\<forall>k iv m. length (evp_decrypt E k iv m) = length m) \<and>
     (\<forall>k iv m. evp_decrypt E k iv (evp_encrypt E k iv m) = m) \<and>
     (\<forall>k m. length (hmac_sha256 E k m) = 32)"

section \<open>\<open>Encode\<close> and \<open>Decode\<close>\<close>

text \<open>
  \<open>nonce\<close> is what \<open>RAND_bytes\<close> leaves in the nonce field. \<open>plain\<close> may be the payload part of the
  same array as \<open>out\<close>: it is read before anything is written to that part.
\<close>

definition Encode :: "ossl \<Rightarrow> bytes \<Rightarrow> bytes \<Rightarrow> int \<Rightarrow> bytes \<Rightarrow> (int \<times> bytes) option" where
  "Encode E nonce plain plainLen out = do {
     out \<leftarrow> memcpy out PKT_NONCE_OFFSET nonce 0 PKT_NONCE_SIZE;
     iv \<leftarrow> memcpy (replicate 16 0) 0 out PKT_NONCE_OFFSET PKT_NONCE_SIZE;
     p \<leftarrow> mem_read plain 0 plainLen;
     out \<leftarrow> memcpy out PKT_HEADER_SIZE (evp_encrypt E PKT_AES_KEY iv p) 0 plainLen;
     out \<leftarrow> memcpy out 0 (word_to_le 2 (word_of_int plainLen :: WORD)) 0 2;
     m1 \<leftarrow> mem_read out 0 PKT_MAC_OFFSET;
     m2 \<leftarrow> mem_read out PKT_HEADER_SIZE plainLen;
     out \<leftarrow> memcpy out PKT_MAC_OFFSET (hmac_sha256 E PKT_MAC_KEY (m1 @ m2)) 0 PKT_MAC_SIZE;
     Some (PKT_HEADER_SIZE + plainLen, out) }"

text \<open>\<open>inLen\<close> is not used by the code: the length comes from the frame itself.\<close>

definition Decode :: "ossl \<Rightarrow> bytes \<Rightarrow> int \<Rightarrow> bytes \<Rightarrow> (int \<times> bytes) option" where
  "Decode E inp inLen outPlain = do {
     lb \<leftarrow> mem_read inp 0 2;
     let len = uint (le_to_word lb :: WORD);
     m1 \<leftarrow> mem_read inp 0 PKT_MAC_OFFSET;
     m2 \<leftarrow> mem_read inp PKT_HEADER_SIZE len;
     recvMac \<leftarrow> mem_read inp PKT_MAC_OFFSET PKT_MAC_SIZE;
     calcMac \<leftarrow> mem_read (hmac_sha256 E PKT_MAC_KEY (m1 @ m2)) 0 PKT_MAC_SIZE;
     if recvMac \<noteq> calcMac then Some (- 1, outPlain)
     else do {
       iv \<leftarrow> memcpy (replicate 16 0) 0 inp PKT_NONCE_OFFSET PKT_NONCE_SIZE;
       outPlain \<leftarrow> memcpy outPlain 0 (evp_decrypt E PKT_AES_KEY iv m2) 0 len;
       Some (len, outPlain) } }"

section \<open>The packet object\<close>

record CPacket =
  m_pBuffer :: bytes
  readPos :: int
  writePos :: int
  refCount :: int

definition CPacket_new :: CPacket where
  "CPacket_new = \<lparr>m_pBuffer = replicate (nat PACKET_BUFFER_SIZE) 0,
     readPos = PKT_HEADER_SIZE, writePos = PKT_HEADER_SIZE, refCount = 0\<rparr>"

definition ReadPacket :: "CPacket \<Rightarrow> bytes \<Rightarrow> int \<Rightarrow> (CPacket \<times> bytes) option" where
  "ReadPacket p dest len =
     (if readPos p + len \<le> writePos p
      then do { d \<leftarrow> memcpy dest 0 (m_pBuffer p) (readPos p) len;
                Some (p\<lparr>readPos := readPos p + len\<rparr>, d) }
      else Some (p, dest))"

definition WritePacket :: "CPacket \<Rightarrow> bytes \<Rightarrow> int \<Rightarrow> CPacket option" where
  "WritePacket p src len =
     (if writePos p + len \<le> PACKET_BUFFER_SIZE
      then do { b \<leftarrow> memcpy (m_pBuffer p) (writePos p) src 0 len;
                Some (p\<lparr>m_pBuffer := b, writePos := writePos p + len\<rparr>) }
      else Some p)"

definition packet_Clear :: "CPacket \<Rightarrow> CPacket" where
  "packet_Clear p = p\<lparr>readPos := PKT_HEADER_SIZE, writePos := PKT_HEADER_SIZE\<rparr>"

definition GetDataSize :: "CPacket \<Rightarrow> int" where
  "GetDataSize p = writePos p - readPos p"

definition GetPacketSize :: "CPacket \<Rightarrow> int" where
  "GetPacketSize p = writePos p"

definition AttachRaw :: "CPacket \<Rightarrow> bytes \<Rightarrow> int \<Rightarrow> CPacket option" where
  "AttachRaw p plainBuf plainLen =
     (if plainLen > PACKET_BUFFER_SIZE - PKT_HEADER_SIZE then Some p
      else do { b \<leftarrow> memcpy (m_pBuffer p) PKT_HEADER_SIZE plainBuf 0 plainLen;
                Some (p\<lparr>m_pBuffer := b, readPos := PKT_HEADER_SIZE,
                        writePos := PKT_HEADER_SIZE + plainLen\<rparr>) })"

definition SetHeader :: "ossl \<Rightarrow> bytes \<Rightarrow> CPacket \<Rightarrow> CPacket option" where
  "SetHeader E nonce p = do {
     let plainLen = writePos p - PKT_HEADER_SIZE;
     (r, b) \<leftarrow> Encode E nonce (drop (nat PKT_HEADER_SIZE) (m_pBuffer p)) plainLen (m_pBuffer p);
     Some (p\<lparr>m_pBuffer := b\<rparr>) }"

text \<open>
  \<open>operator<<\<close> and \<open>operator>>\<close>: a value of type \<open>T\<close> is its \<open>sizeof(T)\<close> bytes; when the packet
  has too few bytes left, \<open>operator>>\<close> leaves the target as it was.
\<close>

definition op_put :: "CPacket \<Rightarrow> bytes \<Rightarrow> CPacket option" where
  "op_put p v =
     (if writePos p + int (length v) > PACKET_BUFFER_SIZE then Some p
      else do { b \<leftarrow> memcpy (m_pBuffer p) (writePos p) v 0 (int (length v));
                Some (p\<lparr>m_pBuffer := b, writePos := writePos p + int (length v)\<rparr>) })"

definition op_get :: "CPacket \<Rightarrow> bytes \<Rightarrow> (CPacket \<times> bytes) option" where
  "op_get p v =
     (if readPos p + int (length v) > writePos p then Some (p, v)
      else do { v' \<leftarrow> memcpy v 0 (m_pBuffer p) (readPos p) (int (length v));
                Some (p\<lparr>readPos := readPos p + int (length v)\<rparr>, v') })"

section \<open>The packet pool\<close>

text \<open>
  All packets that were ever created, addressed by their position, and the static pool. A packet is
  never deleted. A null or dangling packet pointer is an address outside the list.
\<close>

record pkt_store =
  packets :: "CPacket list"
  pool :: "nat list"

definition Alloc :: "pkt_store \<Rightarrow> nat \<times> pkt_store" where
  "Alloc st = (case stack_pop (pool st) of
       Some (p, ps) \<Rightarrow> (p, st\<lparr>pool := ps,
         packets := (packets st)[p := (packet_Clear (packets st ! p))\<lparr>refCount := 1\<rparr>]\<rparr>)
     | None \<Rightarrow> (length (packets st),
         st\<lparr>packets := packets st @ [CPacket_new\<lparr>refCount := 1\<rparr>]\<rparr>))"

definition AddRef :: "nat \<Rightarrow> pkt_store \<Rightarrow> pkt_store option" where
  "AddRef p st = (if p < length (packets st)
     then Some (st\<lparr>packets := (packets st)[p := (packets st ! p)\<lparr>refCount := refCount (packets st ! p) + 1\<rparr>]\<rparr>)
     else None)"

definition Release :: "nat \<Rightarrow> pkt_store \<Rightarrow> pkt_store option" where
  "Release p st = (if p < length (packets st)
     then let k = refCount (packets st ! p) - 1;
              st' = st\<lparr>packets := (packets st)[p := (packets st ! p)\<lparr>refCount := k\<rparr>]\<rparr>
          in Some (if k = 0 then st'\<lparr>pool := stack_push p (pool st')\<rparr> else st')
     else None)"

text \<open>Running an operation of \<open>CPacket\<close> on the packet a pointer names.\<close>

definition on_packet :: "nat \<Rightarrow> (CPacket \<Rightarrow> CPacket option) \<Rightarrow> pkt_store \<Rightarrow> pkt_store option" where
  "on_packet p f st = (if p < length (packets st)
     then do { q \<leftarrow> f (packets st ! p); Some (st\<lparr>packets := (packets st)[p := q]\<rparr>) }
     else None)"

section \<open>The wire format\<close>

text \<open>
  The abstract frame: length, nonce, truncated tag over length, nonce and cipher text, cipher text.
\<close>

definition frame_iv :: "bytes \<Rightarrow> bytes" where
  "frame_iv nonce = nonce @ replicate 4 0"

definition frame_head :: "bytes \<Rightarrow> bytes \<Rightarrow> bytes" where
  "frame_head nonce m = word_to_le 2 (of_nat (length m) :: WORD) @ nonce"

definition frame_tag :: "ossl \<Rightarrow> bytes \<Rightarrow> bytes" where
  "frame_tag E msg = take 16 (hmac_sha256 E PKT_MAC_KEY msg)"

definition frame :: "ossl \<Rightarrow> bytes \<Rightarrow> bytes \<Rightarrow> bytes" where
  "frame E nonce m = (let c = evp_encrypt E PKT_AES_KEY (frame_iv nonce) m; h = frame_head nonce m
     in h @ frame_tag E (h @ c) @ c)"

text \<open>The length field of a byte sequence that starts with a frame header.\<close>

definition frame_len :: "bytes \<Rightarrow> nat" where
  "frame_len bs = unat (le_to_word (take 2 bs) :: WORD)"

text \<open>Whether the tag of a complete frame is right, and the plain text it carries.\<close>

definition frame_valid :: "ossl \<Rightarrow> bytes \<Rightarrow> bool" where
  "frame_valid E bs \<longleftrightarrow>
     take 16 (drop 14 bs) = frame_tag E (take 14 bs @ take (frame_len bs) (drop 30 bs))"

definition frame_plain :: "ossl \<Rightarrow> bytes \<Rightarrow> bytes" where
  "frame_plain E bs = evp_decrypt E PKT_AES_KEY (frame_iv (take 12 (drop 2 bs)))
     (take (frame_len bs) (drop 30 bs))"

lemma seg_take_drop: "0 \<le> off \<Longrightarrow> 0 \<le> n \<Longrightarrow> seg off n xs = take (nat n) (drop (nat off) xs)"
  by (simp add: seg_def)

lemma length_frame:
  "ossl_ok E \<Longrightarrow> length nonce = 12 \<Longrightarrow> length (frame E nonce m) = 30 + length m"
  by (simp add: frame_def frame_head_def frame_tag_def ossl_ok_def Let_def)

lemma frame_len_less: "frame_len bs < 65536"
proof -
  have "unat (le_to_word (take 2 bs) :: WORD) < 2 ^ LENGTH(16)" by (rule unsigned_less)
  then show ?thesis by (simp add: frame_len_def)
qed

lemma frame_len_frame:
  assumes "length m < 65536"
  shows "frame_len (frame E nonce m @ rest) = length m"
proof -
  have "take 2 (frame E nonce m @ rest) = word_to_le 2 (of_nat (length m) :: WORD)"
    by (simp add: frame_def frame_head_def Let_def)
  then have "le_to_word (take 2 (frame E nonce m @ rest)) = (of_nat (length m) :: WORD)"
    by simp
  with assms show ?thesis by (simp add: frame_len_def unat_of_nat take_bit_nat_eq_self)
qed

lemma frame_fields:
  assumes "ossl_ok E" and "length nonce = 12" and "length m < 65536"
    and f: "f = frame E nonce m @ rest"
  shows "take 14 f = frame_head nonce m"
    and "take 16 (drop 14 f) = frame_tag E (frame_head nonce m @
           evp_encrypt E PKT_AES_KEY (frame_iv nonce) m)"
    and "take (length m) (drop 30 f) = evp_encrypt E PKT_AES_KEY (frame_iv nonce) m"
    and "take 12 (drop 2 f) = nonce"
  using assms by (simp_all add: frame_def frame_head_def frame_tag_def ossl_ok_def Let_def)

lemma frame_valid_frame:
  assumes "ossl_ok E" and "length nonce = 12" and "length m < 65536"
  shows "frame_valid E (frame E nonce m @ rest)" and "frame_plain E (frame E nonce m @ rest) = m"
  using frame_fields [OF assms refl, of rest] assms(1)
  by (simp_all add: frame_valid_def frame_plain_def frame_len_frame [OF assms(3)] ossl_ok_def)

lemma Encode_frame:
  assumes E: "ossl_ok E" and nonce: "length nonce = 12"
    and n: "0 \<le> n" "n \<le> int (length plain)" "30 + n \<le> int (length out)"
  shows "Encode E nonce plain n out =
     Some (30 + n, frame E nonce (take (nat n) plain) @ drop (30 + nat n) out)"
proof -
  obtain k where k: "n = int k" using n by (metis nonneg_int_cases)
  let ?m = "take k plain"
  let ?c = "evp_encrypt E PKT_AES_KEY (frame_iv nonce) ?m"
  have lens: "length ?m = k" "length ?c = k" "length (hmac_sha256 E PKT_MAC_KEY x) = 32" for x
    using E n k by (auto simp: ossl_ok_def)
  obtain o1 where o1: "memcpy out 2 nonce 0 12 = Some o1" "o1 = take 2 out @ nonce @ drop 14 out"
    using n k nonce by (simp add: memcpy_def seg_def)
  have l1: "length o1 = length out" using o1 n k nonce by simp
  have iv: "memcpy (replicate 16 0) 0 o1 2 12 = Some (frame_iv nonce)"
    using o1(2) n k nonce by (simp add: memcpy_def seg_def frame_iv_def)
  obtain o2 where o2: "memcpy o1 30 ?c 0 n = Some o2" "o2 = take 30 o1 @ ?c @ drop (30 + k) o1"
    using n k lens l1 by (simp add: memcpy_def seg_def nat_add_distrib)
  have l2: "length o2 = length out" using o2 lens l1 n k by simp
  obtain o3 where o3: "memcpy o2 0 (word_to_le 2 (word_of_int n :: WORD)) 0 2 = Some o3"
      "o3 = word_to_le 2 (of_nat k :: WORD) @ drop 2 o2"
    using n k l2 by (simp add: memcpy_def seg_def)
  have l3: "length o3 = length out" using o3 l2 n k by simp
  have h: "take 14 o3 = frame_head nonce ?m" and c: "take k (drop 30 o3) = ?c"
    and d: "drop (30 + k) o3 = drop (30 + k) out"
    using o3 o2 o1 nonce n k lens by (auto simp: frame_head_def)
  have m12: "mem_read o3 0 14 = Some (frame_head nonce ?m)" "mem_read o3 30 n = Some ?c"
    using h c l3 n k by (auto simp: mem_read_def seg_def)
  let ?t = "hmac_sha256 E PKT_MAC_KEY (frame_head nonce ?m @ ?c)"
  have o4: "memcpy o3 14 ?t 0 16 = Some (take 14 o3 @ take 16 ?t @ drop 30 o3)"
    using l3 n k lens by (simp add: memcpy_def seg_def)
  have "drop 30 o3 = ?c @ drop (30 + k) out"
    using c d by (metis append_take_drop_id drop_drop add.commute)
  then have fr: "take 14 o3 @ take 16 ?t @ drop 30 o3 = frame E nonce ?m @ drop (30 + k) out"
    using h by (simp add: frame_def frame_tag_def Let_def)
  have rd: "mem_read plain 0 n = Some ?m" using n k by (simp add: mem_read_def seg_def)
  have "Encode E nonce plain n out = Some (30 + n, frame E nonce ?m @ drop (30 + k) out)"
    unfolding Encode_def packet_layout
    by (simp only: o1(1) iv rd o2(1) o3(1) m12 o4 fr Option.bind.bind_lunit)
  with k show ?thesis by simp
qed

lemma Decode_eq:
  assumes E: "ossl_ok E" and n: "30 + frame_len inp \<le> length inp" "frame_len inp \<le> length out"
  shows "Decode E inp k out =
     (if frame_valid E inp
      then Some (int (frame_len inp), frame_plain E inp @ drop (frame_len inp) out)
      else Some (- 1, out))"
proof -
  let ?n = "frame_len inp" and ?c = "take (frame_len inp) (drop 30 inp)"
  have lens: "length (hmac_sha256 E PKT_MAC_KEY x) = 32" "length (evp_decrypt E PKT_AES_KEY iv ?c) = ?n"
    for x iv using E n by (auto simp: ossl_ok_def)
  have len: "uint (le_to_word (seg 0 2 inp) :: WORD) = int ?n"
    by (simp add: frame_len_def seg_def)
  have "memcpy (replicate 16 0) 0 inp 2 12 = Some (frame_iv (take 12 (drop 2 inp)))"
    using n by (simp add: memcpy_def seg_def frame_iv_def)
  with n lens len show ?thesis
    by (simp add: Decode_def packet_layout mem_read_def Let_def frame_valid_def frame_tag_def
          frame_plain_def memcpy_def seg_def)
qed

lemma Decode_frame:
  assumes "ossl_ok E" and "length nonce = 12" and "length m < 65536" and "length m \<le> length out"
  shows "Decode E (frame E nonce m @ rest) k out = Some (int (length m), m @ drop (length m) out)"
  using Decode_eq [of E "frame E nonce m @ rest" out k] frame_valid_frame [OF assms(1-3)] assms
  by (simp add: frame_len_frame length_frame)

section \<open>Serialisation\<close>

definition packet_wf :: "CPacket \<Rightarrow> bool" where
  "packet_wf p \<longleftrightarrow> length (m_pBuffer p) = 4096 \<and> 30 \<le> readPos p \<and> readPos p \<le> writePos p \<and>
     writePos p \<le> 4096"

text \<open>What was written so far, what is still to be read, what would go on the wire.\<close>

definition payload :: "CPacket \<Rightarrow> bytes" where
  "payload p = seg 30 (writePos p - 30) (m_pBuffer p)"

definition unread :: "CPacket \<Rightarrow> bytes" where
  "unread p = seg (readPos p) (writePos p - readPos p) (m_pBuffer p)"

definition wire :: "CPacket \<Rightarrow> bytes" where
  "wire p = take (nat (writePos p)) (m_pBuffer p)"

lemma packet_wf_new [simp]: "packet_wf CPacket_new" "payload CPacket_new = []" "unread CPacket_new = []"
  by (simp_all add: packet_wf_def CPacket_new_def packet_layout payload_def unread_def)

lemma packet_refCount [simp]:
  "packet_wf (p\<lparr>refCount := k\<rparr>) = packet_wf p" "payload (p\<lparr>refCount := k\<rparr>) = payload p"
  "unread (p\<lparr>refCount := k\<rparr>) = unread p" "wire (p\<lparr>refCount := k\<rparr>) = wire p"
  by (simp_all add: packet_wf_def payload_def unread_def wire_def)

lemma packet_Clear_wf [simp]:
  "packet_wf p \<Longrightarrow> packet_wf (packet_Clear p)" "payload (packet_Clear p) = []"
  "unread (packet_Clear p) = []"
  by (simp_all add: packet_wf_def packet_Clear_def packet_layout payload_def unread_def)

lemma length_payload: "packet_wf p \<Longrightarrow> int (length (payload p)) = writePos p - 30"
  by (auto simp: packet_wf_def payload_def)

lemma length_unread: "packet_wf p \<Longrightarrow> int (length (unread p)) = writePos p - readPos p"
  by (auto simp: packet_wf_def unread_def)

text \<open>Appending \<open>v\<close> at the write position, the effect of \<open>WritePacket\<close> and \<open>operator<<\<close>.\<close>

definition put_bytes :: "CPacket \<Rightarrow> bytes \<Rightarrow> CPacket" where
  "put_bytes p v = p\<lparr>m_pBuffer := take (nat (writePos p)) (m_pBuffer p) @ v @
       drop (nat (writePos p) + length v) (m_pBuffer p), writePos := writePos p + int (length v)\<rparr>"

lemma put_bytes_ok:
  assumes "packet_wf p" and "writePos p + int (length v) \<le> 4096"
  shows "packet_wf (put_bytes p v)" and "payload (put_bytes p v) = payload p @ v"
    and "readPos (put_bytes p v) = readPos p" and "refCount (put_bytes p v) = refCount p"
proof -
  obtain w where w: "writePos p = int w" using assms by (metis packet_wf_def nonneg_int_cases
        order_trans zero_le_numeral)
  show "packet_wf (put_bytes p v)" "readPos (put_bytes p v) = readPos p"
      "refCount (put_bytes p v) = refCount p"
    using assms w by (simp_all add: packet_wf_def put_bytes_def)
  have "30 \<le> w" "w \<le> length (m_pBuffer p)" using assms w by (simp_all add: packet_wf_def)
  then have "take (w + length v - 30) (drop 30 (take w (m_pBuffer p) @ v @ ys))
      = take (w - 30) (drop 30 (m_pBuffer p)) @ v" for ys
    by (simp add: drop_take)
  moreover have "nat (int w + int (length v) - 30) = w + length v - 30" "nat (int w - 30) = w - 30"
    using \<open>30 \<le> w\<close> by simp_all
  moreover have "payload (put_bytes p v) = take (nat (int w + int (length v) - 30))
      (drop 30 (take w (m_pBuffer p) @ v @ drop (w + length v) (m_pBuffer p)))"
    using w by (simp add: payload_def put_bytes_def seg_def)
  moreover have "payload p = take (nat (int w - 30)) (drop 30 (m_pBuffer p))"
    using w by (simp add: payload_def seg_def)
  ultimately show "payload (put_bytes p v) = payload p @ v" by (simp only:)
qed

lemma op_put_eq:
  assumes "packet_wf p" and "writePos p + int (length v) \<le> 4096"
  shows "op_put p v = Some (put_bytes p v)"
  using assms
  by (simp add: op_put_def memcpy_def packet_wf_def put_bytes_def packet_layout seg_all nat_add_distrib)

lemma op_put_full: "packet_wf p \<Longrightarrow> writePos p + int (length v) > 4096 \<Longrightarrow> op_put p v = Some p"
  by (simp add: op_put_def packet_layout)

lemma WritePacket_eq:
  assumes "packet_wf p" and "writePos p + int n \<le> 4096" and "n \<le> length src"
  shows "WritePacket p src (int n) = Some (put_bytes p (take n src))"
  using assms
  by (simp add: WritePacket_def memcpy_def packet_wf_def put_bytes_def packet_layout seg_def nat_add_distrib)

lemma unread_seg:
  assumes "packet_wf p" and "readPos p + int n \<le> writePos p"
  shows "seg (readPos p) (int n) (m_pBuffer p) = take n (unread p)"
    and "unread (p\<lparr>readPos := readPos p + int n\<rparr>) = drop n (unread p)"
    and "packet_wf (p\<lparr>readPos := readPos p + int n\<rparr>)"
proof -
  obtain r w where rw: "readPos p = int r" "writePos p = int w"
    using assms by (metis packet_wf_def nonneg_int_cases order_trans zero_le_numeral)
  then have "n \<le> w - r" "r \<le> w" using assms by (auto simp: packet_wf_def)
  with rw assms show "seg (readPos p) (int n) (m_pBuffer p) = take n (unread p)"
    "unread (p\<lparr>readPos := readPos p + int n\<rparr>) = drop n (unread p)"
    "packet_wf (p\<lparr>readPos := readPos p + int n\<rparr>)"
    by (auto simp: unread_def seg_def drop_take nat_add_distrib nat_diff_distrib packet_wf_def
          min_absorb1 add.commute)
qed

lemma ReadPacket_eq:
  assumes wf: "packet_wf p" and n: "n \<le> length dest"
  shows "ReadPacket p dest (int n) =
     (if n \<le> length (unread p)
      then Some (p\<lparr>readPos := readPos p + int n\<rparr>, take n (unread p) @ drop n dest)
      else Some (p, dest))"
proof -
  have "n \<le> length (unread p) \<longleftrightarrow> readPos p + int n \<le> writePos p"
    using length_unread [OF wf] by linarith
  with wf n unread_seg [OF wf, of n] show ?thesis
    by (auto simp: ReadPacket_def memcpy_def packet_wf_def nat_add_distrib)
qed

lemma op_get_eq:
  assumes wf: "packet_wf p"
  shows "op_get p v =
     (if length v \<le> length (unread p)
      then Some (p\<lparr>readPos := readPos p + int (length v)\<rparr>, take (length v) (unread p))
      else Some (p, v))"
proof -
  have "length v \<le> length (unread p) \<longleftrightarrow> readPos p + int (length v) \<le> writePos p"
    using length_unread [OF wf] by linarith
  with wf unread_seg [OF wf, of "length v"] show ?thesis
    by (auto simp: op_get_def memcpy_def packet_wf_def nat_add_distrib)
qed

lemma AttachRaw_eq:
  assumes wf: "packet_wf p" and n: "n \<le> length plain" "n \<le> 4066"
  obtains q where "AttachRaw p plain (int n) = Some q" "packet_wf q" "unread q = take n plain"
    "payload q = take n plain" "refCount q = refCount p"
proof -
  let ?q = "p\<lparr>m_pBuffer := take 30 (m_pBuffer p) @ take n plain @ drop (30 + n) (m_pBuffer p),
     readPos := 30, writePos := 30 + int n\<rparr>"
  have "AttachRaw p plain (int n) = Some ?q"
    using assms by (simp add: AttachRaw_def memcpy_def packet_wf_def packet_layout seg_def nat_add_distrib)
  moreover have "packet_wf ?q" "unread ?q = take n plain" "payload ?q = take n plain"
    using assms by (simp_all add: packet_wf_def unread_def payload_def seg_def)
  ultimately show thesis by (rule that) simp_all
qed

text \<open>\<open>SetHeader\<close> turns the packet into the frame of its payload.\<close>

lemma SetHeader_ok:
  assumes E: "ossl_ok E" and nonce: "length nonce = 12" and wf: "packet_wf p"
  obtains q where "SetHeader E nonce p = Some q" "packet_wf q" "wire q = frame E nonce (payload p)"
    "refCount q = refCount p"
proof -
  let ?n = "writePos p - 30"
  let ?b = "frame E nonce (payload p) @ drop (30 + nat ?n) (m_pBuffer p)"
  have pl: "take (nat ?n) (drop 30 (m_pBuffer p)) = payload p"
    using wf by (simp add: payload_def seg_def)
  have enc: "Encode E nonce (drop 30 (m_pBuffer p)) ?n (m_pBuffer p) = Some (30 + ?n, ?b)"
    using Encode_frame [OF E nonce, of ?n "drop 30 (m_pBuffer p)" "m_pBuffer p"] wf pl
    by (simp add: packet_wf_def)
  have len: "length (frame E nonce (payload p)) = nat (writePos p)"
    using length_frame [OF E nonce] length_payload [OF wf] by simp
  have "SetHeader E nonce p = Some (p\<lparr>m_pBuffer := ?b\<rparr>)"
    using enc by (simp add: SetHeader_def packet_layout Let_def)
  moreover have "packet_wf (p\<lparr>m_pBuffer := ?b\<rparr>)" using wf len by (auto simp: packet_wf_def)
  moreover have "wire (p\<lparr>m_pBuffer := ?b\<rparr>) = frame E nonce (payload p)" using len by (simp add: wire_def)
  ultimately show thesis by (rule that) simp_all
qed

end
