(* ===== verification/Framing.thy ===== *)
theory Framing
  imports Packet
begin

text \<open>
  The byte stream of a connection as a sequence of frames: the abstract specification that the
  receive path of the server and the receive loop of the client implement. Cutting the stream into
  chunks does not change what is parsed, and a stream of encoded messages parses into the messages.
\<close>

datatype frame_end = NeedMore | Oversize | BadTag

function parse :: "ossl \<Rightarrow> bytes \<Rightarrow> bytes list \<times> frame_end \<times> bytes" where
  "parse E bs =
     (if length bs < 30 then ([], NeedMore, bs)
      else if frame_len bs > 4066 then ([], Oversize, bs)
      else if length bs < 30 + frame_len bs then ([], NeedMore, bs)
      else if \<not> frame_valid E bs then ([], BadTag, drop (30 + frame_len bs) bs)
      else case parse E (drop (30 + frame_len bs) bs) of
        (ms, en, r) \<Rightarrow> (frame_plain E bs # ms, en, r))"
  by pat_completeness auto
termination by (relation "measure (\<lambda>(E, bs). length bs)") auto

declare parse.simps [simp del]

section \<open>A frame is determined by its own bytes\<close>

lemma frame_len_append: "2 \<le> length xs \<Longrightarrow> frame_len (xs @ ys) = frame_len xs"
  by (simp add: frame_len_def)

lemma frame_len_take: "2 \<le> n \<Longrightarrow> frame_len (take n xs) = frame_len xs"
  by (simp add: frame_len_def min_def)

lemma frame_valid_append:
  "30 + frame_len xs \<le> length xs \<Longrightarrow> frame_valid E (xs @ ys) = frame_valid E xs"
  "30 + frame_len xs \<le> length xs \<Longrightarrow> frame_plain E (xs @ ys) = frame_plain E xs"
  by (simp_all add: frame_valid_def frame_plain_def frame_len_append)

lemma frame_take_views:
  assumes "n = 30 + frame_len xs" and "n \<le> length xs"
  shows "frame_len (take n xs @ ys) = frame_len xs"
    and "frame_valid E (take n xs @ ys) = frame_valid E xs"
    and "frame_plain E (take n xs @ ys) = frame_plain E xs"
proof -
  have l: "frame_len (take n xs) = frame_len xs" using assms by (simp add: frame_len_take)
  then show "frame_len (take n xs @ ys) = frame_len xs" using assms by (subst frame_len_append) auto
  have "frame_valid E (take n xs @ ys) = frame_valid E (take n xs)"
      "frame_plain E (take n xs @ ys) = frame_plain E (take n xs)"
    using assms l by (simp_all add: frame_valid_append)
  moreover have "frame_valid E (take n xs @ drop n xs) = frame_valid E (take n xs)"
      "frame_plain E (take n xs @ drop n xs) = frame_plain E (take n xs)"
    using assms l by (simp_all only: frame_valid_append length_take min_absorb2)
  ultimately show "frame_valid E (take n xs @ ys) = frame_valid E xs"
      "frame_plain E (take n xs @ ys) = frame_plain E xs" by simp_all
qed

section \<open>Chunks\<close>

lemma parse_rest_short: "parse E bs = (ms, NeedMore, r) \<Longrightarrow> length r \<le> 4095"
proof (induction E bs arbitrary: ms r rule: parse.induct)
  case (1 E bs)
  show ?case
  proof (cases "length bs < 30 \<or> frame_len bs > 4066 \<or> length bs < 30 + frame_len bs \<or> \<not> frame_valid E bs")
    case True
    with 1(2) show ?thesis by (subst (asm) parse.simps) (auto split: if_splits)
  next
    case False
    with 1(2) obtain ms' where "parse E (drop (30 + frame_len bs) bs) = (ms', NeedMore, r)"
      by (subst (asm) parse.simps) (auto split: prod.splits)
    with 1(1) False show ?thesis by blast
  qed
qed

lemma parse_append:
  "parse E (xs @ ys) = (case parse E xs of (ms, en, r) \<Rightarrow>
     if en = NeedMore then (case parse E (r @ ys) of (ms', en', r') \<Rightarrow> (ms @ ms', en', r'))
     else (ms, en, r @ ys))"
proof (induction E xs rule: parse.induct)
  case (1 E xs)
  let ?n = "30 + frame_len xs"
  consider "length xs < 30 \<or> frame_len xs \<le> 4066 \<and> length xs < ?n"
    | "30 \<le> length xs" "frame_len xs > 4066"
    | "30 \<le> length xs" "frame_len xs \<le> 4066" "?n \<le> length xs" "\<not> frame_valid E xs"
    | "30 \<le> length xs" "frame_len xs \<le> 4066" "?n \<le> length xs" "frame_valid E xs"
    by linarith
  then show ?case
  proof cases
    case 1
    then have "parse E xs = ([], NeedMore, xs)" by (subst parse.simps) auto
    then show ?thesis by (simp split: prod.splits)
  next
    case 2
    then have "frame_len (xs @ ys) = frame_len xs" by (simp add: frame_len_append)
    with 2 show ?thesis by (subst (1 2) parse.simps) simp
  next
    case 3
    then have "frame_len (xs @ ys) = frame_len xs" "frame_valid E (xs @ ys) = frame_valid E xs"
      by (simp_all add: frame_len_append frame_valid_append)
    with 3 show ?thesis by (subst (1 2) parse.simps) simp
  next
    case 4
    then have f: "frame_len (xs @ ys) = frame_len xs" "frame_valid E (xs @ ys)"
        "frame_plain E (xs @ ys) = frame_plain E xs" "drop ?n (xs @ ys) = drop ?n xs @ ys"
      by (simp_all add: frame_len_append frame_valid_append)
    have IH: "parse E (drop ?n xs @ ys) = (case parse E (drop ?n xs) of (ms, en, r) \<Rightarrow>
       if en = NeedMore then (case parse E (r @ ys) of (ms', en', r') \<Rightarrow> (ms @ ms', en', r'))
       else (ms, en, r @ ys))"
      using 1 4 by simp
    obtain ms en r where p: "parse E (drop ?n xs) = (ms, en, r)" by (metis prod_cases3)
    have "parse E xs = (frame_plain E xs # ms, en, r)" using 4 p by (subst parse.simps) simp
    moreover have "parse E (xs @ ys) = (case parse E (drop ?n xs @ ys) of
        (ms, en, r) \<Rightarrow> (frame_plain E xs # ms, en, r))"
      using 4 f by (subst parse.simps) simp
    ultimately show ?thesis using IH p by (simp split: prod.splits)
  qed
qed

section \<open>Encoded messages\<close>

lemma parse_frame:
  assumes "ossl_ok E" and "length nonce = 12" and "length m \<le> 4066"
  shows "parse E (frame E nonce m @ rest) = (case parse E rest of (ms, en, r) \<Rightarrow> (m # ms, en, r))"
proof -
  have m: "length m < 65536" using assms(3) by simp
  have l: "frame_len (frame E nonce m @ rest) = length m" using frame_len_frame [OF m] .
  have "length (frame E nonce m) = 30 + length m" using length_frame [OF assms(1,2)] .
  with frame_valid_frame [OF assms(1,2) m, of rest] assms(3) l show ?thesis
    by (subst parse.simps) simp
qed

lemma parse_frames:
  assumes "ossl_ok E" and "\<forall>(n, m) \<in> set fs. length n = 12 \<and> length m \<le> 4066"
  shows "parse E (concat (map (\<lambda>(n, m). frame E n m) fs) @ rest) =
     (case parse E rest of (ms, en, r) \<Rightarrow> (map snd fs @ ms, en, r))"
  using assms(2)
proof (induction fs)
  case Nil
  then show ?case by (simp split: prod.splits)
next
  case (Cons f fs)
  obtain n m where f: "f = (n, m)" by (cases f)
  with Cons.prems have "length n = 12" "length m \<le> 4066" by auto
  from parse_frame [OF assms(1) this] Cons f show ?case
    by (simp split: prod.splits)
qed

end
