(* ===== verification/Protocol.thy ===== *)
theory Protocol
  imports Prelude
begin

text \<open>
  \<open>Protocol.h\<close>: sizes, packet types, result codes, and the translation of stored-procedure results
  into result codes.
\<close>

definition MAX_NICKNAME_LEN :: int where "MAX_NICKNAME_LEN = 32"
definition MAX_ACCOUNT_LEN :: int where "MAX_ACCOUNT_LEN = 32"
definition MAX_PASSWORD_LEN :: int where "MAX_PASSWORD_LEN = 64"
definition MAX_CHAT_LEN :: int where "MAX_CHAT_LEN = 256"
definition MAX_ROOM_COUNT :: int where "MAX_ROOM_COUNT = 5"
definition INVALID_ROOM_NO :: WORD where "INVALID_ROOM_NO = 0xffff"

lemmas protocol_sizes [simp] = MAX_NICKNAME_LEN_def MAX_ACCOUNT_LEN_def MAX_PASSWORD_LEN_def
  MAX_CHAT_LEN_def MAX_ROOM_COUNT_def

datatype PacketType =
    CS_LOGIN_REQ | CS_ROOM_ENTER_REQ | CS_ROOM_LEAVE_REQ | CS_CHAT_REQ | CS_SIGNUP_REQ
  | SC_LOGIN_RES | SC_ROOM_ENTER_RES | SC_CHAT_RES | SC_USER_JOIN | SC_USER_LEAVE | SC_SIGNUP_RES

fun type_val :: "PacketType \<Rightarrow> WORD" where
  "type_val CS_LOGIN_REQ = 1"
| "type_val CS_ROOM_ENTER_REQ = 2"
| "type_val CS_ROOM_LEAVE_REQ = 3"
| "type_val CS_CHAT_REQ = 4"
| "type_val CS_SIGNUP_REQ = 5"
| "type_val SC_LOGIN_RES = 101"
| "type_val SC_ROOM_ENTER_RES = 102"
| "type_val SC_CHAT_RES = 103"
| "type_val SC_USER_JOIN = 104"
| "type_val SC_USER_LEAVE = 105"
| "type_val SC_SIGNUP_RES = 106"

datatype ResultCode =
    RESULT_SUCCESS | RESULT_FAIL | RESULT_INVALID_NICKNAME | RESULT_INVALID_ROOM
  | RESULT_ALREADY_IN_ROOM | RESULT_NOT_IN_ROOM | RESULT_INVALID_ACCOUNT | RESULT_INVALID_PASSWORD
  | RESULT_DUPLICATE_ACCOUNT | RESULT_DUPLICATE_NICKNAME

fun result_val :: "ResultCode \<Rightarrow> byte" where
  "result_val RESULT_SUCCESS = 0"
| "result_val RESULT_FAIL = 1"
| "result_val RESULT_INVALID_NICKNAME = 2"
| "result_val RESULT_INVALID_ROOM = 3"
| "result_val RESULT_ALREADY_IN_ROOM = 4"
| "result_val RESULT_NOT_IN_ROOM = 5"
| "result_val RESULT_INVALID_ACCOUNT = 6"
| "result_val RESULT_INVALID_PASSWORD = 7"
| "result_val RESULT_DUPLICATE_ACCOUNT = 8"
| "result_val RESULT_DUPLICATE_NICKNAME = 9"

definition MapLoginResult :: "int \<Rightarrow> ResultCode" where
  "MapLoginResult spResult =
     (if spResult = 0 then RESULT_SUCCESS
      else if spResult = 1 then RESULT_INVALID_ACCOUNT
      else if spResult = 2 then RESULT_INVALID_PASSWORD
      else RESULT_FAIL)"

definition MapSignUpResult :: "int \<Rightarrow> ResultCode" where
  "MapSignUpResult spResult =
     (if spResult = 0 then RESULT_SUCCESS
      else if spResult = 1 then RESULT_DUPLICATE_ACCOUNT
      else if spResult = 2 then RESULT_DUPLICATE_NICKNAME
      else RESULT_FAIL)"

lemma type_val_inj: "type_val a = type_val b \<longleftrightarrow> a = b"
  by (cases a; cases b) simp_all

lemma result_val_inj: "result_val a = result_val b \<longleftrightarrow> a = b"
  by (cases a; cases b) simp_all

lemma MapLoginResult_success: "MapLoginResult n = RESULT_SUCCESS \<longleftrightarrow> n = 0"
  by (simp add: MapLoginResult_def)

end
