(* ===== verification/Strings.thy ===== *)
theory Strings
  imports Protocol
begin

text \<open>
  The C strings the sources handle: arrays of \<open>char\<close> (bytes) and of \<open>wchar_t\<close> (16-bit units on
  Windows), the two bounded copy functions of the C runtime, and the object representation of a
  wide array.
\<close>

type_synonym wstr = "WORD list"

text \<open>The units before the terminator; an array without one would be read past its end.\<close>

definition cstr :: "'a::zero list \<Rightarrow> 'a list option" where
  "cstr xs = (if 0 \<in> set xs then Some (takeWhile (\<lambda>c. c \<noteq> 0) xs) else None)"

text \<open>
  \<open>strcpy_s(dest, sizeof dest, src)\<close>: copies up to and including the terminator; a source that does
  not fit goes to the invalid-parameter handler, which ends the program.
\<close>

definition strcpy_s :: "bytes \<Rightarrow> bytes \<Rightarrow> bytes option" where
  "strcpy_s dest src = do {
     t \<leftarrow> cstr src;
     if length t < length dest then Some (t @ [0] @ drop (length t + 1) dest) else None }"

text \<open>\<open>wcsncpy_s(dest, count, src, _TRUNCATE)\<close>: copies what fits and always terminates.\<close>

definition wcsncpy_trunc :: "wstr \<Rightarrow> wstr \<Rightarrow> wstr option" where
  "wcsncpy_trunc dest src = do {
     t \<leftarrow> cstr src;
     let t' = take (length dest - 1) t;
     if dest = [] then None else Some (t' @ [0] @ drop (length t' + 1) dest) }"

definition wbytes :: "wstr \<Rightarrow> bytes" where
  "wbytes ws = concat (map (word_to_le 2) ws)"

fun bwords :: "bytes \<Rightarrow> wstr" where
  "bwords (a # b # bs) = le_to_word [a, b] # bwords bs"
| "bwords bs = []"

lemma length_wbytes [simp]: "length (wbytes ws) = 2 * length ws"
  by (induction ws) (simp_all add: wbytes_def)

lemma wbytes_append [simp]: "wbytes (xs @ ys) = wbytes xs @ wbytes ys"
  by (simp add: wbytes_def)

lemma wbytes_Cons: "wbytes (w # ws) = word_to_le 2 w @ wbytes ws"
  by (simp add: wbytes_def)

lemma length_bwords [simp]: "length (bwords bs) = length bs div 2"
  by (induction bs rule: bwords.induct) simp_all

lemma bwords_word_to_le: "bwords (word_to_le 2 w @ bs) = (w :: WORD) # bwords bs"
proof -
  obtain a b where ab: "word_to_le 2 w = [a, b]"
    by (metis (no_types) length_word_to_le numeral_2_eq_2 length_0_conv length_Suc_conv)
  have "le_to_word (word_to_le 2 w) = w" by simp
  with ab show ?thesis by simp
qed

lemma bwords_wbytes [simp]: "bwords (wbytes ws) = ws"
  by (induction ws) (simp_all add: wbytes_Cons bwords_word_to_le, simp add: wbytes_def)

lemma wbytes_take: "take (2 * n) (wbytes ws) = wbytes (take n ws)"
proof (induction ws arbitrary: n)
  case (Cons w ws)
  then show ?case by (cases n) (simp_all add: wbytes_Cons, simp_all add: wbytes_def)
qed (simp add: wbytes_def)

lemma cstr_append_0: "0 \<notin> set t \<Longrightarrow> cstr (t @ 0 # r) = Some t"
  by (simp add: cstr_def takeWhile_append)

lemma cstr_SomeD: "cstr xs = Some t \<Longrightarrow> 0 \<notin> set t \<and> length t < length xs \<and> take (length t) xs = t"
proof -
  assume a: "cstr xs = Some t"
  then have t: "t = takeWhile (\<lambda>c. c \<noteq> 0) xs" "0 \<in> set xs" by (auto simp: cstr_def split: if_splits)
  have "length t \<noteq> length xs"
    using t by (metis (mono_tags, lifting) set_takeWhileD takeWhile_eq_take take_all order_refl)
  moreover have "length t \<le> length xs" using t length_takeWhile_le by metis
  ultimately show ?thesis using t by (auto simp: takeWhile_eq_take [symmetric] dest: set_takeWhileD)
qed

lemma strcpy_s_ok:
  assumes "cstr src = Some t" and "length t < length dest"
  obtains d where "strcpy_s dest src = Some d" "length d = length dest" "cstr d = Some t"
    "take (length t + 1) d = t @ [0]"
proof (rule that)
  show "strcpy_s dest src = Some (t @ [0] @ drop (length t + 1) dest)" using assms by (simp add: strcpy_s_def)
  have "0 \<notin> set t" using cstr_SomeD [OF assms(1)] by simp
  then show "cstr (t @ [0] @ drop (length t + 1) dest) = Some t" by (simp add: cstr_append_0)
qed (use assms in auto)

lemma wcsncpy_trunc_ok:
  assumes "cstr src = Some t" and "dest \<noteq> []"
  obtains d where "wcsncpy_trunc dest src = Some d" "length d = length dest"
    "cstr d = Some (take (length dest - 1) t)"
proof (rule that)
  let ?t = "take (length dest - 1) t"
  show "wcsncpy_trunc dest src = Some (?t @ [0] @ drop (length ?t + 1) dest)"
    using assms by (simp add: wcsncpy_trunc_def Let_def)
  have "length ?t < length dest" using assms(2) by (cases dest) auto
  then show "length (?t @ [0] @ drop (length ?t + 1) dest) = length dest" by simp
  have "0 \<notin> set ?t" using cstr_SomeD [OF assms(1)] by (meson in_set_takeD)
  then show "cstr (?t @ [0] @ drop (length ?t + 1) dest) = Some ?t" by (simp add: cstr_append_0)
qed

lemma bwords_append: "even (length xs) \<Longrightarrow> bwords (xs @ ys) = bwords xs @ bwords ys"
  by (induction xs rule: bwords.induct) auto

lemma bwords_take: "2 * n \<le> length bs \<Longrightarrow> bwords (take (2 * n) bs) = take n (bwords bs)"
  using bwords_append [of "take (2 * n) bs" "drop (2 * n) bs"] by simp

text \<open>A fixed array of \<open>n\<close> units whose last one is overwritten by a terminator, as a string.\<close>

definition wfield :: "nat \<Rightarrow> bytes \<Rightarrow> wstr" where
  "wfield n bs = takeWhile (\<lambda>c. c \<noteq> 0) (take (n - 1) (bwords bs))"

lemma cstr_cut: "cstr (xs @ 0 # r) = Some (takeWhile (\<lambda>c. c \<noteq> 0) xs)"
  by (simp add: cstr_def) (induction xs, auto)

lemma wfield_cstr:
  assumes "0 < n" and "2 * n \<le> length bs" and "n \<le> length w"
  shows "cstr ((bwords (take (2 * n) bs @ drop (2 * n) (wbytes w)))[n - 1 := 0]) = Some (wfield n bs)"
proof -
  let ?x = "take n (bwords bs)"
  have len: "length ?x = n" using assms by simp
  have "bwords (take (2 * n) bs @ drop (2 * n) (wbytes w)) = ?x @ bwords (drop (2 * n) (wbytes w))"
    using assms by (simp add: bwords_append bwords_take)
  then have "(bwords (take (2 * n) bs @ drop (2 * n) (wbytes w)))[n - 1 := 0] =
      take (n - 1) ?x @ 0 # (drop n ?x @ bwords (drop (2 * n) (wbytes w)))"
    using len assms(1) by (simp add: list_update_append upd_conv_take_nth_drop)
  then show ?thesis by (simp add: cstr_cut wfield_def min_def)
qed

end
