(* ===== verification/Client.thy ===== *)
theory Client
  imports Framing Strings
begin

text \<open>
  The test client \<open>DummyClient.cpp\<close>: its own copy of the packet codec, the request senders, the
  receive loops, the bots of the automatic mode, the tamper test and the interactive commands.
  A socket, the random generator, the clock and the running flag are the environment \<open>cenv\<close>: the
  answer to the \<open>k\<close>-th call the thread makes. The state of a thread is \<open>client\<close>: the global counters,
  what was handed to the current connection, how many sockets are open and what was printed.
\<close>

section \<open>Environment and state\<close>

record cenv =
  c_ossl :: ossl
  c_nonce :: "nat \<Rightarrow> bytes"                        \<comment> \<open>\<open>RAND_bytes\<close>\<close>
  c_stack :: "nat \<Rightarrow> nat \<Rightarrow> bytes"                 \<comment> \<open>an uninitialised local array of the given size\<close>
  c_wstack :: "nat \<Rightarrow> nat \<Rightarrow> wstr"
  c_send :: "nat \<Rightarrow> int \<Rightarrow> int"
  c_select :: "nat \<Rightarrow> int \<Rightarrow> int"                  \<comment> \<open>for a time limit in milliseconds\<close>
  c_recv :: "nat \<Rightarrow> int \<Rightarrow> int \<times> bytes"            \<comment> \<open>the result and the bytes stored\<close>
  c_socket :: "nat \<Rightarrow> bool"
  c_connect :: "nat \<Rightarrow> bool"
  c_rand :: "nat \<Rightarrow> int"
  c_tick :: "nat \<Rightarrow> LONG"                          \<comment> \<open>\<open>GetTickCount\<close>\<close>
  c_running :: "nat \<Rightarrow> bool"                       \<comment> \<open>reading \<open>g_botRunning\<close>\<close>
  c_widen :: "nat \<Rightarrow> bytes \<Rightarrow> wstr \<Rightarrow> wstr"         \<comment> \<open>\<open>MultiByteToWideChar\<close>: text, array before\<close>

text \<open>
  What the client relies on: \<open>send\<close> and \<open>recv\<close> transfer at most what they are asked for, \<open>recv\<close>
  stores as many bytes as it says, \<open>rand\<close> is between 0 and \<open>RAND_MAX\<close>, arrays have their size.
\<close>

definition cenv_ok :: "cenv \<Rightarrow> bool" where
  "cenv_ok e \<longleftrightarrow> ossl_ok (c_ossl e) \<and> (\<forall>k. length (c_nonce e k) = 12) \<and>
     (\<forall>k n. length (c_stack e k n) = n) \<and> (\<forall>k n. length (c_wstack e k n) = n) \<and>
     (\<forall>k n. 0 < n \<longrightarrow> c_send e k n \<le> n) \<and>
     (\<forall>k n. 0 \<le> n \<longrightarrow> (case c_recv e k n of (r, bs) \<Rightarrow> r \<le> n \<and> (0 < r \<longrightarrow> int (length bs) = r))) \<and>
     (\<forall>k. 0 \<le> c_rand e k \<and> c_rand e k \<le> 32767)"

datatype line =
    ChatLine bytes bytes | JoinLine bytes | LeaveLine bytes
  | LoginLine byte LONG wstr | SignUpLine byte LONG | RoomLine byte WORD | UnknownLine WORD
  | MacMismatch | Disconnected | StatLine "LONG list"
  | UsageSignUp | UsageLogin | UnknownCommand | HelpText
  | TamperSilent | TamperDetected int | TamperMissed int

record client =
  g_connectTotal :: LONG
  g_sendChatTotal :: LONG
  g_recvChatTotal :: LONG
  g_recvAnyTotal :: LONG
  g_disconnTotal :: LONG
  g_aliveBotCount :: LONG
  g_loginSuccess :: LONG
  g_loginFail :: LONG
  g_signupSent :: LONG
  g_tamperSent :: LONG
  g_socketErr :: LONG
  g_connectErr :: LONG
  g_cycleErr :: LONG
  g_intRunning :: bool
  outgoing :: bytes
  open_socks :: int
  printed :: "line list"
  calls :: nat

text \<open>The thread made one more call to its environment.\<close>

definition called :: "client \<Rightarrow> client" where
  "called s = s\<lparr>calls := calls s + 1\<rparr>"

definition print_line :: "line \<Rightarrow> client \<Rightarrow> client" where
  "print_line l s = s\<lparr>printed := printed s @ [l]\<rparr>"

section \<open>The client's copy of the codec\<close>

definition client_AES_KEY :: bytes where
  "client_AES_KEY = [0x2B, 0x7E, 0x15, 0x16, 0x28, 0xAE, 0xD2, 0xA6,
     0xAB, 0xF7, 0x15, 0x88, 0x09, 0xCF, 0x4F, 0x3C]"

definition client_MAC_KEY :: bytes where
  "client_MAC_KEY = [0xA1, 0xB2, 0xC3, 0xD4, 0xE5, 0xF6, 0x07, 0x18,
     0x29, 0x3A, 0x4B, 0x5C, 0x6D, 0x7E, 0x8F, 0x90,
     0xAA, 0xBB, 0xCC, 0xDD, 0xEE, 0xFF, 0x11, 0x22,
     0x33, 0x44, 0x55, 0x66, 0x77, 0x88, 0x99, 0x00]"

definition client_Encode :: "ossl \<Rightarrow> bytes \<Rightarrow> bytes \<Rightarrow> int \<Rightarrow> bytes \<Rightarrow> (int \<times> bytes) option" where
  "client_Encode E nonce plain plainLen out = do {
     out \<leftarrow> memcpy out 2 nonce 0 12;
     iv \<leftarrow> memcpy (replicate 16 0) 0 out 2 12;
     p \<leftarrow> mem_read plain 0 plainLen;
     out \<leftarrow> memcpy out 30 (evp_encrypt E client_AES_KEY iv p) 0 plainLen;
     out \<leftarrow> memcpy out 0 (word_to_le 2 (word_of_int plainLen :: WORD)) 0 2;
     m1 \<leftarrow> mem_read out 0 14;
     m2 \<leftarrow> mem_read out 30 plainLen;
     out \<leftarrow> memcpy out 14 (hmac_sha256 E client_MAC_KEY (m1 @ m2)) 0 16;
     Some (30 + plainLen, out) }"

definition client_Decode :: "ossl \<Rightarrow> bytes \<Rightarrow> int \<Rightarrow> bytes \<Rightarrow> (int \<times> bytes) option" where
  "client_Decode E inp inLen outPlain = do {
     lb \<leftarrow> mem_read inp 0 2;
     let len = uint (le_to_word lb :: WORD);
     m1 \<leftarrow> mem_read inp 0 14;
     m2 \<leftarrow> mem_read inp 30 len;
     recvMac \<leftarrow> mem_read inp 14 16;
     calcMac \<leftarrow> mem_read (hmac_sha256 E client_MAC_KEY (m1 @ m2)) 0 16;
     if recvMac \<noteq> calcMac then Some (- 1, outPlain)
     else do {
       iv \<leftarrow> memcpy (replicate 16 0) 0 inp 2 12;
       outPlain \<leftarrow> memcpy outPlain 0 (evp_decrypt E client_AES_KEY iv m2) 0 len;
       Some (len, outPlain) } }"

section \<open>Sending\<close>

text \<open>
  The loop of \<open>SendAll\<close>: every round that continues has sent at least one byte. What \<open>send\<close> took
  goes to the connection.
\<close>

function send_loop :: "cenv \<Rightarrow> bytes \<Rightarrow> int \<Rightarrow> int \<Rightarrow> client \<Rightarrow> (bool \<times> client) option" where
  "send_loop e buf len sent s =
     (if sent < len
      then if c_send e (calls s) (len - sent) \<le> 0 then Some (False, called s)
        else do {
          bs \<leftarrow> mem_read buf sent (c_send e (calls s) (len - sent));
          send_loop e buf len (sent + c_send e (calls s) (len - sent))
            (called s\<lparr>outgoing := outgoing s @ bs\<rparr>) }
      else Some (True, s))"
  by pat_completeness auto
termination by (relation "measure (\<lambda>(e, buf, len, sent, s). nat (len - sent))") auto

declare send_loop.simps [simp del]

definition SendAll :: "cenv \<Rightarrow> bytes \<Rightarrow> int \<Rightarrow> client \<Rightarrow> (bool \<times> client) option" where
  "SendAll e buf len s = send_loop e buf len 0 s"

definition client_SendPacket :: "cenv \<Rightarrow> bytes \<Rightarrow> WORD \<Rightarrow> client \<Rightarrow> (bool \<times> client) option" where
  "client_SendPacket e req payloadLen s =
     (if 30 + uint payloadLen > 1024 then Some (False, s)
      else do {
        (total, buf) \<leftarrow> client_Encode (c_ossl e) (c_nonce e (calls s)) req (uint payloadLen)
          (c_stack e (calls s) 1024);
        SendAll e buf total (called s) })"

text \<open>\<open>wcsncpy_s(p, n, text, _TRUNCATE)\<close> on the \<open>n\<close> units of \<open>payload\<close> from \<open>off\<close> on.\<close>

definition put_text :: "bytes \<Rightarrow> int \<Rightarrow> int \<Rightarrow> wstr \<Rightarrow> bytes option" where
  "put_text req off n text = do {
     old \<leftarrow> mem_read req off (2 * n);
     new \<leftarrow> wcsncpy_trunc (bwords old) text;
     memcpy req off (wbytes new) 0 (2 * n) }"

definition SendLogin :: "cenv \<Rightarrow> wstr \<Rightarrow> wstr \<Rightarrow> client \<Rightarrow> (bool \<times> client) option" where
  "SendLogin e account password s = do {
     let payloadSize = 2 + 2 * MAX_ACCOUNT_LEN + 2 * MAX_PASSWORD_LEN;
     req \<leftarrow> memcpy (replicate (nat payloadSize) 0) 0 (word_to_le 2 (type_val CS_LOGIN_REQ)) 0 2;
     req \<leftarrow> put_text req 2 MAX_ACCOUNT_LEN account;
     req \<leftarrow> put_text req (2 + 2 * MAX_ACCOUNT_LEN) MAX_PASSWORD_LEN password;
     client_SendPacket e req (word_of_int payloadSize) s }"

definition SendSignUp :: "cenv \<Rightarrow> wstr \<Rightarrow> wstr \<Rightarrow> wstr \<Rightarrow> client \<Rightarrow> (bool \<times> client) option" where
  "SendSignUp e account password nickname s = do {
     let payloadSize = 2 + 2 * MAX_ACCOUNT_LEN + 2 * MAX_PASSWORD_LEN + 2 * MAX_NICKNAME_LEN;
     req \<leftarrow> memcpy (replicate (nat payloadSize) 0) 0 (word_to_le 2 (type_val CS_SIGNUP_REQ)) 0 2;
     req \<leftarrow> put_text req 2 MAX_ACCOUNT_LEN account;
     req \<leftarrow> put_text req (2 + 2 * MAX_ACCOUNT_LEN) MAX_PASSWORD_LEN password;
     req \<leftarrow> put_text req (2 + 2 * MAX_ACCOUNT_LEN + 2 * MAX_PASSWORD_LEN) MAX_NICKNAME_LEN nickname;
     client_SendPacket e req (word_of_int payloadSize) s }"

definition SendRoomEnter :: "cenv \<Rightarrow> WORD \<Rightarrow> client \<Rightarrow> (bool \<times> client) option" where
  "SendRoomEnter e roomNo s = do {
     req \<leftarrow> memcpy (replicate 4 0) 0 (word_to_le 2 (type_val CS_ROOM_ENTER_REQ)) 0 2;
     req \<leftarrow> memcpy req 2 (word_to_le 2 roomNo) 0 2;
     client_SendPacket e req 4 s }"

definition SendRoomLeave :: "cenv \<Rightarrow> client \<Rightarrow> (bool \<times> client) option" where
  "SendRoomLeave e s = do {
     req \<leftarrow> memcpy (replicate 2 0) 0 (word_to_le 2 (type_val CS_ROOM_LEAVE_REQ)) 0 2;
     client_SendPacket e req 2 s }"

text \<open>The request both chat senders build: the payload array and the chat length.\<close>

definition chat_request :: "bytes \<Rightarrow> (bytes \<times> WORD) option" where
  "chat_request chat = do {
     t \<leftarrow> cstr chat;
     let chatLen = (of_nat (length t) :: WORD) + 1;
     let chatLen = (if uint chatLen > MAX_CHAT_LEN then word_of_int MAX_CHAT_LEN else chatLen);
     req \<leftarrow> memcpy (replicate (nat (2 + 2 + MAX_CHAT_LEN)) 0) 0 (word_to_le 2 (type_val CS_CHAT_REQ)) 0 2;
     req \<leftarrow> memcpy req 2 (word_to_le 2 chatLen) 0 2;
     req \<leftarrow> memcpy req 4 chat 0 (uint chatLen);
     Some (req, chatLen) }"

definition SendChat :: "cenv \<Rightarrow> bytes \<Rightarrow> client \<Rightarrow> (bool \<times> client) option" where
  "SendChat e chat s = do {
     (req, chatLen) \<leftarrow> chat_request chat;
     client_SendPacket e req (2 + 2 + chatLen) s }"

definition SendChatTampered :: "cenv \<Rightarrow> bytes \<Rightarrow> client \<Rightarrow> (bool \<times> client) option" where
  "SendChatTampered e chat s = do {
     (req, chatLen) \<leftarrow> chat_request chat;
     (total, buf) \<leftarrow> client_Encode (c_ossl e) (c_nonce e (calls s)) req (uint (2 + 2 + chatLen))
       (c_stack e (calls s) 1024);
     b \<leftarrow> nth_opt buf 30;
     buf \<leftarrow> upd_opt buf 30 (b XOR 1);
     SendAll e buf total (called s) }"

section \<open>Receiving\<close>

text \<open>A fixed field of \<open>n\<close> bytes at \<open>off\<close>, copied into a zeroed array of \<open>n + 1\<close> and printed as text.\<close>

definition show_text :: "bytes \<Rightarrow> int \<Rightarrow> int \<Rightarrow> int \<Rightarrow> bytes option" where
  "show_text plain off n cap = do {
     a \<leftarrow> memcpy (replicate (nat (cap + 1)) 0) 0 plain off n;
     cstr a }"

text \<open>The two texts of a chat message whose nickname field is at \<open>off\<close>.\<close>

definition show_chat :: "bytes \<Rightarrow> int \<Rightarrow> line option" where
  "show_chat plain off = do {
     nick \<leftarrow> show_text plain off MAX_NICKNAME_LEN MAX_NICKNAME_LEN;
     lb \<leftarrow> mem_read plain (off + MAX_NICKNAME_LEN) 2;
     let chatLen = uint (le_to_word lb :: WORD);
     let copy = (if chatLen < MAX_CHAT_LEN then chatLen else MAX_CHAT_LEN);
     chat \<leftarrow> show_text plain (off + MAX_NICKNAME_LEN + 2) copy MAX_CHAT_LEN;
     Some (ChatLine nick chat) }"

text \<open>What \<open>DrainRecv\<close> does with one decrypted packet.\<close>

definition drain_packet :: "bool \<Rightarrow> bytes \<Rightarrow> client \<Rightarrow> client option" where
  "drain_packet verbose plain s = do {
     tb \<leftarrow> mem_read plain 0 2;
     let ty = (le_to_word tb :: WORD);
     s \<leftarrow> (if ty = type_val SC_LOGIN_RES
           then do {
             result \<leftarrow> nth_opt plain 2;
             Some (if result = 0 then s\<lparr>g_loginSuccess := g_loginSuccess s + 1\<rparr>
                   else s\<lparr>g_loginFail := g_loginFail s + 1\<rparr>) }
           else Some s);
     s \<leftarrow> (if ty = type_val SC_CHAT_RES
           then let s = s\<lparr>g_recvChatTotal := g_recvChatTotal s + 1\<rparr>
             in if verbose then do { l \<leftarrow> show_chat plain 2; Some (print_line l s) } else Some s
           else Some s);
     s \<leftarrow> (if verbose \<and> ty = type_val SC_USER_JOIN
           then do { nick \<leftarrow> show_text plain 2 MAX_NICKNAME_LEN MAX_NICKNAME_LEN; Some (print_line (JoinLine nick) s) }
           else Some s);
     s \<leftarrow> (if verbose \<and> ty = type_val SC_USER_LEAVE
           then do { nick \<leftarrow> show_text plain 2 MAX_NICKNAME_LEN MAX_NICKNAME_LEN; Some (print_line (LeaveLine nick) s) }
           else Some s);
     Some (s\<lparr>g_recvAnyTotal := g_recvAnyTotal s + 1\<rparr>) }"

text \<open>
  The packet loop of \<open>DrainRecv\<close> on the first \<open>used\<close> bytes of \<open>recvBuf\<close>. Every round that continues
  removes at least a header.
\<close>

function drain_loop :: "cenv \<Rightarrow> bool \<Rightarrow> bytes \<Rightarrow> int \<Rightarrow> client \<Rightarrow> (bool \<times> bytes \<times> int \<times> client) option" where
  "drain_loop e verbose recvBuf used s =
     (if used < 30 then Some (True, recvBuf, used, s)
      else do {
        lb \<leftarrow> mem_read recvBuf 0 2;
        let payloadLen = uint (le_to_word lb :: WORD);
        if used < 30 + payloadLen then Some (True, recvBuf, used, s)
        else do {
          (plainLen, plain) \<leftarrow> client_Decode (c_ossl e) recvBuf (30 + payloadLen) (c_stack e (calls s) 8192);
          if plainLen < 0 then Some (False, recvBuf, used, called s)
          else do {
            s' \<leftarrow> drain_packet verbose plain (called s);
            rest \<leftarrow> mem_read recvBuf (30 + payloadLen) (used - (30 + payloadLen));
            recvBuf' \<leftarrow> memcpy recvBuf 0 rest 0 (used - (30 + payloadLen));
            drain_loop e verbose recvBuf' (used - (30 + payloadLen)) s' } } })"
  by pat_completeness auto
termination by (relation "measure (\<lambda>(e, v, b, used, s). nat used)") (auto intro: less_le_trans [OF _ uint_ge_0])

declare drain_loop.simps [simp del]

definition DrainRecv ::
    "cenv \<Rightarrow> bytes \<Rightarrow> int \<Rightarrow> int \<Rightarrow> int \<Rightarrow> bool \<Rightarrow> client \<Rightarrow> (bool \<times> bytes \<times> int \<times> client) option" where
  "DrainRecv e recvBuf used bufSize timeoutMs verbose s = do {
     let r = c_select e (calls s) timeoutMs;
     let s = called s;
     if r = 0 then Some (True, recvBuf, used, s)
     else if r < 0 then Some (False, recvBuf, used, s)
     else do {
       let (n, bs) = c_recv e (calls s) (bufSize - used);
       let s = called s;
       if n \<le> 0 then Some (False, recvBuf, used, s)
       else do {
         recvBuf \<leftarrow> memcpy recvBuf used bs 0 n;
         drain_loop e verbose recvBuf (used + n) s } } }"

section \<open>The automatic mode\<close>

text \<open>\<open>%d\<close> and \<open>%05d\<close> of a number that is not negative, and the texts of bot \<open>idx\<close> with their terminator.\<close>

fun dec :: "nat \<Rightarrow> bytes" where
  "dec n = (if n < 10 then [of_nat (48 + n)] else dec (n div 10) @ [of_nat (48 + n mod 10)])"

declare dec.simps [simp del]

definition dec5 :: "nat \<Rightarrow> bytes" where
  "dec5 n = replicate (5 - length (dec n)) 48 @ dec n"

definition bot_name :: "nat \<Rightarrow> bytes" where
  "bot_name idx = [66, 111, 116] @ dec5 idx"

definition bot_wname :: "nat \<Rightarrow> wstr" where
  "bot_wname idx = map (\<lambda>c. ucast c) (bot_name idx) @ [0]"

definition bot_password :: wstr where
  "bot_password = [112, 119, 0]"

definition bot_chat :: "nat \<Rightarrow> nat \<Rightarrow> bytes" where
  "bot_chat idx k = bot_name idx @ [32, 109, 115, 103, 35] @ dec k @ [0]"

text \<open>The listening loop of the observer bot; \<open>None\<close> also when the clock never passes the five seconds.\<close>

partial_function (option) observe ::
    "cenv \<Rightarrow> LONG \<Rightarrow> bytes \<Rightarrow> int \<Rightarrow> client \<Rightarrow> (bool \<times> bytes \<times> int \<times> client) option" where
  "observe e start recvBuf used s =
     (if c_tick e (calls s) - start < 5000
      then if c_running e (calls (called s))
        then Option.bind (DrainRecv e recvBuf used 8192 100 True (called (called s)))
          (\<lambda>(ok, recvBuf, used, s).
             if ok then observe e start recvBuf used s else Some (False, recvBuf, used, s))
        else Some (True, recvBuf, used, called (called s))
      else Some (True, recvBuf, used, called s))"

text \<open>Message \<open>k\<close> of a bot: one in twenty, on average, is tampered with on purpose.\<close>

definition bot_say :: "cenv \<Rightarrow> nat \<Rightarrow> nat \<Rightarrow> client \<Rightarrow> (bool \<times> client) option" where
  "bot_say e idx k s =
     (if c_rand e (calls s) mod 20 = 0
      then do {
        (_, s) \<leftarrow> SendChatTampered e (bot_chat idx k) (called s);
        Some (True, s\<lparr>g_tamperSent := g_tamperSent s + 1\<rparr>) }
      else do {
        (ok, s) \<leftarrow> SendChat e (bot_chat idx k) (called s);
        Some (ok, if ok then s\<lparr>g_sendChatTotal := g_sendChatTotal s + 1\<rparr> else s) })"

text \<open>The chat loop of the other bots: \<open>left\<close> rounds to go, \<open>k\<close> done; the last call is the delay's \<open>rand\<close>.\<close>

fun chat_loop ::
    "cenv \<Rightarrow> nat \<Rightarrow> nat \<Rightarrow> nat \<Rightarrow> bytes \<Rightarrow> int \<Rightarrow> client \<Rightarrow> (bool \<times> bytes \<times> int \<times> client) option" where
  "chat_loop e idx 0 k recvBuf used s = Some (True, recvBuf, used, s)"
| "chat_loop e idx (Suc left) k recvBuf used s =
     (if \<not> c_running e (calls s) then Some (True, recvBuf, used, called s)
      else do {
        (ok, s) \<leftarrow> bot_say e idx k (called s);
        if \<not> ok then Some (False, recvBuf, used, s)
        else do {
          (ok, recvBuf, used, s) \<leftarrow> DrainRecv e recvBuf used 8192 2 False s;
          if \<not> ok then Some (False, recvBuf, used, s)
          else chat_loop e idx left (k + 1) recvBuf used (called s) } })"

text \<open>Step 1 of a session: the sign-up of the first cycle.\<close>

definition bot_signup ::
    "cenv \<Rightarrow> nat \<Rightarrow> bool \<Rightarrow> bytes \<Rightarrow> client \<Rightarrow> (bool \<times> bool \<times> bytes \<times> int \<times> client) option" where
  "bot_signup e idx needSignUp recvBuf s =
     (if needSignUp
      then do {
        (ok, s) \<leftarrow> SendSignUp e (bot_wname idx) bot_password (bot_wname idx) s;
        if \<not> ok then Some (False, needSignUp, recvBuf, 0, s)
        else do {
          (_, recvBuf, used, s) \<leftarrow> DrainRecv e recvBuf 0 8192 50 (idx = 0) (s\<lparr>g_signupSent := g_signupSent s + 1\<rparr>);
          Some (True, False, recvBuf, used, s) } }
      else Some (True, needSignUp, recvBuf, 0, s))"

text \<open>Step 4: listening or chatting.\<close>

definition bot_talk :: "cenv \<Rightarrow> nat \<Rightarrow> bytes \<Rightarrow> int \<Rightarrow> client \<Rightarrow> (bool \<times> bytes \<times> int \<times> client) option" where
  "bot_talk e idx recvBuf used s =
     (if idx = 0 then observe e (c_tick e (calls s)) recvBuf used (called s)
      else chat_loop e idx (nat (10 + c_rand e (calls s) mod 100)) 0 recvBuf used (called s))"

text \<open>From the room on: what came in, the talk, and step 5, leaving. The first result is \<open>sessionOk\<close>.\<close>

definition bot_stay :: "cenv \<Rightarrow> nat \<Rightarrow> bytes \<Rightarrow> int \<Rightarrow> client \<Rightarrow> (bool \<times> bytes \<times> client) option" where
  "bot_stay e idx recvBuf used s = do {
     (_, recvBuf, used, s) \<leftarrow> DrainRecv e recvBuf used 8192 5 (idx = 0) s;
     (ok, recvBuf, used, s) \<leftarrow> bot_talk e idx recvBuf used s;
     if ok then do { (_, s) \<leftarrow> SendRoomLeave e s; Some (True, recvBuf, s) }
     else Some (False, recvBuf, s) }"

text \<open>Step 3: the observer enters room 1, the others a random one.\<close>

definition bot_room :: "cenv \<Rightarrow> nat \<Rightarrow> client \<Rightarrow> WORD \<times> client" where
  "bot_room e idx s = (if idx = 0 then (1, s) else (word_of_int (c_rand e (calls s) mod 5 + 1), called s))"

definition bot_enter :: "cenv \<Rightarrow> nat \<Rightarrow> bytes \<Rightarrow> int \<Rightarrow> client \<Rightarrow> (bool \<times> bytes \<times> client) option" where
  "bot_enter e idx recvBuf used s = do {
     (ok, s) \<leftarrow> SendRoomEnter e (fst (bot_room e idx s)) (snd (bot_room e idx s));
     if \<not> ok then Some (False, recvBuf, s) else bot_stay e idx recvBuf used s }"

text \<open>Steps 2 to 5 of a session.\<close>

definition bot_session :: "cenv \<Rightarrow> nat \<Rightarrow> bytes \<Rightarrow> int \<Rightarrow> client \<Rightarrow> (bool \<times> bytes \<times> client) option" where
  "bot_session e idx recvBuf used s = do {
     (ok, s) \<leftarrow> SendLogin e (bot_wname idx) bot_password s;
     if \<not> ok then Some (False, recvBuf, s)
     else do {
       (_, recvBuf, used, s) \<leftarrow> DrainRecv e recvBuf used 8192 50 (idx = 0) s;
       bot_enter e idx recvBuf used s } }"

text \<open>The body of the bot's loop: the first result is \<open>needSignUp\<close>.\<close>

definition bot_cycle :: "cenv \<Rightarrow> nat \<Rightarrow> bool \<Rightarrow> bytes \<Rightarrow> client \<Rightarrow> (bool \<times> bytes \<times> client) option" where
  "bot_cycle e idx needSignUp recvBuf s =
     (if \<not> c_socket e (calls s)
      then Some (needSignUp, recvBuf, called s\<lparr>g_socketErr := g_socketErr s + 1\<rparr>)
      else let s = called s\<lparr>open_socks := open_socks s + 1\<rparr> in
      if \<not> c_connect e (calls s)
      then Some (needSignUp, recvBuf, called s\<lparr>g_connectErr := g_connectErr s + 1, open_socks := open_socks s - 1\<rparr>)
      else do {
        let s = called s\<lparr>g_connectTotal := g_connectTotal s + 1, outgoing := []\<rparr>;
        (ok, needSignUp, recvBuf, used, s) \<leftarrow> bot_signup e idx needSignUp recvBuf s;
        (ok, recvBuf, s) \<leftarrow> (if ok then bot_session e idx recvBuf used s else Some (False, recvBuf, s));
        let s = s\<lparr>open_socks := open_socks s - 1, g_disconnTotal := g_disconnTotal s + 1\<rparr>;
        let s = (if ok then s else s\<lparr>g_cycleErr := g_cycleErr s + 1\<rparr>);
        Some (needSignUp, recvBuf, called s) })"

text \<open>The loop ends when \<open>g_botRunning\<close> is read as 0; \<open>None\<close> also when that never happens.\<close>

partial_function (option) bot_loop :: "cenv \<Rightarrow> nat \<Rightarrow> bool \<Rightarrow> bytes \<Rightarrow> client \<Rightarrow> client option" where
  "bot_loop e idx needSignUp recvBuf s =
     (if c_running e (calls s)
      then Option.bind (bot_cycle e idx needSignUp recvBuf (called s))
        (\<lambda>(needSignUp, recvBuf, s). bot_loop e idx needSignUp recvBuf s)
      else Some (called s))"

definition BotThread :: "cenv \<Rightarrow> nat \<Rightarrow> client \<Rightarrow> client option" where
  "BotThread e idx s = do {
     s \<leftarrow> bot_loop e idx True (c_stack e (calls s) 8192) (s\<lparr>g_aliveBotCount := g_aliveBotCount s + 1\<rparr>);
     Some (s\<lparr>g_aliveBotCount := g_aliveBotCount s - 1\<rparr>) }"

end
