(* ===== verification/ClientModes.thy ===== *)
theory ClientModes
  imports Client
begin

text \<open>
  The modes of \<open>DummyClient.cpp\<close> around the bots: the receive thread and the commands of the
  interactive mode, the tamper test, the statistics of the automatic mode and the command line.
\<close>

section \<open>The interactive receive thread\<close>

text \<open>What the thread prints for a decrypted packet.\<close>

definition int_packet :: "bytes \<Rightarrow> client \<Rightarrow> client option" where
  "int_packet plain s = do {
     tb \<leftarrow> mem_read plain 0 2;
     let ty = (le_to_word tb :: WORD);
     l \<leftarrow> (if ty = type_val SC_LOGIN_RES then do {
             result \<leftarrow> nth_opt plain 2;
             ub \<leftarrow> mem_read plain 3 4;
             nb \<leftarrow> memcpy (replicate (nat (2 * (MAX_NICKNAME_LEN + 1))) 0) 0 plain 7 (2 * MAX_NICKNAME_LEN);
             nick \<leftarrow> cstr (bwords nb);
             Some (LoginLine result (le_to_word ub) nick) }
           else if ty = type_val SC_SIGNUP_RES then do {
             result \<leftarrow> nth_opt plain 2;
             ub \<leftarrow> mem_read plain 3 4;
             Some (SignUpLine result (le_to_word ub)) }
           else if ty = type_val SC_ROOM_ENTER_RES then do {
             rb \<leftarrow> mem_read plain 3 2;
             result \<leftarrow> nth_opt plain 2;
             Some (RoomLine result (le_to_word rb)) }
           else if ty = type_val SC_CHAT_RES then show_chat plain 2
           else if ty = type_val SC_USER_JOIN then do {
             nick \<leftarrow> show_text plain 2 MAX_NICKNAME_LEN MAX_NICKNAME_LEN; Some (JoinLine nick) }
           else if ty = type_val SC_USER_LEAVE then do {
             nick \<leftarrow> show_text plain 2 MAX_NICKNAME_LEN MAX_NICKNAME_LEN; Some (LeaveLine nick) }
           else Some (UnknownLine ty));
     Some (print_line l s) }"

text \<open>The packet loop; the first result is false when the thread returns from inside it.\<close>

function int_loop :: "cenv \<Rightarrow> bytes \<Rightarrow> int \<Rightarrow> client \<Rightarrow> (bool \<times> bytes \<times> int \<times> client) option" where
  "int_loop e buf used s =
     (if used < 30 then Some (True, buf, used, s)
      else do {
        lb \<leftarrow> mem_read buf 0 2;
        let payloadLen = uint (le_to_word lb :: WORD);
        if used < 30 + payloadLen then Some (True, buf, used, s)
        else do {
          (plainLen, plain) \<leftarrow> client_Decode (c_ossl e) buf (30 + payloadLen) (c_stack e (calls s) 8192);
          if plainLen < 0 then Some (False, buf, used, (print_line MacMismatch (called s))\<lparr>g_intRunning := False\<rparr>)
          else do {
            s' \<leftarrow> int_packet plain (called s);
            rest \<leftarrow> mem_read buf (30 + payloadLen) (used - (30 + payloadLen));
            buf' \<leftarrow> memcpy buf 0 rest 0 (used - (30 + payloadLen));
            int_loop e buf' (used - (30 + payloadLen)) s' } } })"
  by pat_completeness auto
termination
  by (relation "measure (\<lambda>(e, b, used, s). nat used)") (auto intro: less_le_trans [OF _ uint_ge_0])

declare int_loop.simps [simp del]

text \<open>
  One round of the thread: \<open>recv\<close> on a buffer of 8192 bytes and the packet loop. The first result is
  false when the thread ends.
\<close>

definition int_recv_turn :: "cenv \<Rightarrow> bytes \<Rightarrow> int \<Rightarrow> client \<Rightarrow> (bool \<times> bytes \<times> int \<times> client) option" where
  "int_recv_turn e buf used s =
     (case c_recv e (calls s) (8192 - used) of (n, bs) \<Rightarrow>
        if n \<le> 0 then Some (False, buf, used, (print_line Disconnected (called s))\<lparr>g_intRunning := False\<rparr>)
        else do {
          buf \<leftarrow> memcpy buf used bs 0 n;
          int_loop e buf (used + n) (called s) })"

text \<open>\<open>c_running\<close> is what the main thread leaves in \<open>g_intRunning\<close>; \<open>None\<close> also when the thread never ends.\<close>

partial_function (option) int_recv_rounds :: "cenv \<Rightarrow> bytes \<Rightarrow> int \<Rightarrow> client \<Rightarrow> client option" where
  "int_recv_rounds e buf used s =
     (if g_intRunning s \<and> c_running e (calls s)
      then Option.bind (int_recv_turn e buf used (called s))
        (\<lambda>(go, buf, used, s). if go then int_recv_rounds e buf used s else Some s)
      else Some (called s))"

definition InteractiveRecvThread :: "cenv \<Rightarrow> client \<Rightarrow> client option" where
  "InteractiveRecvThread e s = int_recv_rounds e (c_stack e (calls s) 8192) 0 s"

section \<open>Interactive commands\<close>

definition ascii :: "string \<Rightarrow> bytes" where
  "ascii cs = map of_char cs"

definition is_space :: "byte \<Rightarrow> bool" where
  "is_space c \<longleftrightarrow> c = 32 \<or> 9 \<le> c \<and> c \<le> 13"

text \<open>\<open>sscanf_s\<close> with \<open>n\<close> times \<open>%63s\<close>: the words it assigns, each with its terminator.\<close>

fun scan_words :: "nat \<Rightarrow> bytes \<Rightarrow> bytes list" where
  "scan_words 0 cs = []"
| "scan_words (Suc n) cs =
     (let r = dropWhile is_space cs; w = take 63 (takeWhile (\<lambda>c. \<not> is_space c) r)
      in if w = [] then [] else (w @ [0]) # scan_words n (drop (length w) r))"

text \<open>\<open>atoi\<close>: optional sign and digits after white space, clamped to the range of \<open>int\<close>.\<close>

definition digits :: "bytes \<Rightarrow> int" where
  "digits cs = foldl (\<lambda>n c. 10 * n + (uint c - 48)) 0 (takeWhile (\<lambda>c. 48 \<le> c \<and> c \<le> 57) cs)"

definition atoi :: "bytes \<Rightarrow> int" where
  "atoi cs = (let r = dropWhile is_space cs;
       n = (if r \<noteq> [] \<and> hd r = 45 then - digits (tl r) else if r \<noteq> [] \<and> hd r = 43 then digits (tl r) else digits r)
     in max (- (2 ^ 31)) (min (2 ^ 31 - 1) n))"

definition ToWide :: "cenv \<Rightarrow> nat \<Rightarrow> bytes \<Rightarrow> nat \<Rightarrow> wstr" where
  "ToWide e k inp outCount = c_widen e k inp (c_wstack e k outCount)"

text \<open>The line without its line end.\<close>

definition strip_eol :: "bytes \<Rightarrow> bytes" where
  "strip_eol cs = rev (dropWhile (\<lambda>c. c = 10 \<or> c = 13) (rev cs))"

text \<open>One input line; the first result is false after \<open>/quit\<close>.\<close>

definition interactive_line :: "cenv \<Rightarrow> bytes \<Rightarrow> client \<Rightarrow> (bool \<times> client) option" where
  "interactive_line e input s =
     (let ln = strip_eol input in
      if ln = [] then Some (True, s)
      else if take 8 ln = ascii ''/signup '' then
        (case scan_words 3 (drop 8 ln) of
           [acc, pw, nk] \<Rightarrow> do {
             (_, s') \<leftarrow> SendSignUp e (ToWide e (calls s) acc 32) (ToWide e (calls s + 1) pw 64)
               (ToWide e (calls s + 2) nk 32) (s\<lparr>calls := calls s + 3\<rparr>);
             Some (True, s') }
         | _ \<Rightarrow> Some (True, print_line UsageSignUp s))
      else if take 7 ln = ascii ''/login '' then
        (case scan_words 2 (drop 7 ln) of
           [acc, pw] \<Rightarrow> do {
             (_, s') \<leftarrow> SendLogin e (ToWide e (calls s) acc 32) (ToWide e (calls s + 1) pw 64)
               (s\<lparr>calls := calls s + 2\<rparr>);
             Some (True, s') }
         | _ \<Rightarrow> Some (True, print_line UsageLogin s))
      else if take 7 ln = ascii ''/enter '' then do {
        (_, s') \<leftarrow> SendRoomEnter e (word_of_int (atoi (drop 7 ln))) s; Some (True, s') }
      else if ln = ascii ''/leave'' then do { (_, s') \<leftarrow> SendRoomLeave e s; Some (True, s') }
      else if ln = ascii ''/help'' then Some (True, print_line HelpText s)
      else if ln = ascii ''/quit'' then Some (False, s)
      else if hd ln = 47 then Some (True, print_line UnknownCommand s)
      else do { (_, s') \<leftarrow> SendChat e (ln @ [0]) s; Some (True, s') })"

text \<open>The loop over what \<open>fgets\<close> delivers; the receive thread may have cleared \<open>g_intRunning\<close>.\<close>

fun interactive_lines :: "cenv \<Rightarrow> bytes list \<Rightarrow> client \<Rightarrow> client option" where
  "interactive_lines e [] s = Some s"
| "interactive_lines e (l # ls) s =
     (if \<not> c_running e (calls s) then Some (called s)
      else do {
        (go, s) \<leftarrow> interactive_line e l (called s);
        if go then interactive_lines e ls s else Some s })"

definition RunInteractive :: "cenv \<Rightarrow> bytes list \<Rightarrow> client \<Rightarrow> (int \<times> client) option" where
  "RunInteractive e input s =
     (let s = s\<lparr>open_socks := open_socks s + 1\<rparr> in
      if \<not> c_connect e (calls s) then Some (1, called s\<lparr>open_socks := open_socks s - 1\<rparr>)
      else do {
        s \<leftarrow> interactive_lines e input (print_line HelpText (called s\<lparr>outgoing := []\<rparr>));
        Some (0, s\<lparr>g_intRunning := False, open_socks := open_socks s - 1\<rparr>) })"

section \<open>The tamper test\<close>

definition tamper_name :: wstr where
  "tamper_name = [84, 97, 109, 112, 101, 114, 48, 49, 0]"

definition RunTamper :: "cenv \<Rightarrow> client \<Rightarrow> (int \<times> client) option" where
  "RunTamper e s =
     (let s = s\<lparr>open_socks := open_socks s + 1\<rparr> in
      if \<not> c_connect e (calls s) then Some (1, called s\<lparr>open_socks := open_socks s - 1\<rparr>)
      else do {
        let s = called s\<lparr>outgoing := []\<rparr>;
        let recvBuf = c_stack e (calls s) 8192;
        (_, s) \<leftarrow> SendSignUp e tamper_name bot_password tamper_name s;
        (_, recvBuf, used, s) \<leftarrow> DrainRecv e recvBuf 0 8192 150 False s;
        (_, s) \<leftarrow> SendLogin e tamper_name bot_password s;
        (_, recvBuf, used, s) \<leftarrow> DrainRecv e recvBuf used 8192 150 False s;
        (_, s) \<leftarrow> SendRoomEnter e 1 s;
        (_, recvBuf, used, s) \<leftarrow> DrainRecv e recvBuf used 8192 150 False s;
        (_, s) \<leftarrow> SendChat e (ascii ''hello normal'' @ [0]) s;
        (_, recvBuf, used, s) \<leftarrow> DrainRecv e recvBuf used 8192 300 True s;
        (_, s) \<leftarrow> SendChatTampered e (ascii ''hello tampered'' @ [0]) s;
        let r = c_select e (calls s) 3000;
        let s = called s;
        let s = (if r = 0 then print_line TamperSilent s
          else let n = fst (c_recv e (calls s) 1024)
            in print_line (if n \<le> 0 then TamperDetected n else TamperMissed n) (called s));
        Some (0, s\<lparr>open_socks := open_socks s - 1\<rparr>) })"

section \<open>Statistics and the command line\<close>

record stat =
  sec :: int
  lastConn :: LONG
  lastSend :: LONG
  lastRecv :: LONG
  lastSockErr :: LONG
  lastConnErr :: LONG
  lastCycleErr :: LONG
  lastLoginOk :: LONG
  lastLoginFail :: LONG

text \<open>A round of \<open>StatThread\<close> on the counters it finds: the totals it prints, then the differences.\<close>

definition client_StatThread_turn :: "stat \<Rightarrow> client \<Rightarrow> stat \<times> client" where
  "client_StatThread_turn st s =
     (st\<lparr>sec := sec st + 1, lastConn := g_connectTotal s, lastSend := g_sendChatTotal s,
         lastRecv := g_recvChatTotal s, lastSockErr := g_socketErr s, lastConnErr := g_connectErr s,
         lastCycleErr := g_cycleErr s, lastLoginOk := g_loginSuccess s, lastLoginFail := g_loginFail s\<rparr>,
      print_line (StatLine
        [word_of_int (sec st + 1), g_aliveBotCount s,
         g_connectTotal s, g_connectTotal s - lastConn st, g_disconnTotal s,
         g_loginSuccess s, g_loginSuccess s - lastLoginOk st,
         g_loginFail s, g_loginFail s - lastLoginFail st, g_signupSent s, g_tamperSent s,
         g_sendChatTotal s, g_sendChatTotal s - lastSend st,
         g_recvChatTotal s, g_recvChatTotal s - lastRecv st,
         g_socketErr s, g_socketErr s - lastSockErr st,
         g_connectErr s, g_connectErr s - lastConnErr st,
         g_cycleErr s, g_cycleErr s - lastCycleErr st]) s)"

text \<open>
  \<open>RunAuto\<close> waits for its \<open>n\<close> bot threads in batches: the offset and the count of every
  \<open>WaitForMultipleObjects\<close>, from offset \<open>off\<close> on.
\<close>

function wait_batches :: "int \<Rightarrow> int \<Rightarrow> (int \<times> int) list" where
  "wait_batches n off =
     (if off < n then (off, if n - off < 64 then n - off else 64) # wait_batches n (off + 64) else [])"
  by pat_completeness auto
termination by (relation "measure (\<lambda>(n, off). nat (n - off))") auto

declare wait_batches.simps [simp del]

datatype mode = Interactive | Auto int | Tamper

text \<open>
  \<open>main\<close> before \<open>WSAStartup\<close>, on the arguments after the program name: the mode and the server, or
  \<open>None\<close> when it prints the usage and returns 1.
\<close>

definition client_args :: "bytes list \<Rightarrow> (mode \<times> bytes \<times> int) option" where
  "client_args args = do {
     (m, rest) \<leftarrow> (case args of
        a # as \<Rightarrow>
          if a = ascii ''--auto'' then (case as of [] \<Rightarrow> None | n # as' \<Rightarrow> Some (Auto (atoi n), as'))
          else if a = ascii ''--tamper'' then Some (Tamper, as)
          else Some (Interactive, args)
      | [] \<Rightarrow> Some (Interactive, []));
     Some (m, if rest = [] then ascii ''127.0.0.1'' else hd rest,
       if length rest < 2 then 6000 else atoi (rest ! 1)) }"

end
