(* ===== verification/ClientSend.thy ===== *)
theory ClientSend
  imports Client
begin

text \<open>
  What the client puts on the wire: its codec is the server's, \<open>SendAll\<close> returns whatever \<open>send\<close>
  answers and hands over a prefix of the frame, all of it when it reports success, and every request
  sender is defined and sends exactly one frame with the fields of the request.
\<close>

section \<open>The codec\<close>

lemma client_keys: "client_AES_KEY = PKT_AES_KEY" "client_MAC_KEY = PKT_MAC_KEY"
  by (simp_all add: client_AES_KEY_def client_MAC_KEY_def PKT_AES_KEY_def PKT_MAC_KEY_def)

lemma client_Encode_eq: "client_Encode = Encode"
  unfolding fun_eq_iff client_Encode_def Encode_def packet_layout client_keys by blast

lemma client_Decode_eq: "client_Decode = Decode"
  unfolding fun_eq_iff client_Decode_def Decode_def packet_layout client_keys by blast

lemma cenv_okD:
  assumes "cenv_ok e"
  shows "ossl_ok (c_ossl e)" and "length (c_nonce e k) = 12" and "length (c_stack e k n) = n"
    and "length (c_wstack e k n) = n"
    and "0 < l \<Longrightarrow> c_send e k l \<le> l" and "0 \<le> c_rand e k" and "c_rand e k \<le> 32767"
    and "0 \<le> l \<Longrightarrow> c_recv e k l = (r, bs) \<Longrightarrow> r \<le> l \<and> (0 < r \<longrightarrow> int (length bs) = r)"
  using assms by (auto simp: cenv_ok_def split: prod.splits)

lemma called_simps [simp]:
  "calls (called s) = calls s + 1" "outgoing (called s) = outgoing s" "g_connectTotal (called s) = g_connectTotal s"
  "g_disconnTotal (called s) = g_disconnTotal s" "g_aliveBotCount (called s) = g_aliveBotCount s"
  "open_socks (called s) = open_socks s" "g_recvAnyTotal (called s) = g_recvAnyTotal s"
  "g_recvChatTotal (called s) = g_recvChatTotal s" "g_loginSuccess (called s) = g_loginSuccess s"
  "g_loginFail (called s) = g_loginFail s" "printed (called s) = printed s"
  by (simp_all add: called_def)

section \<open>\<open>SendAll\<close>\<close>

text \<open>The thread handed a prefix of \<open>w\<close> to its connection, all of it when \<open>ok\<close>; nothing else changed.\<close>

definition hands_over :: "bytes \<Rightarrow> bool \<Rightarrow> client \<Rightarrow> client \<Rightarrow> bool" where
  "hands_over w ok s s' \<longleftrightarrow> (\<exists>k c. s' = s\<lparr>outgoing := outgoing s @ take k w, calls := c\<rparr> \<and> calls s \<le> c \<and> (ok \<longrightarrow> length w \<le> k))"

text \<open>A connection that never refuses to take bytes.\<close>

definition flowing :: "cenv \<Rightarrow> bool" where
  "flowing e \<longleftrightarrow> (\<forall>k n. 0 < n \<longrightarrow> 0 < c_send e k n)"

lemma hands_overI:
  "s' = s\<lparr>outgoing := outgoing s @ take k w, calls := c\<rparr> \<Longrightarrow> calls s \<le> c \<Longrightarrow> (ok \<Longrightarrow> length w \<le> k) \<Longrightarrow> hands_over w ok s s'"
  by (auto simp: hands_over_def)

lemma hands_overE:
  assumes "hands_over w ok s s'"
  obtains k c where "s' = s\<lparr>outgoing := outgoing s @ take k w, calls := c\<rparr>" "calls s \<le> c" "ok \<longrightarrow> length w \<le> k"
  using assms by (auto simp: hands_over_def)

lemma hands_over_called: "hands_over w ok (called s) s' \<Longrightarrow> hands_over w ok s s'"
  by (erule hands_overE) (rule hands_overI, auto simp: called_def)

lemma send_loop_ok:
  "cenv_ok e \<Longrightarrow> 0 \<le> sent \<Longrightarrow> sent \<le> len \<Longrightarrow> len \<le> int (length buf) \<Longrightarrow>
    wp (send_loop e buf len sent s)
      (\<lambda>(ok, s'). hands_over (seg sent (len - sent) buf) ok s s' \<and> (flowing e \<longrightarrow> ok))"
proof (induction e buf len sent s rule: send_loop.induct)
  case (1 e buf len sent s)
  let ?n = "c_send e (calls s) (len - sent)"
  consider "sent = len" | "sent < len" "?n \<le> 0" | "sent < len" "0 < ?n" using "1.prems" by linarith
  then show ?case
  proof cases
    case 1
    then show ?thesis by (subst send_loop.simps) (auto intro!: hands_overI [where c = "calls s"])
  next
    case 2
    then have "\<not> flowing e" by (auto simp: flowing_def not_less intro!: exI [of _ "calls s"] exI [of _ "len - sent"])
    with 2 show ?thesis
      by (subst send_loop.simps) (auto simp: called_def intro!: hands_overI [where k = 0 and c = "calls s + 1"])
  next
    case 3
    have n: "?n \<le> len - sent" using cenv_okD(5) [OF "1.prems"(1)] 3 by simp
    let ?b = "seg sent ?n buf" and ?r = "seg (sent + ?n) (len - (sent + ?n)) buf"
    have rd: "mem_read buf sent ?n = Some ?b" using 3 n "1.prems" by (simp add: mem_read_def)
    have b: "int (length ?b) = ?n" using 3 n "1.prems" by simp
    have s: "seg sent (len - sent) buf = ?b @ ?r"
      using seg_split [of ?n "len - (sent + ?n)" sent buf] 3 n "1.prems" by simp
    let ?s1 = "called s\<lparr>outgoing := outgoing s @ ?b\<rparr>"
    have "wp (send_loop e buf len (sent + ?n) ?s1) (\<lambda>(ok, s'). hands_over ?r ok ?s1 s' \<and> (flowing e \<longrightarrow> ok))"
      using "1.IH" [OF _ _ rd] 3 n "1.prems" by simp
    then obtain ok s' where w: "send_loop e buf len (sent + ?n) ?s1 = Some (ok, s')"
        "hands_over ?r ok ?s1 s'" "flowing e \<longrightarrow> ok" by (auto elim!: wpE)
    from w(2) obtain k c where k: "s' = ?s1\<lparr>outgoing := outgoing ?s1 @ take k ?r, calls := c\<rparr>" "calls ?s1 \<le> c" "ok \<longrightarrow> length ?r \<le> k"
      by (rule hands_overE)
    have "hands_over (?b @ ?r) ok s s'"
      by (rule hands_overI [where k = "length ?b + k" and c = c]) (use k in \<open>auto simp: called_def\<close>)
    then show ?thesis using 3 rd w s by (subst send_loop.simps) simp
  qed
qed

section \<open>Requests\<close>

text \<open>The sender returns and handed over a frame of the message \<open>m\<close>, or a part of it when it failed.\<close>

definition requests :: "cenv \<Rightarrow> bytes \<Rightarrow> bool \<Rightarrow> client \<Rightarrow> client \<Rightarrow> bool" where
  "requests e m ok s s' \<longleftrightarrow> (\<exists>nonce. length nonce = 12 \<and> hands_over (frame (c_ossl e) nonce m) ok s s') \<and>
     (flowing e \<longrightarrow> ok)"

lemma SendAll_ok:
  assumes e: "cenv_ok e" and w: "length w \<le> length buf" "take (length w) buf = w" and len: "len = int (length w)"
  shows "wp (SendAll e buf len s) (\<lambda>(ok, s'). hands_over w ok s s' \<and> (flowing e \<longrightarrow> ok))"
  using send_loop_ok [OF e, of 0 len buf s] w len by (simp add: SendAll_def seg_def)

lemma client_SendPacket_ok:
  assumes e: "cenv_ok e" and n: "unat n \<le> length req" "unat n \<le> 994"
  shows "wp (client_SendPacket e req n s) (\<lambda>(ok, s'). requests e (take (unat n) req) ok s s')"
proof -
  let ?E = "c_ossl e" and ?nonce = "c_nonce e (calls s)" and ?buf = "c_stack e (calls s) 1024"
  let ?m = "take (unat n) req" and ?f = "frame (c_ossl e) (c_nonce e (calls s)) (take (unat n) req)"
  have u: "uint n = int (unat n)" by simp
  have enc: "client_Encode ?E ?nonce req (uint n) ?buf = Some (30 + uint n, ?f @ drop (30 + unat n) ?buf)"
    unfolding client_Encode_eq
    using Encode_frame [OF cenv_okD(1,2) [OF e], of "int (unat n)" req ?buf] n cenv_okD(3) [OF e, of _ 1024]
    by (simp only: of_nat_0_le_iff of_nat_le_iff u nat_int)
  have len: "length ?f = 30 + unat n" using length_frame [OF cenv_okD(1,2) [OF e]] n by simp
  have "wp (SendAll e (?f @ drop (30 + unat n) ?buf) (30 + uint n) (called s))
      (\<lambda>(ok, s'). hands_over ?f ok (called s) s' \<and> (flowing e \<longrightarrow> ok))"
    by (rule SendAll_ok [OF e]) (use len in \<open>simp_all\<close>)
  moreover have "\<not> 30 + uint n > 1024" using n u by linarith
  ultimately show ?thesis using cenv_okD(2) [OF e]
    by (auto simp: client_SendPacket_def enc requests_def elim!: wp_mono intro!: hands_over_called)
qed

lemma put_text_ok:
  assumes "cstr text = Some t" and "0 < n" and "length pre = k" and "length old = 2 * n"
  obtains a where "put_text (pre @ old @ post) (int k) (int n) text = Some (pre @ wbytes a @ post)"
    "length a = n" "cstr a = Some (take (n - 1) t)"
proof -
  have "bwords old \<noteq> []" using assms(2,4) by (simp flip: length_greater_0_conv)
  then obtain a where a: "wcsncpy_trunc (bwords old) text = Some a" "length a = n" "cstr a = Some (take (n - 1) t)"
    using wcsncpy_trunc_ok [OF assms(1), of "bwords old"] assms(4) by auto
  moreover have "seg (int k) (2 * int n) (pre @ old @ post) = old"
    using assms(3,4) by (simp add: seg_def nat_mult_distrib)
  ultimately show ?thesis using assms(3,4)
    by (intro that [of a]) (auto simp: put_text_def mem_read_def memcpy_def seg_def nat_mult_distrib nat_add_distrib)
qed

text \<open>The payload array of a request after its type was stored.\<close>

lemma typed_array: "2 \<le> n \<Longrightarrow> memcpy (replicate n 0) 0 (word_to_le 2 (w :: WORD)) 0 2 = Some (word_to_le 2 w @ replicate (n - 2) 0)"
  by (simp add: memcpy_def seg_def)

lemma SendLogin_ok:
  assumes e: "cenv_ok e" and t: "cstr account = Some ta" "cstr password = Some tp"
  obtains a p where "length a = 32" "cstr a = Some (take 31 ta)" "length p = 64" "cstr p = Some (take 63 tp)"
    "wp (SendLogin e account password s)
       (\<lambda>(ok, s'). requests e (word_to_le 2 (type_val CS_LOGIN_REQ) @ wbytes a @ wbytes p) ok s s')"
proof -
  let ?ty = "word_to_le 2 (type_val CS_LOGIN_REQ)"
  have r: "replicate (194 - 2) 0 = replicate 64 0 @ (replicate 128 0 :: bytes)" by (simp flip: replicate_add)
  obtain a where a: "put_text (?ty @ replicate 64 0 @ replicate 128 0) (int 2) (int 32) account =
      Some (?ty @ wbytes a @ replicate 128 0)" "length a = 32" "cstr a = Some (take (32 - 1) ta)"
    by (rule put_text_ok [OF t(1), of 32 ?ty 2 "replicate 64 0" "replicate 128 0"]) simp_all
  obtain p where p: "put_text ((?ty @ wbytes a) @ replicate 128 0 @ []) (int 66) (int 64) password =
      Some ((?ty @ wbytes a) @ wbytes p @ [])" "length p = 64" "cstr p = Some (take (64 - 1) tp)"
    by (rule put_text_ok [OF t(2), of 64 "?ty @ wbytes a" 66 "replicate 128 0" "[]"]) (use a in simp_all)
  have "SendLogin e account password s = client_SendPacket e (?ty @ wbytes a @ wbytes p) 194 s"
    using a(1) p(1) r by (simp add: SendLogin_def typed_array)
  moreover have "wp (client_SendPacket e (?ty @ wbytes a @ wbytes p) 194 s) (\<lambda>(ok, s'). requests e (?ty @ wbytes a @ wbytes p) ok s s')"
    using client_SendPacket_ok [OF e, of 194 "?ty @ wbytes a @ wbytes p" s] a p by simp
  ultimately show ?thesis using a p by (intro that [of a p]) simp_all
qed

lemma SendSignUp_ok:
  assumes e: "cenv_ok e" and t: "cstr account = Some ta" "cstr password = Some tp" "cstr nickname = Some tn"
  obtains a p n where "length a = 32" "cstr a = Some (take 31 ta)" "length p = 64" "cstr p = Some (take 63 tp)"
    "length n = 32" "cstr n = Some (take 31 tn)"
    "wp (SendSignUp e account password nickname s)
       (\<lambda>(ok, s'). requests e (word_to_le 2 (type_val CS_SIGNUP_REQ) @ wbytes a @ wbytes p @ wbytes n) ok s s')"
proof -
  let ?ty = "word_to_le 2 (type_val CS_SIGNUP_REQ)"
  have r: "replicate (258 - 2) 0 = replicate 64 0 @ replicate 128 0 @ (replicate 64 0 :: bytes)" by (simp flip: replicate_add)
  obtain a where a: "put_text (?ty @ replicate 64 0 @ replicate 128 0 @ replicate 64 0) (int 2) (int 32) account =
      Some (?ty @ wbytes a @ replicate 128 0 @ replicate 64 0)" "length a = 32" "cstr a = Some (take (32 - 1) ta)"
    by (rule put_text_ok [OF t(1), of 32 ?ty 2 "replicate 64 0" "replicate 128 0 @ replicate 64 0"]) simp_all
  obtain p where p: "put_text ((?ty @ wbytes a) @ replicate 128 0 @ replicate 64 0) (int 66) (int 64) password =
      Some ((?ty @ wbytes a) @ wbytes p @ replicate 64 0)" "length p = 64" "cstr p = Some (take (64 - 1) tp)"
    by (rule put_text_ok [OF t(2), of 64 "?ty @ wbytes a" 66 "replicate 128 0" "replicate 64 0"]) (use a in simp_all)
  obtain n where n: "put_text ((?ty @ wbytes a @ wbytes p) @ replicate 64 0 @ []) (int 194) (int 32) nickname =
      Some ((?ty @ wbytes a @ wbytes p) @ wbytes n @ [])" "length n = 32" "cstr n = Some (take (32 - 1) tn)"
    by (rule put_text_ok [OF t(3), of 32 "?ty @ wbytes a @ wbytes p" 194 "replicate 64 0" "[]"]) (use a p in simp_all)
  let ?m = "?ty @ wbytes a @ wbytes p @ wbytes n"
  have "SendSignUp e account password nickname s = client_SendPacket e ?m 258 s"
    using a(1) p(1) n(1) r by (simp add: SendSignUp_def typed_array)
  moreover have "wp (client_SendPacket e ?m 258 s) (\<lambda>(ok, s'). requests e ?m ok s s')"
    using client_SendPacket_ok [OF e, of 258 ?m s] a p n by simp
  ultimately show ?thesis using a p n by (intro that [of a p n]) simp_all
qed

lemma SendRoomEnter_ok:
  assumes e: "cenv_ok e"
  shows "wp (SendRoomEnter e roomNo s)
    (\<lambda>(ok, s'). requests e (word_to_le 2 (type_val CS_ROOM_ENTER_REQ) @ word_to_le 2 roomNo) ok s s')"
proof -
  let ?m = "word_to_le 2 (type_val CS_ROOM_ENTER_REQ) @ word_to_le 2 roomNo"
  have "SendRoomEnter e roomNo s = client_SendPacket e ?m 4 s"
    unfolding SendRoomEnter_def by (simp add: typed_array del: word_to_le.simps) (simp add: memcpy_def seg_def del: word_to_le.simps)
  then show ?thesis using client_SendPacket_ok [OF e, of 4 ?m s] by simp
qed

lemma SendRoomLeave_ok:
  assumes e: "cenv_ok e"
  shows "wp (SendRoomLeave e s) (\<lambda>(ok, s'). requests e (word_to_le 2 (type_val CS_ROOM_LEAVE_REQ)) ok s s')"
proof -
  let ?m = "word_to_le 2 (type_val CS_ROOM_LEAVE_REQ)"
  have "SendRoomLeave e s = client_SendPacket e ?m 2 s" by (simp add: SendRoomLeave_def typed_array)
  then show ?thesis using client_SendPacket_ok [OF e, of 2 ?m s] by simp
qed

section \<open>Chat\<close>

text \<open>The message of a chat request: the text with its terminator, cut at 256 bytes.\<close>

definition chat_msg :: "bytes \<Rightarrow> nat \<Rightarrow> bytes" where
  "chat_msg chat n = word_to_le 2 (type_val CS_CHAT_REQ) @ word_to_le 2 (of_nat n :: WORD) @ take n chat"

lemma length_chat_msg: "n \<le> length chat \<Longrightarrow> length (chat_msg chat n) = 4 + n"
  by (simp add: chat_msg_def)

lemma uint_of_nat_WORD: "n < 65536 \<Longrightarrow> uint (of_nat n :: WORD) = int n"
  by (simp add: unsigned_of_nat take_bit_nat_eq_self)

lemma unat_of_nat_WORD: "n < 65536 \<Longrightarrow> unat (of_nat n :: WORD) = n"
  by (simp add: unsigned_of_nat take_bit_nat_eq_self)

lemma chat_request_ok:
  assumes t: "cstr chat = Some t" "length t < 65535" and n: "n = min (length t + 1) 256"
  shows "chat_request chat = Some (chat_msg chat n @ replicate (256 - n) 0, of_nat n)" and "n \<le> length chat"
proof -
  let ?c = "(of_nat (length t) :: WORD) + 1"
  show l: "n \<le> length chat" using cstr_SomeD [OF t(1)] n by auto
  have "?c = of_nat (length t + 1)" by simp
  then have c: "uint ?c = int (length t + 1)" using uint_of_nat_WORD [of "length t + 1"] t(2) by (simp add: add.commute)
  have w: "(if uint ?c > MAX_CHAT_LEN then word_of_int MAX_CHAT_LEN else ?c) = of_nat n"
    using c n by auto
  have "uint (of_nat n :: WORD) = int n" using n by (intro uint_of_nat_WORD) simp
  then show "chat_request chat = Some (chat_msg chat n @ replicate (256 - n) 0, of_nat n)"
    using t(1) l w n unfolding chat_request_def
    by (simp only: Option.bind.bind_lunit Let_def w typed_array) (simp add: typed_array chat_msg_def memcpy_def seg_def nat_add_distrib)
qed

lemma SendChat_ok:
  assumes e: "cenv_ok e" and t: "cstr chat = Some t" "length t < 65535" and n: "n = min (length t + 1) 256"
  shows "wp (SendChat e chat s) (\<lambda>(ok, s'). requests e (chat_msg chat n) ok s s')"
proof -
  note r = chat_request_ok [OF t n]
  have "2 + 2 + (of_nat n :: WORD) = of_nat (4 + n)" by simp
  then have u: "unat (2 + 2 + (of_nat n :: WORD)) = 4 + n"
    using n unat_of_nat_WORD [of "4 + n"] by simp
  then show ?thesis
    using client_SendPacket_ok [OF e, of "2 + 2 + of_nat n" "chat_msg chat n @ replicate (256 - n) 0" s] n r(2)
    by (simp add: SendChat_def r(1) length_chat_msg)
qed

section \<open>The tampered chat\<close>

text \<open>A frame whose first cipher byte was flipped.\<close>

definition tampered :: "bytes \<Rightarrow> bytes" where
  "tampered f = f[30 := f ! 30 XOR 1]"

lemma SendChatTampered_ok:
  assumes e: "cenv_ok e" and t: "cstr chat = Some t" "length t < 65535" and n: "n = min (length t + 1) 256"
  shows "wp (SendChatTampered e chat s)
    (\<lambda>(ok, s'). hands_over (tampered (frame (c_ossl e) (c_nonce e (calls s)) (chat_msg chat n))) ok s s' \<and> (flowing e \<longrightarrow> ok))"
proof -
  let ?E = "c_ossl e" and ?nonce = "c_nonce e (calls s)" and ?buf = "c_stack e (calls s) 1024"
  let ?req = "chat_msg chat n @ replicate (256 - n) 0" and ?f = "frame (c_ossl e) (c_nonce e (calls s)) (chat_msg chat n)"
  note r = chat_request_ok [OF t n]
  have lm: "length (chat_msg chat n) = 4 + n" by (rule length_chat_msg [OF r(2)])
  have "2 + 2 + (of_nat n :: WORD) = of_nat (4 + n)" by simp
  then have u: "uint (2 + 2 + (of_nat n :: WORD)) = int (4 + n)" using n uint_of_nat_WORD [of "4 + n"] by simp
  have len: "length ?f = 34 + n" using length_frame [OF cenv_okD(1,2) [OF e]] lm by simp
  have enc: "client_Encode ?E ?nonce ?req (int (4 + n)) ?buf = Some (34 + int n, ?f @ drop (34 + n) ?buf)"
    unfolding client_Encode_eq
    using Encode_frame [OF cenv_okD(1,2) [OF e], of "int (4 + n)" ?req ?buf] n lm cenv_okD(3) [OF e, of _ 1024]
    by (simp only: nat_int) simp
  let ?b = "tampered ?f @ drop (34 + n) ?buf"
  have b: "nth_opt (?f @ drop (34 + n) ?buf) 30 = Some (?f ! 30)"
      "upd_opt (?f @ drop (34 + n) ?buf) 30 (?f ! 30 XOR 1) = Some ?b"
    using len by (simp_all add: nth_opt_def upd_opt_def nth_append list_update_append tampered_def)
  have "wp (SendAll e ?b (34 + int n) (called s)) (\<lambda>(ok, s'). hands_over (tampered ?f) ok (called s) s' \<and> (flowing e \<longrightarrow> ok))"
    by (rule SendAll_ok [OF e]) (use len in \<open>simp_all add: tampered_def\<close>)
  then show ?thesis
    unfolding SendChatTampered_def r(1) Option.bind.bind_lunit prod.case u enc b
    by (auto elim!: wp_mono intro!: hands_over_called)
qed

text \<open>
  The flipped frame is refused when the tag of the changed cipher text is another one: only a collision
  of the truncated HMAC could let it pass.
\<close>

lemma tampered_invalid:
  assumes E: "ossl_ok E" and nonce: "length nonce = 12" and m: "0 < length m" "length m < 65536"
    and c: "c = evp_encrypt E PKT_AES_KEY (frame_iv nonce) m"
    and tag: "frame_tag E (frame_head nonce m @ c) \<noteq> frame_tag E (frame_head nonce m @ c[0 := c ! 0 XOR 1])"
  shows "frame_len (tampered (frame E nonce m)) = length m" and "\<not> frame_valid E (tampered (frame E nonce m))"
    and "length (tampered (frame E nonce m)) = 30 + length m"
proof -
  have h: "length (frame_head nonce m) = 14" using nonce by (simp add: frame_head_def)
  have g: "length (frame_tag E x) = 16" for x using E by (simp add: frame_tag_def ossl_ok_def)
  have lc: "length c = length m" using E c by (simp add: ossl_ok_def)
  have f: "frame E nonce m = frame_head nonce m @ frame_tag E (frame_head nonce m @ c) @ c"
    by (simp add: frame_def c Let_def)
  have t: "tampered (frame E nonce m) = frame_head nonce m @ frame_tag E (frame_head nonce m @ c) @ c[0 := c ! 0 XOR 1]"
    unfolding tampered_def f using h g lc m by (simp add: nth_append list_update_append)
  have "take 2 (frame_head nonce m) = word_to_le 2 (of_nat (length m) :: WORD)" by (simp add: frame_head_def)
  then show l: "frame_len (tampered (frame E nonce m)) = length m"
    using m h by (simp add: frame_len_def t unat_of_nat take_bit_nat_eq_self)
  show "length (tampered (frame E nonce m)) = 30 + length m" using h g lc by (simp add: t)
  show "\<not> frame_valid E (tampered (frame E nonce m))"
    unfolding frame_valid_def l using h g lc tag by (simp add: t)
qed

end
