(* ===== verification/ClientRecv.thy ===== *)
theory ClientRecv
  imports ClientModes ClientSend
begin

text \<open>
  The receive side of the client. Its two packet loops (\<open>DrainRecv\<close> and the interactive receive
  thread) differ in what they do with a packet and when they give up; the locale \<open>frame_reader\<close> states
  what they share and proves once that such a loop returns on every input and reads the stream the way
  \<open>client_parse\<close> does, which on the frames the server can send is the parser of the server.
\<close>

section \<open>The stream as the client reads it\<close>

text \<open>The messages, whether no wrong tag was met, and the bytes left in the buffer.\<close>

function client_parse :: "ossl \<Rightarrow> bytes \<Rightarrow> bytes list \<times> bool \<times> bytes" where
  "client_parse E bs =
     (if length bs < 30 \<or> length bs < 30 + frame_len bs then ([], True, bs)
      else if \<not> frame_valid E bs then ([], False, bs)
      else case client_parse E (drop (30 + frame_len bs) bs) of (ms, ok, r) \<Rightarrow> (frame_plain E bs # ms, ok, r))"
  by pat_completeness auto
termination by (relation "measure (\<lambda>(E, bs). length bs)") auto

declare client_parse.simps [simp del]

text \<open>Where the server's parser asks for more bytes, the client finds the same messages.\<close>

lemma client_parse_eq: "parse E bs = (ms, NeedMore, r) \<Longrightarrow> client_parse E bs = (ms, True, r)"
proof (induction E bs arbitrary: ms rule: client_parse.induct)
  case (1 E bs)
  have p: "parse E bs = (ms, NeedMore, r)" by fact
  show ?case
  proof (cases "length bs < 30 \<or> length bs < 30 + frame_len bs")
    case True
    then have "ms = []" "r = bs" using p by (subst (asm) parse.simps, auto split: if_splits)+
    with True show ?thesis by (subst client_parse.simps) simp
  next
    case False
    with p have v: "frame_valid E bs" by (subst (asm) parse.simps) (auto split: if_splits)
    from False v p obtain ms' where "parse E (drop (30 + frame_len bs) bs) = (ms', NeedMore, r)"
        "ms = frame_plain E bs # ms'"
      by (subst (asm) parse.simps) (auto split: if_splits prod.splits)
    with "1.IH" False v show ?thesis by (subst client_parse.simps) simp
  qed
qed

lemma length_frame_plain: "ossl_ok E \<Longrightarrow> 30 + frame_len u \<le> length u \<Longrightarrow> length (frame_plain E u) = frame_len u"
  by (simp add: frame_plain_def ossl_ok_def)

section \<open>Packet loops\<close>

locale frame_reader =
  fixes handle :: "bytes \<Rightarrow> client \<Rightarrow> client option"
    and reject :: "client \<Rightarrow> client"
    and loop :: "cenv \<Rightarrow> bytes \<Rightarrow> int \<Rightarrow> client \<Rightarrow> (bool \<times> bytes \<times> int \<times> client) option"
  assumes handle_defined: "length p = 8192 \<Longrightarrow> handle p s \<noteq> None"
    and loop_eq: "loop e buf used s =
     (if used < 30 then Some (True, buf, used, s)
      else do {
        lb \<leftarrow> mem_read buf 0 2;
        let payloadLen = uint (le_to_word lb :: WORD);
        if used < 30 + payloadLen then Some (True, buf, used, s)
        else do {
          (plainLen, plain) \<leftarrow> client_Decode (c_ossl e) buf (30 + payloadLen) (c_stack e (calls s) 8192);
          if plainLen < 0 then Some (False, buf, used, reject (called s))
          else do {
            s' \<leftarrow> handle plain (called s);
            rest \<leftarrow> mem_read buf (30 + payloadLen) (used - (30 + payloadLen));
            buf' \<leftarrow> memcpy buf 0 rest 0 (used - (30 + payloadLen));
            loop e buf' (used - (30 + payloadLen)) s' } } })"
begin

text \<open>Reading one message: the array it is decrypted into keeps its old bytes behind the message.\<close>

definition read_one :: "cenv \<Rightarrow> bytes \<Rightarrow> client \<Rightarrow> client option" where
  "read_one e m s = handle (m @ drop (length m) (c_stack e (calls s) 8192)) (called s)"

lemma loop_step:
  assumes e: "cenv_ok e" and buf: "length buf = 8192" "0 \<le> used" "used \<le> 8192"
    and u: "u = take (nat used) buf"
  shows "loop e buf used s =
     (if length u < 30 \<or> length u < 30 + frame_len u then Some (True, buf, used, s)
      else if \<not> frame_valid (c_ossl e) u then Some (False, buf, used, reject (called s))
      else do {
        s' \<leftarrow> read_one e (frame_plain (c_ossl e) u) s;
        loop e (drop (30 + frame_len u) u @ drop (nat used - (30 + frame_len u)) buf) (used - (30 + int (frame_len u))) s' })"
proof (cases "used < 30")
  case True
  then show ?thesis using buf u by (subst loop_eq) auto
next
  case False
  define n where "n = frame_len u"
  have lu: "int (length u) = used" using u buf by simp
  have f: "frame_len buf = n" using frame_len_take [of "nat used" buf] False u n_def by simp
  have len: "mem_read buf 0 2 = Some (take 2 buf)" "uint (le_to_word (take 2 buf) :: WORD) = int n"
    using buf by (simp_all add: mem_read_def seg_def frame_len_def flip: f)
  show ?thesis
  proof (cases "used < 30 + int n")
    case True
    then have "length u < 30 + frame_len u" using lu n_def by linarith
    then show ?thesis using True False len by (subst loop_eq) (simp add: Let_def)
  next
    case big: False
    have nn: "30 + n \<le> length u" using big lu by linarith
    have "u @ drop (nat used) buf = buf" using u by simp
    then have v: "frame_valid (c_ossl e) buf = frame_valid (c_ossl e) u" "frame_plain (c_ossl e) buf = frame_plain (c_ossl e) u"
      using frame_valid_append [of u "c_ossl e" "drop (nat used) buf"] nn n_def by simp_all
    have lp: "length (frame_plain (c_ossl e) u) = n"
      using length_frame_plain [OF cenv_okD(1) [OF e]] nn n_def by simp
    have d: "client_Decode (c_ossl e) buf k (c_stack e (calls s) 8192) =
        (if frame_valid (c_ossl e) u then Some (int n, frame_plain (c_ossl e) u @ drop n (c_stack e (calls s) 8192))
         else Some (- 1, c_stack e (calls s) 8192))" for k
      unfolding client_Decode_eq
      using Decode_eq [OF cenv_okD(1) [OF e], of buf "c_stack e (calls s) 8192" k] v f nn buf lu cenv_okD(3) [OF e] by simp
    let ?k = "used - (30 + int n)"
    have k: "nat ?k = nat used - (30 + n)" "0 \<le> ?k" using big by linarith+
    have rest: "mem_read buf (30 + int n) ?k = Some (drop (30 + n) u)"
      using k big buf nn u by (simp add: mem_read_def seg_def take_drop nat_add_distrib)
    have lr: "int (length (drop (30 + n) u)) = ?k" using nn lu by simp
    have cp: "memcpy buf 0 (drop (30 + n) u) 0 ?k = Some (drop (30 + n) u @ drop (nat used - (30 + n)) buf)"
      using k lr buf by (simp add: memcpy_def seg_all)
    have nl: "\<not> (length u < 30 \<or> length u < 30 + n)" using nn by simp
    show ?thesis
      unfolding n_def [symmetric] read_one_def lp using nl
      by (subst loop_eq) (simp add: len d rest cp False big Let_def)
  qed
qed

text \<open>Every such loop returns and reads its buffer like \<open>client_parse\<close>.\<close>

lemma loop_refines:
  assumes e: "cenv_ok e"
  shows "length buf = 8192 \<Longrightarrow> 0 \<le> used \<Longrightarrow> used \<le> 8192 \<Longrightarrow>
    client_parse (c_ossl e) (take (nat used) buf) = (ms, ok, r) \<Longrightarrow>
    wp (loop e buf used s) (\<lambda>(ok', buf', used', s'). ok' = ok \<and> length buf' = 8192 \<and> 0 \<le> used' \<and> used' \<le> used \<and>
      take (nat used') buf' = r \<and>
      (\<exists>s1. foldM (read_one e) ms s = Some s1 \<and> s' = (if ok then s1 else reject (called s1))))"
proof (induction "nat used" arbitrary: used buf s ms rule: less_induct)
  case less
  let ?u = "take (nat used) buf" and ?E = "c_ossl e"
  let ?n = "30 + frame_len ?u"
  note step = loop_step [OF e less.prems(1-3) refl, of s]
  consider "length ?u < 30 \<or> length ?u < ?n" | "\<not> (length ?u < 30 \<or> length ?u < ?n)" "\<not> frame_valid ?E ?u"
    | "\<not> (length ?u < 30 \<or> length ?u < ?n)" "frame_valid ?E ?u" by blast
  then show ?case
  proof cases
    case 1
    then have "client_parse ?E ?u = ([], True, ?u)" by (subst client_parse.simps) simp
    then show ?thesis using 1 less.prems by (simp add: step)
  next
    case 2
    then have "client_parse ?E ?u = ([], False, ?u)" by (subst client_parse.simps) simp
    then show ?thesis using 2 less.prems by (simp add: step)
  next
    case 3
    let ?k = "used - (30 + int (frame_len ?u))" and ?b = "drop ?n ?u @ drop (nat used - ?n) buf"
    have k: "nat ?k = nat used - ?n" "0 \<le> ?k" "nat ?k < nat used" using 3 less.prems by auto
    have lb: "length ?b = 8192" "take (nat ?k) ?b = drop ?n ?u" using less.prems k by auto
    obtain ms' where p: "client_parse ?E (drop ?n ?u) = (ms', ok, r)" "ms = frame_plain ?E ?u # ms'"
      using 3 less.prems(4) by (subst (asm) client_parse.simps) (auto split: prod.splits)
    have "length (frame_plain ?E ?u) = frame_len ?u"
      by (rule length_frame_plain [OF cenv_okD(1) [OF e]]) (use 3 in linarith)
    then have "length (frame_plain ?E ?u @ drop (length (frame_plain ?E ?u)) (c_stack e (calls s) 8192)) = 8192"
      using cenv_okD(3) [OF e] 3 less.prems by (simp, linarith)
    from handle_defined [OF this] obtain s1 where s1: "read_one e (frame_plain ?E ?u) s = Some s1"
      unfolding read_one_def by blast
    have "wp (loop e ?b ?k s1) (\<lambda>(ok', buf', used', s'). ok' = ok \<and> length buf' = 8192 \<and> 0 \<le> used' \<and> used' \<le> ?k \<and>
      take (nat used') buf' = r \<and> (\<exists>s2. foldM (read_one e) ms' s1 = Some s2 \<and> s' = (if ok then s2 else reject (called s2))))"
      by (rule less.hyps) (use k lb p less.prems in simp_all)
    moreover have "loop e buf used s = loop e ?b ?k s1" using 3 step s1 by simp
    moreover have "foldM (read_one e) ms s = foldM (read_one e) ms' s1" using p(2) s1 by simp
    ultimately show ?thesis by (auto elim!: wp_mono)
  qed
qed

end

section \<open>The two loops of the client\<close>

lemma show_text_defined:
  "0 \<le> n \<Longrightarrow> n \<le> cap \<Longrightarrow> 0 \<le> off \<Longrightarrow> off + n \<le> int (length p) \<Longrightarrow> show_text p off n cap \<noteq> None"
proof -
  assume a: "0 \<le> n" "n \<le> cap" "0 \<le> off" "off + n \<le> int (length p)"
  then have "drop (nat n) (replicate (nat (cap + 1)) (0 :: byte)) = 0 # replicate (nat (cap + 1) - nat n - 1) 0"
    by (simp flip: replicate_Suc)
  with a show ?thesis by (simp add: show_text_def memcpy_def cstr_def)
qed

lemma show_chat_defined: "length p = 8192 \<Longrightarrow> show_chat p 2 \<noteq> None"
proof -
  assume p: "length p = 8192"
  let ?c = "\<lambda>lb. if uint (le_to_word lb :: WORD) < 256 then uint (le_to_word lb :: WORD) else 256"
  have "0 \<le> ?c lb" "?c lb \<le> 256" for lb by simp_all
  then have "show_text p 36 (?c (seg 34 2 p)) 256 \<noteq> None" by (intro show_text_defined) (use p in \<open>auto intro: order_trans\<close>)
  moreover have "show_text p 2 32 32 \<noteq> None" by (rule show_text_defined) (use p in simp_all)
  ultimately show ?thesis using p by (auto simp: show_chat_def mem_read_def Let_def split: if_splits)
qed

lemma drain_packet_defined: "length p = 8192 \<Longrightarrow> drain_packet v p s \<noteq> None"
proof -
  assume p: "length p = 8192"
  have "show_text p 2 32 32 \<noteq> None" by (rule show_text_defined) (use p in simp_all)
  with show_chat_defined [OF p] p show ?thesis
    by (auto simp: drain_packet_def mem_read_def nth_opt_def Let_def)
qed

lemma int_packet_defined: "length p = 8192 \<Longrightarrow> int_packet p s \<noteq> None"
proof -
  assume p: "length p = 8192"
  have "show_text p 2 32 32 \<noteq> None" by (rule show_text_defined) (use p in simp_all)
  moreover have "\<exists>x. memcpy (replicate 66 0) 0 p 7 64 = Some x \<and> cstr (bwords x) \<noteq> None"
  proof -
    have "replicate 2 0 = ([0, 0] :: bytes)" by (simp add: numeral_2_eq_2)
    then have "bwords (take 64 (drop 7 p) @ replicate 2 0) = bwords (take 64 (drop 7 p)) @ [0]"
      using p bwords_append [of "take 64 (drop 7 p)" "[0, 0]"] by simp
    then show ?thesis using p by (simp add: memcpy_def seg_def cstr_def)
  qed
  ultimately show ?thesis using show_chat_defined [OF p] p
    by (auto simp: int_packet_def mem_read_def nth_opt_def Let_def)
qed

interpretation drain: frame_reader "drain_packet v" "\<lambda>s. s" "\<lambda>e. drain_loop e v" for v
  by unfold_locales (rule drain_packet_defined, assumption, subst drain_loop.simps, rule refl)

interpretation interactive: frame_reader int_packet "\<lambda>s. (print_line MacMismatch s)\<lparr>g_intRunning := False\<rparr>" int_loop
  by unfold_locales (rule int_packet_defined, assumption, subst int_loop.simps, rule refl)

section \<open>\<open>DrainRecv\<close>\<close>

text \<open>The first word of a message.\<close>

definition msg_kind :: "bytes \<Rightarrow> WORD" where
  "msg_kind m = le_to_word (take 2 m)"

text \<open>What the statistics say after \<open>ms\<close> arrived.\<close>

definition tallied :: "bytes list \<Rightarrow> client \<Rightarrow> client \<Rightarrow> bool" where
  "tallied ms s s' \<longleftrightarrow>
     g_recvAnyTotal s' = g_recvAnyTotal s + of_nat (length ms) \<and>
     g_recvChatTotal s' = g_recvChatTotal s + of_nat (length (filter (\<lambda>m. msg_kind m = type_val SC_CHAT_RES) ms)) \<and>
     g_loginSuccess s' = g_loginSuccess s + of_nat (length (filter (\<lambda>m. msg_kind m = type_val SC_LOGIN_RES \<and> m ! 2 = 0) ms)) \<and>
     g_loginFail s' = g_loginFail s + of_nat (length (filter (\<lambda>m. msg_kind m = type_val SC_LOGIN_RES \<and> m ! 2 \<noteq> 0) ms))"

text \<open>What receiving never touches: the connection counts, the sockets, what was sent.\<close>

definition steady :: "client \<Rightarrow> client \<Rightarrow> bool" where
  "steady s s' \<longleftrightarrow> g_connectTotal s' = g_connectTotal s \<and> g_disconnTotal s' = g_disconnTotal s \<and>
     g_aliveBotCount s' = g_aliveBotCount s \<and> open_socks s' = open_socks s \<and> calls s \<le> calls s'"

lemma steady_refl [simp]: "steady s s" "steady s (called s)"
  by (simp_all add: steady_def)

lemma steady_trans: "steady s s1 \<Longrightarrow> steady s1 s2 \<Longrightarrow> steady s s2"
  by (auto simp: steady_def)

lemma steady_hands_over: "hands_over w ok s s' \<Longrightarrow> steady s s'"
  by (auto elim!: hands_overE simp: steady_def)

lemma steady_requests: "requests e m ok s s' \<Longrightarrow> steady s s'"
  by (auto simp: requests_def intro: steady_hands_over)

lemma print_line_simps [simp]:
  "g_recvAnyTotal (print_line l s) = g_recvAnyTotal s" "g_recvChatTotal (print_line l s) = g_recvChatTotal s"
  "g_loginSuccess (print_line l s) = g_loginSuccess s" "g_loginFail (print_line l s) = g_loginFail s"
  "g_connectTotal (print_line l s) = g_connectTotal s" "g_disconnTotal (print_line l s) = g_disconnTotal s"
  "g_aliveBotCount (print_line l s) = g_aliveBotCount s" "open_socks (print_line l s) = open_socks s"
  "calls (print_line l s) = calls s"
  by (simp_all add: print_line_def)

text \<open>The effect of one packet, by its type.\<close>

lemma drain_packet_effect:
  assumes "drain_packet v p s = Some s'"
  defines "ty \<equiv> le_to_word (seg 0 2 p) :: WORD"
  shows "s'\<lparr>printed := []\<rparr> = s\<lparr>g_recvAnyTotal := g_recvAnyTotal s + 1,
      g_recvChatTotal := g_recvChatTotal s + (if ty = 103 then 1 else 0),
      g_loginSuccess := g_loginSuccess s + (if ty = 101 \<and> p ! 2 = 0 then 1 else 0),
      g_loginFail := g_loginFail s + (if ty = 101 \<and> p ! 2 \<noteq> 0 then 1 else 0), printed := []\<rparr>"
proof -
  have r: "mem_read p 0 2 = Some (seg 0 2 p)" using assms(1) by (auto simp: drain_packet_def mem_read_def split: if_splits)
  consider "ty = 101" | "ty = 103" | "ty = 104" | "ty = 105" | "ty \<notin> {101, 103, 104, 105}" by blast
  then show ?thesis using assms(1) r unfolding ty_def
    by cases (auto simp: drain_packet_def nth_opt_def print_line_def bind_eq_Some_conv Let_def split: if_splits)
qed

lemma drain_packet_fields:
  assumes "drain_packet v p s = Some s'"
  defines "ty \<equiv> le_to_word (seg 0 2 p) :: WORD"
  shows "g_recvAnyTotal s' = g_recvAnyTotal s + 1" "g_recvChatTotal s' = g_recvChatTotal s + (if ty = 103 then 1 else 0)"
    "g_loginSuccess s' = g_loginSuccess s + (if ty = 101 \<and> p ! 2 = 0 then 1 else 0)"
    "g_loginFail s' = g_loginFail s + (if ty = 101 \<and> p ! 2 \<noteq> 0 then 1 else 0)" "steady s s'"
proof -
  note eq = drain_packet_effect [OF assms(1)]
  show "g_recvAnyTotal s' = g_recvAnyTotal s + 1" using arg_cong [OF eq, of g_recvAnyTotal] by simp
  show "g_recvChatTotal s' = g_recvChatTotal s + (if ty = 103 then 1 else 0)"
    using arg_cong [OF eq, of g_recvChatTotal] by (simp add: ty_def)
  show "g_loginSuccess s' = g_loginSuccess s + (if ty = 101 \<and> p ! 2 = 0 then 1 else 0)"
    using arg_cong [OF eq, of g_loginSuccess] by (simp add: ty_def)
  show "g_loginFail s' = g_loginFail s + (if ty = 101 \<and> p ! 2 \<noteq> 0 then 1 else 0)"
    using arg_cong [OF eq, of g_loginFail] by (simp add: ty_def)
  show "steady s s'"
    using arg_cong [OF eq, of g_connectTotal] arg_cong [OF eq, of g_disconnTotal] arg_cong [OF eq, of g_aliveBotCount]
      arg_cong [OF eq, of open_socks] arg_cong [OF eq, of calls] by (simp add: steady_def)
qed

lemma drain_packet_tally:
  assumes "drain_packet v p s = Some s'" and "3 \<le> length m" and "p = m @ q"
  shows "tallied [m] s s'"
proof -
  have "seg 0 2 p = take 2 m" "p ! 2 = m ! 2" using assms(2,3) by (simp_all add: seg_def nth_append)
  then show ?thesis using drain_packet_fields [OF assms(1)] by (simp add: tallied_def msg_kind_def)
qed

lemma read_all:
  "foldM (drain.read_one v e) ms s = Some s' \<Longrightarrow> steady s s' \<and> ((\<forall>m \<in> set ms. 3 \<le> length m) \<longrightarrow> tallied ms s s')"
proof (induction ms arbitrary: s)
  case Nil
  then show ?case by (simp add: tallied_def)
next
  case (Cons m ms)
  then obtain s1 where s1: "drain.read_one v e m s = Some s1" "foldM (drain.read_one v e) ms s1 = Some s'"
    by (auto simp: bind_eq_Some_conv)
  have "steady s s1" using drain_packet_fields(5) s1(1) steady_trans steady_refl(2) unfolding drain.read_one_def by blast
  moreover have "3 \<le> length m \<longrightarrow> tallied [m] s s1"
    using drain_packet_tally [OF s1(1) [unfolded drain.read_one_def] _ refl] by (auto simp: tallied_def)
  moreover note Cons.IH [OF s1(2)]
  ultimately show ?case by (auto simp: tallied_def intro: steady_trans)
qed

text \<open>After \<open>recv\<close> stored \<open>bs\<close>, the loop reads the old bytes followed by \<open>bs\<close>.\<close>

lemma drain_recv_data:
  assumes e: "cenv_ok e" and buf: "length buf = 8192" "0 \<le> used" "used \<le> 8192"
    and sel: "0 < c_select e (calls s) t" and rc: "c_recv e (calls s + 1) (8192 - used) = (n, bs)" "0 < n"
    and p: "client_parse (c_ossl e) (take (nat used) buf @ bs) = (ms, ok, r)"
  shows "wp (DrainRecv e buf used 8192 t v s) (\<lambda>(ok', buf', used', s'). ok' = ok \<and> length buf' = 8192 \<and>
    0 \<le> used' \<and> used' \<le> 8192 \<and> take (nat used') buf' = r \<and> calls s < calls s' \<and> steady s s' \<and>
    ((\<forall>m \<in> set ms. 3 \<le> length m) \<longrightarrow> tallied ms s s'))"
proof -
  have n: "n \<le> 8192 - used" "int (length bs) = n" using cenv_okD(8) [OF e _ rc(1)] rc(2) buf by simp_all
  let ?b = "take (nat used) buf @ bs @ drop (nat (used + n)) buf"
  have m: "memcpy buf used bs 0 n = Some ?b" using n buf rc(2) by (simp add: memcpy_def seg_all)
  have "length (take (nat used) buf @ bs) = nat (used + n)" using n buf rc(2) by simp
  then have tk: "take (nat (used + n)) ?b = take (nat used) buf @ bs"
    by (metis append.assoc append_eq_conv_conj)
  have lb: "length ?b = 8192" using memcpy_length [OF m] buf by simp
  let ?s = "called (called s)"
  have eq: "DrainRecv e buf used 8192 t v s = drain_loop e v ?b (used + n) ?s"
    using sel rc by (simp add: DrainRecv_def m)
  have "wp (drain_loop e v ?b (used + n) ?s) (\<lambda>(ok', buf', used', s'). ok' = ok \<and> length buf' = 8192 \<and>
      0 \<le> used' \<and> used' \<le> used + n \<and> take (nat used') buf' = r \<and>
      (\<exists>s1. foldM (drain.read_one v e) ms ?s = Some s1 \<and> s' = (if ok then s1 else called s1)))"
    by (rule drain.loop_refines [OF e lb]) (use n buf rc(2) p tk in simp_all)
  then obtain buf' used' s' s1 where l: "drain_loop e v ?b (used + n) ?s = Some (ok, buf', used', s')" "length buf' = 8192"
      "0 \<le> used'" "used' \<le> used + n" "take (nat used') buf' = r" "foldM (drain.read_one v e) ms ?s = Some s1"
      "s' = (if ok then s1 else called s1)"
    by (auto simp: wp_iff)
  from read_all [OF l(6)] l(7) have "steady ?s s'" "(\<forall>m \<in> set ms. 3 \<le> length m) \<longrightarrow> tallied ms s s'"
    by (auto simp: tallied_def steady_def split: if_splits)
  then show ?thesis using l n eq by (auto simp: steady_def)
qed

lemma DrainRecv_ok:
  assumes e: "cenv_ok e" and buf: "length buf = 8192" "0 \<le> used" "used \<le> 8192"
  shows "wp (DrainRecv e buf used 8192 t v s) (\<lambda>(ok, buf', used', s'). length buf' = 8192 \<and> 0 \<le> used' \<and> used' \<le> 8192 \<and>
    calls s < calls s' \<and> steady s s')"
proof (cases "0 < c_select e (calls s) t \<and> 0 < fst (c_recv e (calls s + 1) (8192 - used))")
  case True
  obtain n bs where rc: "c_recv e (calls s + 1) (8192 - used) = (n, bs)" by (cases "c_recv e (calls s + 1) (8192 - used)")
  obtain ms ok r where p: "client_parse (c_ossl e) (take (nat used) buf @ bs) = (ms, ok, r)" by (metis prod_cases3)
  show ?thesis
    by (rule wp_mono [OF drain_recv_data [OF e buf _ rc _ p]]) (use True rc in auto)
next
  case False
  then show ?thesis using buf
    by (cases "c_recv e (calls s + 1) (8192 - used)") (auto simp: DrainRecv_def steady_def not_less Let_def)
qed

end
