(* ===== verification/ClientBot.thy ===== *)
theory ClientBot
  imports ClientRecv
begin

text \<open>
  The bots of the automatic mode: every cycle is defined whatever the network does, closes the socket
  it opened and keeps the connection counters balanced, and the thread returns once \<open>g_botRunning\<close>
  is cleared.
\<close>

section \<open>Texts\<close>

lemma length_dec: "n < 10 ^ Suc k \<Longrightarrow> length (dec n) \<le> Suc k"
proof (induction k arbitrary: n)
  case 0
  then show ?case by (subst dec.simps) simp
next
  case (Suc k)
  have "n div 10 < 10 ^ Suc k" using Suc.prems by (simp add: less_mult_imp_div_less)
  from Suc.IH [OF this] show ?case by (subst dec.simps) simp
qed

lemma cstr_0_end: "\<exists>t. cstr (xs @ [0]) = Some t \<and> length t \<le> length xs"
  using cstr_SomeD [of "xs @ [0]"] by (fastforce simp: cstr_def)

lemma bot_chat_text:
  assumes "idx < 10 ^ 10" and "k < 10 ^ 10"
  obtains t where "cstr (bot_chat idx k) = Some t" "length t < 65535"
proof -
  have l: "length (dec idx) \<le> 10" "length (dec k) \<le> 10" using assms length_dec [of _ 9] by simp_all
  obtain t where "cstr (bot_chat idx k) = Some t" "length t \<le> length (bot_name idx @ [32, 109, 115, 103, 35] @ dec k)"
    using cstr_0_end [of "bot_name idx @ [32, 109, 115, 103, 35] @ dec k"] by (auto simp: bot_chat_def)
  then show ?thesis using l by (intro that [of t]) (auto simp: bot_name_def dec5_def)
qed

lemma bot_texts: obtains t where "cstr (bot_wname idx) = Some t" and "cstr bot_password = Some [112, 119]"
  using cstr_0_end [of "map (\<lambda>c. ucast c) (bot_name idx)"] that by (auto simp: bot_wname_def bot_password_def cstr_def)

section \<open>One session\<close>

text \<open>The receive buffer of a bot with its fill level.\<close>

definition buffered :: "bytes \<Rightarrow> int \<Rightarrow> bool" where
  "buffered buf used \<longleftrightarrow> length buf = 8192 \<and> 0 \<le> used \<and> used \<le> 8192"

lemma wp_bindI: "wp m P \<Longrightarrow> (\<And>x. P x \<Longrightarrow> wp (f x) Q) \<Longrightarrow> wp (Option.bind m f) Q"
  by (auto elim: wp_mono)

text \<open>Going on after a step that returns a tuple.\<close>

lemma wp_bind2I: "wp m (\<lambda>(a, b). P a b) \<Longrightarrow> (\<And>a b. P a b \<Longrightarrow> wp (f a b) Q) \<Longrightarrow> wp (Option.bind m (\<lambda>(a, b). f a b)) Q"
  by (auto elim!: wp_mono)

lemma wp_bind4I:
  "wp m (\<lambda>(a, b, c, d). P a b c d) \<Longrightarrow> (\<And>a b c d. P a b c d \<Longrightarrow> wp (f a b c d) Q) \<Longrightarrow>
   wp (Option.bind m (\<lambda>(a, b, c, d). f a b c d)) Q"
  by (auto elim!: wp_mono)

lemma drain_steady:
  assumes "cenv_ok e" and "buffered buf used"
  shows "wp (DrainRecv e buf used 8192 t v s) (\<lambda>(ok, buf', used', s'). buffered buf' used' \<and> calls s < calls s' \<and> steady s s')"
  by (rule wp_mono [OF DrainRecv_ok [OF assms(1)]]) (use assms(2) in \<open>auto simp: buffered_def\<close>)

lemma senders_steady:
  assumes e: "cenv_ok e"
  shows "wp (SendSignUp e (bot_wname idx) bot_password (bot_wname idx) s) (\<lambda>(ok, s'). steady s s')"
    and "wp (SendLogin e (bot_wname idx) bot_password s) (\<lambda>(ok, s'). steady s s')"
    and "wp (SendRoomEnter e r s) (\<lambda>(ok, s'). steady s s')"
    and "wp (SendRoomLeave e s) (\<lambda>(ok, s'). steady s s')"
proof -
  obtain t where t: "cstr (bot_wname idx) = Some t" "cstr bot_password = Some [112, 119]" by (rule bot_texts)
  show "wp (SendSignUp e (bot_wname idx) bot_password (bot_wname idx) s) (\<lambda>(ok, s'). steady s s')"
    by (rule SendSignUp_ok [OF e t t(1)]) (auto elim!: wp_mono intro: steady_requests)
  show "wp (SendLogin e (bot_wname idx) bot_password s) (\<lambda>(ok, s'). steady s s')"
    by (rule SendLogin_ok [OF e t]) (auto elim!: wp_mono intro: steady_requests)
  show "wp (SendRoomEnter e r s) (\<lambda>(ok, s'). steady s s')"
    by (rule wp_mono [OF SendRoomEnter_ok [OF e]]) (auto intro: steady_requests)
  show "wp (SendRoomLeave e s) (\<lambda>(ok, s'). steady s s')"
    by (rule wp_mono [OF SendRoomLeave_ok [OF e]]) (auto intro: steady_requests)
qed

lemma chat_senders_steady:
  assumes e: "cenv_ok e" and i: "idx < 10 ^ 10" "k < 10 ^ 10"
  shows "wp (SendChat e (bot_chat idx k) s) (\<lambda>(ok, s'). steady s s')"
    and "wp (SendChatTampered e (bot_chat idx k) s) (\<lambda>(ok, s'). steady s s')"
proof -
  obtain t where t: "cstr (bot_chat idx k) = Some t" "length t < 65535" by (rule bot_chat_text [OF i])
  show "wp (SendChat e (bot_chat idx k) s) (\<lambda>(ok, s'). steady s s')"
    by (rule wp_mono [OF SendChat_ok [OF e t refl]]) (auto intro: steady_requests)
  show "wp (SendChatTampered e (bot_chat idx k) s) (\<lambda>(ok, s'). steady s s')"
    by (rule wp_mono [OF SendChatTampered_ok [OF e t refl]]) (auto intro: steady_hands_over)
qed

text \<open>What is called between two steady steps.\<close>

lemma steady_called: "steady (called s) s' \<Longrightarrow> steady s s'"
  by (auto simp: steady_def)

lemma steady_counts [simp]:
  "steady s (s'\<lparr>g_tamperSent := a\<rparr>) = steady s s'" "steady s (s'\<lparr>g_sendChatTotal := a\<rparr>) = steady s s'"
  "steady s (s'\<lparr>g_signupSent := a\<rparr>) = steady s s'" "steady (s'\<lparr>g_tamperSent := a\<rparr>) s = steady s' s"
  "steady (s'\<lparr>g_sendChatTotal := a\<rparr>) s = steady s' s" "steady (s'\<lparr>g_signupSent := a\<rparr>) s = steady s' s"
  by (simp_all add: steady_def)

lemma bot_say_steady:
  assumes "cenv_ok e" and "idx < 10 ^ 10" "k < 10 ^ 10"
  shows "wp (bot_say e idx k s) (\<lambda>(ok, s'). steady s s')"
  using chat_senders_steady [OF assms, of "called s"] by (auto simp: bot_say_def elim!: wp_mono dest: steady_called)

lemma chat_loop_ok:
  assumes e: "cenv_ok e" and i: "idx < 10 ^ 10"
  shows "buffered buf used \<Longrightarrow> k + left < 10 ^ 10 \<Longrightarrow>
    wp (chat_loop e idx left k buf used s) (\<lambda>(ok, buf', used', s'). buffered buf' used' \<and> steady s s')"
proof (induction left arbitrary: k buf used s)
  case 0
  then show ?case by simp
next
  case (Suc left)
  have k: "k < 10 ^ 10" using Suc.prems(2) by simp
  have tail: "wp (do { (ok, recvBuf, used, s) \<leftarrow> DrainRecv e buf used 8192 2 False s1;
        if \<not> ok then Some (False, recvBuf, used, s) else chat_loop e idx left (k + 1) recvBuf used (called s) })
      (\<lambda>(ok, buf', used', s'). buffered buf' used' \<and> steady s s')" if q: "steady s s1" for s1
  proof (rule wp_bindI [OF drain_steady [OF e Suc.prems(1)]], clarify)
    fix ok buf' used' s2
    assume d: "buffered buf' used'" "steady s1 s2"
    have "wp (chat_loop e idx left (k + 1) buf' used' (called s2)) (\<lambda>(ok, b, u, s'). buffered b u \<and> steady (called s2) s')"
      by (rule Suc.IH [OF d(1)]) (use Suc.prems in simp)
    then show "wp (if \<not> ok then Some (False, buf', used', s2) else chat_loop e idx left (k + 1) buf' used' (called s2))
        (\<lambda>(ok, buf', used', s'). buffered buf' used' \<and> steady s s')"
      using d steady_trans [OF q d(2)] by (auto elim!: wp_mono dest!: steady_called intro: steady_trans)
  qed
  have say: "wp (bot_say e idx k (called s)) (\<lambda>(ok, s'). steady s s')"
    by (rule wp_mono [OF bot_say_steady [OF e i k]]) (auto dest: steady_called)
  show ?case
  proof (cases "c_running e (calls s)")
    case False
    then show ?thesis using Suc.prems by simp
  next
    case True
    show ?thesis unfolding chat_loop.simps
    proof (simp only: True simp_thms if_False, rule wp_bindI [OF say], simp only: split_paired_all prod.case)
      fix ok s1
      assume "steady s s1"
      with tail [OF this] Suc.prems(1)
      show "wp (if \<not> ok then Some (False, buf, used, s1)
          else do { (ok, recvBuf, used, s) \<leftarrow> DrainRecv e buf used 8192 2 False s1;
            if \<not> ok then Some (False, recvBuf, used, s) else chat_loop e idx left (k + 1) recvBuf used (called s) })
        (\<lambda>(ok, buf', used', s'). buffered buf' used' \<and> steady s s')"
        by (cases ok) simp_all
    qed
  qed
qed

text \<open>The observer listens until the clock or the running flag ends it; the flag is cleared from call \<open>T\<close> on.\<close>

lemma observe_ok:
  assumes e: "cenv_ok e" and T: "\<forall>k \<ge> T. \<not> c_running e k"
  shows "buffered buf used \<Longrightarrow>
    wp (observe e start buf used s) (\<lambda>(ok, buf', used', s'). buffered buf' used' \<and> steady s s')"
proof (induction "T - calls s" arbitrary: buf used s rule: less_induct)
  case less
  show ?case
  proof (cases "c_tick e (calls s) - start < 5000 \<and> c_running e (calls (called s))")
    case False
    then show ?thesis using less.prems by (subst observe.simps) (auto simp: steady_def)
  next
    case True
    then have T': "calls s + 1 < T" using T by (metis called_simps(1) not_le)
    have "wp (Option.bind (DrainRecv e buf used 8192 100 True (called (called s)))
        (\<lambda>(ok, recvBuf, used, s). if ok then observe e start recvBuf used s else Some (False, recvBuf, used, s)))
      (\<lambda>(ok, buf', used', s'). buffered buf' used' \<and> steady s s')"
    proof (rule wp_bindI [OF drain_steady [OF e less.prems]], clarify)
      fix ok buf' used' s2
      assume d: "buffered buf' used'" "calls (called (called s)) < calls s2" "steady (called (called s)) s2"
      have q: "steady s s2" using d(3) by (auto dest!: steady_called)
      have "wp (observe e start buf' used' s2) (\<lambda>(ok, b, u, s'). buffered b u \<and> steady s2 s')"
        by (rule less.hyps [OF _ d(1)]) (use d(2) T' in simp)
      then show "wp (if ok then observe e start buf' used' s2 else Some (False, buf', used', s2))
          (\<lambda>(ok, buf', used', s'). buffered buf' used' \<and> steady s s')"
        using d q by (auto elim!: wp_mono intro: steady_trans)
    qed
    then show ?thesis using True by (subst observe.simps) simp
  qed
qed

lemma bot_talk_ok:
  assumes "cenv_ok e" and "idx < 10 ^ 10" and "\<forall>k \<ge> T. \<not> c_running e k" and "buffered buf used"
  shows "wp (bot_talk e idx buf used s) (\<lambda>(ok, buf', used', s'). buffered buf' used' \<and> steady s s')"
proof -
  have "c_rand e (calls s) mod 100 < 100" by simp
  then have "nat (10 + c_rand e (calls s) mod 100) < 10 ^ 10" by (simp add: nat_less_iff)
  then show ?thesis
    using observe_ok [OF assms(1,3,4), of "c_tick e (calls s)" "called s"]
      chat_loop_ok [OF assms(1,2,4), of 0 "nat (10 + c_rand e (calls s) mod 100)" "called s"]
    by (auto simp: bot_talk_def elim!: wp_mono dest: steady_called)
qed

lemma bot_signup_ok:
  assumes e: "cenv_ok e" and b: "length buf = 8192"
  shows "wp (bot_signup e idx need buf s) (\<lambda>(ok, need', buf', used', s'). buffered buf' used' \<and> steady s s')"
proof -
  have b0: "buffered buf 0" using b by (simp add: buffered_def)
  have "wp (if \<not> ok then Some (False, need, buf, 0, s1)
      else do { (_, recvBuf, used, s) \<leftarrow> DrainRecv e buf 0 8192 50 (idx = 0) (s1\<lparr>g_signupSent := g_signupSent s1 + 1\<rparr>);
        Some (True, False, recvBuf, used, s) }) (\<lambda>(ok, need', buf', used', s'). buffered buf' used' \<and> steady s s')"
    if "steady s s1" for ok s1
    using that b0 drain_steady [OF e b0, of 50 "idx = 0" "s1\<lparr>g_signupSent := g_signupSent s1 + 1\<rparr>"]
    by (auto elim!: wp_mono intro: steady_trans)
  then show ?thesis using b0 unfolding bot_signup_def
    by (cases need) (auto intro!: wp_bindI [OF senders_steady(1) [OF e]] simp del: wp_bind)
qed

lemma bot_stay_ok:
  assumes e: "cenv_ok e" and i: "idx < 10 ^ 10" and T: "\<forall>k \<ge> T. \<not> c_running e k" and b: "buffered buf used"
  shows "wp (bot_stay e idx buf used s) (\<lambda>(ok, buf', s'). length buf' = 8192 \<and> steady s s')"
  unfolding bot_stay_def
proof (rule wp_bind4I [OF drain_steady [OF e b]], rule wp_bind4I [OF bot_talk_ok [OF e i T]])
  fix ok1 buf1 used1 s1 ok2 buf2 used2 s2
  assume d: "buffered buf1 used1 \<and> calls s < calls s1 \<and> steady s s1"
  then show "buffered buf1 used1" by simp
  assume t: "buffered buf2 used2 \<and> steady s1 s2"
  then have "steady s s2" using d by (auto intro: steady_trans)
  then show "wp (if ok2 then do { (_, s) \<leftarrow> SendRoomLeave e s2; Some (True, buf2, s) } else Some (False, buf2, s2))
      (\<lambda>(ok, buf', s'). length buf' = 8192 \<and> steady s s')"
    using t senders_steady(4) [OF e, of s2] by (auto simp: buffered_def elim!: wp_mono intro: steady_trans)
qed

lemma bot_enter_ok:
  assumes e: "cenv_ok e" and i: "idx < 10 ^ 10" and T: "\<forall>k \<ge> T. \<not> c_running e k" and b: "buffered buf used"
  shows "wp (bot_enter e idx buf used s) (\<lambda>(ok, buf', s'). length buf' = 8192 \<and> steady s s')"
  unfolding bot_enter_def
proof (rule wp_bind2I [OF senders_steady(3) [OF e]])
  fix ok s1
  assume "steady (snd (bot_room e idx s)) s1"
  then have q: "steady s s1" by (auto simp: bot_room_def dest: steady_called split: if_splits)
  then show "wp (if \<not> ok then Some (False, buf, s1) else bot_stay e idx buf used s1)
      (\<lambda>(ok, buf', s'). length buf' = 8192 \<and> steady s s')"
    using bot_stay_ok [OF e i T b, of s1] b by (auto simp: buffered_def elim!: wp_mono intro: steady_trans)
qed

lemma bot_session_ok:
  assumes e: "cenv_ok e" and i: "idx < 10 ^ 10" and T: "\<forall>k \<ge> T. \<not> c_running e k" and b: "buffered buf used"
  shows "wp (bot_session e idx buf used s) (\<lambda>(ok, buf', s'). length buf' = 8192 \<and> steady s s')"
  unfolding bot_session_def
proof (rule wp_bind2I [OF senders_steady(2) [OF e]])
  fix ok s1
  assume q: "steady s s1"
  have "wp (do { (_, recvBuf, used, s) \<leftarrow> DrainRecv e buf used 8192 50 (idx = 0) s1; bot_enter e idx recvBuf used s })
      (\<lambda>(ok, buf', s'). length buf' = 8192 \<and> steady s s')"
  proof (rule wp_bind4I [OF drain_steady [OF e b]])
    fix ok' buf2 used2 s2
    assume d: "buffered buf2 used2 \<and> calls s1 < calls s2 \<and> steady s1 s2"
    then have "steady s s2" using q by (auto intro: steady_trans)
    with bot_enter_ok [OF e i T, of buf2 used2 s2] d
    show "wp (bot_enter e idx buf2 used2 s2) (\<lambda>(ok, buf', s'). length buf' = 8192 \<and> steady s s')"
      by (auto elim!: wp_mono intro: steady_trans)
  qed
  with q b show "wp (if \<not> ok then Some (False, buf, s1)
      else do { (_, recvBuf, used, s) \<leftarrow> DrainRecv e buf used 8192 50 (idx = 0) s1; bot_enter e idx recvBuf used s })
      (\<lambda>(ok, buf', s'). length buf' = 8192 \<and> steady s s')"
    by (cases ok) (simp_all add: buffered_def)
qed

section \<open>Cycles\<close>

text \<open>Between cycles: as many disconnects as connects since \<open>s\<close>, no socket kept.\<close>

definition settled :: "client \<Rightarrow> client \<Rightarrow> bool" where
  "settled s s' \<longleftrightarrow> g_connectTotal s' - g_disconnTotal s' = g_connectTotal s - g_disconnTotal s \<and>
     g_aliveBotCount s' = g_aliveBotCount s \<and> open_socks s' = open_socks s \<and> calls s < calls s'"

lemma bot_cycle_ok:
  assumes e: "cenv_ok e" and i: "idx < 10 ^ 10" and T: "\<forall>k \<ge> T. \<not> c_running e k" and b: "length buf = 8192"
  shows "wp (bot_cycle e idx need buf s) (\<lambda>(need', buf', s'). length buf' = 8192 \<and> settled s s')"
proof (cases "c_socket e (calls s) \<and> c_connect e (calls s + 1)")
  case False
  then show ?thesis using b by (auto simp: bot_cycle_def settled_def Let_def)
next
  case True
  define s0 where "s0 = called (called s\<lparr>open_socks := open_socks s + 1\<rparr>)\<lparr>g_connectTotal := g_connectTotal s + 1, outgoing := []\<rparr>"
  obtain ok1 need1 buf1 used1 s1 where s1: "bot_signup e idx need buf s0 = Some (ok1, need1, buf1, used1, s1)"
      "buffered buf1 used1" "steady s0 s1"
    using bot_signup_ok [OF e b, of idx need s0] by (auto elim!: wpE)
  obtain ok2 buf2 s2 where s2: "(if ok1 then bot_session e idx buf1 used1 s1 else Some (False, buf1, s1)) = Some (ok2, buf2, s2)"
      "length buf2 = 8192" "steady s1 s2"
    using bot_session_ok [OF e i T s1(2), of s1] s1(2) by (cases ok1) (auto elim!: wpE simp: buffered_def)
  have q: "steady s0 s2" using s1(3) s2(3) by (rule steady_trans)
  show ?thesis using True s1(1) s2 q
    by (simp add: bot_cycle_def s0_def [symmetric]) (auto simp: settled_def steady_def s0_def Let_def)
qed

lemma bot_loop_ok:
  assumes e: "cenv_ok e" and i: "idx < 10 ^ 10" and T: "\<forall>k \<ge> T. \<not> c_running e k"
  shows "length buf = 8192 \<Longrightarrow> wp (bot_loop e idx need buf s) (settled s)"
proof (induction "T - calls s" arbitrary: need buf s rule: less_induct)
  case less
  show ?case
  proof (cases "c_running e (calls s)")
    case False
    then show ?thesis by (subst bot_loop.simps) (simp add: settled_def)
  next
    case True
    then have T': "calls s < T" using T by (meson not_le)
    obtain need' buf' s' where c: "bot_cycle e idx need buf (called s) = Some (need', buf', s')" "length buf' = 8192"
        "settled (called s) s'"
      using bot_cycle_ok [OF e i T less.prems, of need "called s"] by (auto elim!: wpE)
    have "wp (bot_loop e idx need' buf' s') (settled s')"
      by (rule less.hyps [OF _ c(2)]) (use c(3) T' in \<open>auto simp: settled_def\<close>)
    then show ?thesis using True c by (subst bot_loop.simps) (auto simp: settled_def elim!: wp_mono)
  qed
qed

end
