(* ===== verification/RingBuffer.thy ===== *)
theory RingBuffer
  imports Interfaces
begin

text \<open>
  \<open>CRingBuffer\<close>: the circular receive buffer of a session. The fields and operations are those of
  \<open>CRingBuffer.h\<close> and \<open>CRingBuffer.cpp\<close>; a pointer into \<open>buffer\<close> is its offset. The refinement
  lemmas show that the buffer is a bounded first-in first-out byte stream.
\<close>

section \<open>Definitions\<close>

definition RINGBUFFER_SIZE :: int where
  "RINGBUFFER_SIZE = 4096"

record CRingBuffer =
  maxSize :: int
  rear :: int
  front :: int
  buffer :: bytes

definition CRingBuffer_new :: CRingBuffer where
  "CRingBuffer_new = \<lparr>maxSize = RINGBUFFER_SIZE, rear = 0, front = 0,
     buffer = replicate (nat RINGBUFFER_SIZE) 0\<rparr>"

definition UseSize :: "CRingBuffer \<Rightarrow> int" where
  "UseSize b = (if front b \<le> rear b then rear b - front b else maxSize b - front b + rear b)"

definition FreeSize :: "CRingBuffer \<Rightarrow> int" where
  "FreeSize b = maxSize b - 1 - UseSize b"

definition GetWritePtr :: "CRingBuffer \<Rightarrow> int" where
  "GetWritePtr b = rear b"

definition DirectEnqueueSize :: "CRingBuffer \<Rightarrow> int" where
  "DirectEnqueueSize b =
     (if front b \<le> rear b
      then (if front b = 0 then maxSize b - 1 - rear b else maxSize b - rear b)
      else front b - rear b - 1)"

definition MoveWritePos :: "CRingBuffer \<Rightarrow> int \<Rightarrow> CRingBuffer" where
  "MoveWritePos b sz = b\<lparr>rear := (rear b + sz) smod maxSize b\<rparr>"

definition GetReadPtr :: "CRingBuffer \<Rightarrow> int" where
  "GetReadPtr b = front b"

definition DirectDequeueSize :: "CRingBuffer \<Rightarrow> int" where
  "DirectDequeueSize b = (if front b \<le> rear b then rear b - front b else maxSize b - front b)"

definition MoveReadPos :: "CRingBuffer \<Rightarrow> int \<Rightarrow> CRingBuffer" where
  "MoveReadPos b sz = b\<lparr>front := (front b + sz) smod maxSize b\<rparr>"

definition ring_Clear :: "CRingBuffer \<Rightarrow> CRingBuffer" where
  "ring_Clear b = b\<lparr>rear := 0, front := 0\<rparr>"

text \<open>\<open>Peek\<close> returns the result code and the destination array after the copy.\<close>

definition Peek :: "CRingBuffer \<Rightarrow> bytes \<Rightarrow> int \<Rightarrow> (int \<times> bytes) option" where
  "Peek b dest sz =
     (if UseSize b < sz then Some (0, dest)
      else let direct = DirectDequeueSize b in
        if sz \<le> direct
        then do { d \<leftarrow> memcpy dest 0 (buffer b) (front b) sz; Some (sz, d) }
        else do {
          d \<leftarrow> memcpy dest 0 (buffer b) (front b) direct;
          d' \<leftarrow> memcpy d direct (buffer b) 0 (sz - direct);
          Some (sz, d') })"

definition Read :: "CRingBuffer \<Rightarrow> bytes \<Rightarrow> int \<Rightarrow> (int \<times> bytes \<times> CRingBuffer) option" where
  "Read b dest sz = do {
     (result, d) \<leftarrow> Peek b dest sz;
     Some (result, d, if 0 < result then MoveReadPos b sz else b) }"

text \<open>
  The kernel's side of \<open>WSARecv\<close>: the received bytes are stored at the write pointer that was
  handed to it.
\<close>

definition ring_store :: "CRingBuffer \<Rightarrow> bytes \<Rightarrow> CRingBuffer option" where
  "ring_store b data = do {
     buf \<leftarrow> memcpy (buffer b) (GetWritePtr b) data 0 (int (length data));
     Some (b\<lparr>buffer := buf\<rparr>) }"

section \<open>Invariant and abstraction\<close>

definition ring_wf :: "CRingBuffer \<Rightarrow> bool" where
  "ring_wf b \<longleftrightarrow> 0 < maxSize b \<and> 0 \<le> front b \<and> front b < maxSize b \<and>
     0 \<le> rear b \<and> rear b < maxSize b \<and> int (length (buffer b)) = maxSize b"

text \<open>The buffered bytes, oldest first.\<close>

definition ring_bytes :: "CRingBuffer \<Rightarrow> bytes" where
  "ring_bytes b =
     (if front b \<le> rear b then seg (front b) (rear b - front b) (buffer b)
      else seg (front b) (maxSize b - front b) (buffer b) @ seg 0 (rear b) (buffer b))"

lemma ring_wf_new [simp]: "ring_wf CRingBuffer_new"
  by (simp add: ring_wf_def CRingBuffer_new_def RINGBUFFER_SIZE_def)

lemma ring_wf_Clear [simp]: "ring_wf b \<Longrightarrow> ring_wf (ring_Clear b)"
  by (simp add: ring_wf_def ring_Clear_def)

lemma ring_bytes_Clear [simp]: "ring_bytes (ring_Clear b) = []"
  by (simp add: ring_bytes_def ring_Clear_def)

lemma maxSize_preserved [simp]:
  "maxSize (ring_Clear b) = maxSize b" "maxSize (MoveWritePos b n) = maxSize b"
  "maxSize (MoveReadPos b n) = maxSize b"
  by (simp_all add: ring_Clear_def MoveWritePos_def MoveReadPos_def)

lemma ring_wf_length: "ring_wf b \<Longrightarrow> length (buffer b) = nat (maxSize b)"
  by (auto simp: ring_wf_def)

lemma ring_wf_natE:
  assumes "ring_wf b"
  obtains f r where "front b = int f" "rear b = int r" "maxSize b = int (length (buffer b))"
    "f < length (buffer b)" "r < length (buffer b)" "buffer b \<noteq> []"
proof -
  obtain f r where "front b = int f" "rear b = int r"
    using assms by (metis ring_wf_def nonneg_int_cases)
  with assms show thesis by (intro that [of f r]) (auto simp: ring_wf_def)
qed

lemma UseSize_length: "ring_wf b \<Longrightarrow> UseSize b = int (length (ring_bytes b))"
  by (auto simp: ring_wf_def UseSize_def ring_bytes_def)

lemma UseSize_bounds: "ring_wf b \<Longrightarrow> 0 \<le> UseSize b \<and> UseSize b \<le> maxSize b - 1"
  by (auto simp: ring_wf_def UseSize_def)

lemma DirectEnqueueSize_bounds:
  "ring_wf b \<Longrightarrow> 0 \<le> DirectEnqueueSize b \<and> DirectEnqueueSize b \<le> FreeSize b \<and>
     rear b + DirectEnqueueSize b \<le> maxSize b"
  by (auto simp: ring_wf_def DirectEnqueueSize_def FreeSize_def UseSize_def)

lemma DirectEnqueueSize_0_iff: "ring_wf b \<Longrightarrow> DirectEnqueueSize b = 0 \<longleftrightarrow> FreeSize b = 0"
  by (auto simp: ring_wf_def DirectEnqueueSize_def FreeSize_def UseSize_def)

section \<open>Reading\<close>

lemma ring_bytes_seg_direct:
  assumes wf: "ring_wf b" and n: "0 \<le> n" "n \<le> DirectDequeueSize b"
  shows "seg (front b) n (buffer b) = take (nat n) (ring_bytes b)"
proof (cases "front b \<le> rear b")
  case True
  with n have "nat n \<le> nat (rear b - front b)" by (simp add: DirectDequeueSize_def)
  with True show ?thesis by (simp add: ring_bytes_def seg_def min_absorb1)
next
  case False
  with n have "nat n \<le> nat (maxSize b - front b)" by (simp add: DirectDequeueSize_def)
  moreover have "nat (maxSize b - front b) = length (buffer b) - nat (front b)"
    using wf by (simp add: ring_wf_length) (simp add: ring_wf_def nat_diff_distrib)
  ultimately show ?thesis using False by (simp add: ring_bytes_def seg_def min_absorb1)
qed

lemma ring_bytes_seg_wrapped:
  assumes wf: "ring_wf b" and n: "DirectDequeueSize b < n" "n \<le> UseSize b"
  shows "seg (front b) (DirectDequeueSize b) (buffer b) @ seg 0 (n - DirectDequeueSize b) (buffer b)
     = take (nat n) (ring_bytes b)"
proof -
  have w: "rear b < front b" using n by (auto simp: DirectDequeueSize_def UseSize_def split: if_splits)
  have len: "length (seg (front b) (maxSize b - front b) (buffer b)) = nat (maxSize b - front b)"
    using wf by (simp add: ring_wf_length) (simp add: ring_wf_def nat_diff_distrib)
  have "nat n - nat (maxSize b - front b) = nat (n - (maxSize b - front b))"
    using wf by (subst nat_diff_distrib') (auto simp: ring_wf_def)
  moreover have "nat (n - (maxSize b - front b)) \<le> nat (rear b)"
    using n w by (simp add: UseSize_def DirectDequeueSize_def)
  moreover have "nat (maxSize b - front b) \<le> nat n"
    using n w by (simp add: DirectDequeueSize_def)
  ultimately show ?thesis using w len
    by (simp add: ring_bytes_def DirectDequeueSize_def) (simp add: seg_def min_absorb1)
qed

lemma Peek_ok:
  assumes wf: "ring_wf b" and n: "0 \<le> n" "n \<le> UseSize b" and dest: "n \<le> int (length dest)"
  shows "Peek b dest n = Some (n, take (nat n) (ring_bytes b) @ drop (nat n) dest)"
proof (cases "n \<le> DirectDequeueSize b")
  case True
  with wf have "front b + n \<le> int (length (buffer b))"
    by (auto simp: ring_wf_def DirectDequeueSize_def split: if_splits)
  with True wf n dest show ?thesis
    by (simp add: Peek_def memcpy_def ring_bytes_seg_direct ring_wf_def)
next
  case False
  let ?d = "DirectDequeueSize b"
  have bounds: "0 \<le> ?d" "front b + ?d \<le> maxSize b" "n - ?d \<le> maxSize b"
    using wf n by (auto simp: ring_wf_def DirectDequeueSize_def UseSize_def split: if_splits)
  have len: "length (seg (front b) ?d (buffer b)) = nat ?d"
    using wf bounds by (auto simp: ring_wf_def)
  have "take (nat ?d) (seg (front b) ?d (buffer b) @ drop (nat ?d) dest) =
      seg (front b) ?d (buffer b)"
    using len by simp
  moreover have "drop (nat n) (seg (front b) ?d (buffer b) @ drop (nat ?d) dest) =
      drop (nat n) dest"
    using len False bounds by simp
  ultimately show ?thesis
    using False wf n dest bounds len ring_bytes_seg_wrapped [OF wf, of n]
    by (simp add: Peek_def memcpy_def ring_wf_def) (metis append.assoc)
qed

lemma Peek_short: "UseSize b < n \<Longrightarrow> Peek b dest n = Some (0, dest)"
  by (simp add: Peek_def)

lemma MoveReadPos_wf: "ring_wf b \<Longrightarrow> 0 \<le> n \<Longrightarrow> ring_wf (MoveReadPos b n)"
  by (simp add: ring_wf_def MoveReadPos_def smod_nonneg)

lemma MoveReadPos_bytes:
  assumes wf: "ring_wf b" and n: "0 \<le> n" "n \<le> UseSize b"
  shows "ring_bytes (MoveReadPos b n) = drop (nat n) (ring_bytes b)"
proof -
  obtain f r where b: "front b = int f" "rear b = int r" "maxSize b = int (length (buffer b))"
      "f < length (buffer b)" "r < length (buffer b)" "buffer b \<noteq> []"
    using wf by (rule ring_wf_natE)
  obtain k where k: "n = int k" using n by (metis nonneg_int_cases)
  have smod: "(int f + int k) smod int (length (buffer b)) = int ((f + k) mod length (buffer b))"
    using b by (subst smod_nonneg) (auto simp: zmod_int)
  show ?thesis
  proof (cases "f + k < length (buffer b)")
    case True
    with b k smod n show ?thesis
      by (cases "f \<le> r")
        (simp_all add: MoveReadPos_def ring_bytes_def UseSize_def seg_def drop_take add.commute
           nat_diff_distrib nat_add_distrib)
  next
    case False
    have "(f + k) mod length (buffer b) = f + k - length (buffer b)"
      using False n b k by (auto simp: UseSize_def le_mod_geq split: if_splits)
    with False b k smod n show ?thesis
      by (cases "f \<le> r")
        (simp_all add: MoveReadPos_def ring_bytes_def UseSize_def seg_def drop_take add.commute
           nat_diff_distrib nat_add_distrib)
  qed
qed

lemma Read_ok:
  assumes wf: "ring_wf b" and n: "0 < n" "n \<le> UseSize b" and dest: "n \<le> int (length dest)"
  shows "Read b dest n = Some (n, take (nat n) (ring_bytes b) @ drop (nat n) dest, MoveReadPos b n)"
  using assms by (simp add: Read_def Peek_ok)

interpretation ring: stream_buffer ring_wf ring_bytes UseSize Peek Read
proof unfold_locales
  show "UseSize b = int (length (ring_bytes b))" if "ring_wf b" for b
    using that by (rule UseSize_length)
next
  show "wp (Peek b dest n) (\<lambda>(r, d). r = n \<and> d = take (nat n) (ring_bytes b) @ drop (nat n) dest)"
    if "ring_wf b" "0 < n" "n \<le> UseSize b" "n \<le> int (length dest)" for b n dest
    using that by (simp add: Peek_ok)
next
  show "wp (Read b dest n) (\<lambda>(r, d, b'). r = n \<and> ring_wf b' \<and>
      d = take (nat n) (ring_bytes b) @ drop (nat n) dest \<and>
      ring_bytes b' = drop (nat n) (ring_bytes b))"
    if "ring_wf b" "0 < n" "n \<le> UseSize b" "n \<le> int (length dest)" for b n dest
    using that by (simp add: Read_ok MoveReadPos_wf MoveReadPos_bytes)
qed

section \<open>Writing\<close>

text \<open>A received chunk that fits the free run at the write pointer is appended to the stream.\<close>

lemma ring_store_eq:
  assumes "ring_wf b" and "rear b + int (length data) \<le> maxSize b"
  shows "ring_store b data = Some (b\<lparr>buffer := take (nat (rear b)) (buffer b) @ data @
           drop (nat (rear b) + length data) (buffer b)\<rparr>)"
  using assms
  by (simp add: ring_store_def memcpy_def GetWritePtr_def ring_wf_def seg_all nat_add_distrib)

lemma append_at_rear:
  assumes "f \<le> r" and "r \<le> length xs"
  shows "take (r + length ds - f) (drop f (take r xs @ ds @ ys)) = take (r - f) (drop f xs) @ ds"
  using assms by (simp add: drop_take)

lemma append_wrapped:
  assumes "r + length ds < f" and "f \<le> length xs"
  shows "drop f (take r xs @ ds @ drop (r + length ds) xs) = drop f xs"
    and "take (r + length ds) (take r xs @ ds @ ys) = take r xs @ ds"
  using assms by simp_all

lemma ring_store_MoveWritePos:
  assumes wf: "ring_wf b" and fits: "int (length data) \<le> DirectEnqueueSize b"
  shows "wp (ring_store b data) (\<lambda>b'. ring_wf (MoveWritePos b' (int (length data))) \<and>
     maxSize b' = maxSize b \<and>
     ring_bytes (MoveWritePos b' (int (length data))) = ring_bytes b @ data)"
proof -
  let ?n = "int (length data)"
  obtain f r where fr: "front b = int f" "rear b = int r" and m: "maxSize b = int (length (buffer b))"
      and lt: "f < length (buffer b)" "r < length (buffer b)" "buffer b \<noteq> []"
    using wf by (rule ring_wf_natE)
  have room: "r + length data \<le> length (buffer b)"
    using DirectEnqueueSize_bounds [OF wf] fits fr m by linarith
  have nowrap: "f \<le> r \<Longrightarrow> f = 0 \<Longrightarrow> r + length data < length (buffer b)"
    and wrap: "r < f \<Longrightarrow> r + length data < f"
    using fits fr m by (auto simp: DirectEnqueueSize_def)
  have store: "ring_store b data = Some (b\<lparr>buffer := take r (buffer b) @ data @
      drop (r + length data) (buffer b)\<rparr>)"
    using ring_store_eq [OF wf, of data] fr m room by simp
  have smod: "(int r + ?n) smod maxSize b =
      (if r + length data = length (buffer b) then 0 else int r + ?n)"
  proof -
    have "(int r + ?n) smod maxSize b = int ((r + length data) mod length (buffer b))"
      using lt m by (subst smod_nonneg) (auto simp: zmod_int)
    with room show ?thesis by simp
  qed
  show ?thesis
  proof (cases "r < f")
    case True
    with wrap [OF True] lt m fr smod store room append_wrapped [of r data f "buffer b"] show ?thesis
      by (simp add: ring_wf_def ring_bytes_def MoveWritePos_def seg_def nat_add_distrib)
  next
    case False
    then have fle: "f \<le> r" by simp
    note app = append_at_rear [OF fle, of "buffer b" data]
    show ?thesis
    proof (cases "r + length data = length (buffer b)")
      case True
      then have "0 < f" using nowrap [OF fle] by (cases f) auto
      with True fle lt m fr smod store app [of "[]"] show ?thesis
        by (simp add: ring_wf_def ring_bytes_def MoveWritePos_def seg_def nat_diff_distrib)
    next
      case neq: False
      with fle lt m fr smod store room app show ?thesis
        by (simp add: ring_wf_def ring_bytes_def MoveWritePos_def seg_def nat_diff_distrib
              nat_add_distrib)
    qed
  qed
qed

end
