(* ===== verification/PacketPool.thy ===== *)
theory PacketPool
  imports Packet
begin

text \<open>
  Ownership of packets. \<open>pkt_inv h st\<close> holds when every reference in the multiset \<open>h\<close> is covered by
  a reference count, the pool holds exactly the packets with count zero, once each, and every packet
  is well formed. A reference that is never given back only makes a count too large: the packet is
  lost to the pool, but no packet is reused while somebody still refers to it.
\<close>

definition pkt_inv :: "nat multiset \<Rightarrow> pkt_store \<Rightarrow> bool" where
  "pkt_inv h st \<longleftrightarrow> distinct (pool st) \<and>
     (\<forall>p < length (packets st). packet_wf (packets st ! p) \<and>
        int (count h p) \<le> refCount (packets st ! p) \<and>
        (refCount (packets st ! p) = 0 \<longleftrightarrow> p \<in> set (pool st))) \<and>
     (\<forall>p \<in># h. p < length (packets st)) \<and> (\<forall>p \<in> set (pool st). p < length (packets st))"

text \<open>No reference was lost either: the counts are exact.\<close>

definition pkt_exact :: "nat multiset \<Rightarrow> pkt_store \<Rightarrow> bool" where
  "pkt_exact h st \<longleftrightarrow> pkt_inv h st \<and>
     (\<forall>p < length (packets st). refCount (packets st ! p) = int (count h p))"

lemma pkt_inv_init: "pkt_inv {#} \<lparr>packets = [], pool = []\<rparr>"
  by (simp add: pkt_inv_def)

lemma pkt_inv_bound: "pkt_inv h st \<Longrightarrow> p \<in># h \<Longrightarrow> p < length (packets st)"
  by (auto simp: pkt_inv_def)

lemma pkt_inv_wf: "pkt_inv h st \<Longrightarrow> p < length (packets st) \<Longrightarrow> packet_wf (packets st ! p)"
  by (auto simp: pkt_inv_def)

lemma pkt_inv_pos:
  assumes "pkt_inv h st" and "p \<in># h"
  shows "0 < refCount (packets st ! p)" and "p \<notin> set (pool st)"
proof -
  have p: "p < length (packets st)" using assms by (rule pkt_inv_bound)
  then have "int (count h p) \<le> refCount (packets st ! p)"
      "refCount (packets st ! p) = 0 \<longleftrightarrow> p \<in> set (pool st)"
    using assms(1) by (simp_all add: pkt_inv_def)
  moreover have "0 < int (count h p)" using assms(2) by simp
  ultimately show "0 < refCount (packets st ! p)" "p \<notin> set (pool st)" by linarith+
qed

lemma pkt_inv_mono: "pkt_inv (h + k) st \<Longrightarrow> pkt_inv h st"
  by (fastforce simp: pkt_inv_def)

section \<open>Allocation\<close>

lemma Alloc_pop:
  assumes inv: "pkt_inv h st" and "stack_pop (pool st) = Some (p, ps)"
  shows "p \<notin># h" and "pkt_inv (add_mset p h) (st\<lparr>pool := ps,
     packets := (packets st)[p := (packet_Clear (packets st ! p))\<lparr>refCount := 1\<rparr>]\<rparr>)"
proof -
  have pool: "pool st = p # ps" using assms(2) by (auto simp: stack_pop_def split: list.splits)
  then have p: "p < length (packets st)" "p \<notin> set ps" "refCount (packets st ! p) = 0"
    using inv by (auto simp: pkt_inv_def)
  then have "int (count h p) \<le> 0" using inv by (auto simp: pkt_inv_def)
  then show h: "p \<notin># h" by (simp add: not_in_iff)
  then have "count h p = 0" by (simp add: not_in_iff)
  with inv pool p show "pkt_inv (add_mset p h) (st\<lparr>pool := ps,
      packets := (packets st)[p := (packet_Clear (packets st ! p))\<lparr>refCount := 1\<rparr>]\<rparr>)"
    by (auto simp: pkt_inv_def nth_list_update)
qed

lemma Alloc_new:
  assumes inv: "pkt_inv h st"
  shows "length (packets st) \<notin># h" and "pkt_inv (add_mset (length (packets st)) h)
     (st\<lparr>packets := packets st @ [CPacket_new\<lparr>refCount := 1\<rparr>]\<rparr>)"
proof -
  show h: "length (packets st) \<notin># h" using inv by (auto simp: pkt_inv_def)
  then have "count h (length (packets st)) = 0" by (simp add: not_in_iff)
  moreover have "length (packets st) \<notin> set (pool st)" using inv by (auto simp: pkt_inv_def)
  ultimately show "pkt_inv (add_mset (length (packets st)) h)
      (st\<lparr>packets := packets st @ [CPacket_new\<lparr>refCount := 1\<rparr>]\<rparr>)"
    using inv by (auto simp: pkt_inv_def nth_append less_Suc_eq)
qed

lemma Alloc_ok:
  assumes "pkt_inv h st" and "Alloc st = (p, st')"
  shows "p \<notin># h" and "pkt_inv (add_mset p h) st'" and "payload (packets st' ! p) = []"
    and "\<And>q. q \<noteq> p \<Longrightarrow> q < length (packets st) \<Longrightarrow> packets st' ! q = packets st ! q"
    and "length (packets st) \<le> length (packets st')" and "p < length (packets st')"
    and "writePos (packets st' ! p) = 30"
proof -
  show 1: "p \<notin># h" "pkt_inv (add_mset p h) st'"
    using assms Alloc_pop [OF assms(1)] Alloc_new [OF assms(1)]
    by (auto simp: Alloc_def split: option.splits)
  show p: "p < length (packets st')" using 1(2) by (auto simp: pkt_inv_def)
  then show "payload (packets st' ! p) = []" "length (packets st) \<le> length (packets st')"
      "writePos (packets st' ! p) = 30"
    using assms(2) by (auto simp: Alloc_def packet_Clear_def CPacket_new_def packet_layout payload_def
        split: option.splits)
  show "packets st' ! q = packets st ! q" if "q \<noteq> p" "q < length (packets st)" for q
    using assms(2) that by (auto simp: Alloc_def nth_append split: option.splits)
qed

section \<open>Counting\<close>

lemma AddRef_ok:
  assumes "pkt_inv h st" and "p \<in># h"
  shows "wp (AddRef p st) (pkt_inv (add_mset p h))"
proof -
  have "p < length (packets st)" "0 < refCount (packets st ! p)" "p \<notin> set (pool st)"
    using assms pkt_inv_bound pkt_inv_pos by blast+
  with assms show ?thesis by (auto simp: AddRef_def pkt_inv_def nth_list_update)
qed

lemma Release_ok:
  assumes "pkt_inv (add_mset p h) st"
  shows "wp (Release p st) (pkt_inv h)"
proof -
  have p: "p < length (packets st)" "0 < refCount (packets st ! p)" "p \<notin> set (pool st)"
    using assms pkt_inv_bound pkt_inv_pos by (metis union_single_eq_member)+
  moreover have "int (count h p) + 1 \<le> refCount (packets st ! p)"
    using assms p(1) by (auto simp: pkt_inv_def)
  ultimately show ?thesis
    using assms by (auto simp: Release_def Let_def pkt_inv_def stack_push_def nth_list_update
        split: if_splits)
qed

lemma AddRef_others:
  assumes "AddRef p st = Some st'"
  shows "length (packets st') = length (packets st)"
    and "q < length (packets st) \<Longrightarrow> packets st' ! q = packets st ! q \<or>
      (\<exists>k. packets st' ! q = (packets st ! q)\<lparr>refCount := k\<rparr>)"
  using assms by (auto simp: AddRef_def nth_list_update split: if_splits)

lemma Release_others:
  assumes "Release p st = Some st'"
  shows "length (packets st') = length (packets st)"
    and "q < length (packets st) \<Longrightarrow> packets st' ! q = packets st ! q \<or>
      (\<exists>k. packets st' ! q = (packets st ! q)\<lparr>refCount := k\<rparr>)"
  using assms by (auto simp: Release_def Let_def nth_list_update split: if_splits)

interpretation pkt_refs: refcounted pkt_inv Alloc AddRef Release
  by unfold_locales (auto dest: Alloc_ok AddRef_ok Release_ok)

text \<open>Exact counts stay exact.\<close>

lemma Alloc_exact: "pkt_exact h st \<Longrightarrow> Alloc st = (p, st') \<Longrightarrow> pkt_exact (add_mset p h) st'"
proof -
  assume a: "pkt_exact h st" "Alloc st = (p, st')"
  then have inv: "pkt_inv h st" by (simp add: pkt_exact_def)
  have "count h p = 0" using Alloc_ok(1) [OF inv a(2)] by (simp add: not_in_iff)
  with a Alloc_ok [OF inv a(2)] show ?thesis
    by (auto simp: pkt_exact_def Alloc_def nth_append nth_list_update not_in_iff split: option.splits)
qed

lemma AddRef_exact: "pkt_exact h st \<Longrightarrow> p \<in># h \<Longrightarrow> wp (AddRef p st) (pkt_exact (add_mset p h))"
  using AddRef_ok [of h st p]
  by (auto simp: pkt_exact_def wp_iff AddRef_def nth_list_update split: if_splits)

lemma Release_exact:
  assumes "pkt_exact (add_mset p h) st"
  shows "wp (Release p st) (pkt_exact h)"
proof -
  have "wp (Release p st) (pkt_inv h)" using assms Release_ok by (simp add: pkt_exact_def)
  then obtain st' where st': "Release p st = Some st'" "pkt_inv h st'" by (rule wpE)
  have cnts: "\<forall>q < length (packets st). refCount (packets st ! q) = int (count (add_mset p h) q)"
    using assms by (simp add: pkt_exact_def)
  have "packets st' = (packets st)[p := (packets st ! p)\<lparr>refCount := refCount (packets st ! p) - 1\<rparr>]"
    using st'(1) by (auto simp: Release_def Let_def split: if_splits)
  then have "refCount (packets st' ! q) = int (count h q)" if "q < length (packets st')" for q
    using cnts that by (cases "q = p") auto
  with st' show ?thesis by (simp add: pkt_exact_def)
qed

interpretation pkt_refs_exact: refcounted pkt_exact Alloc AddRef Release
proof unfold_locales
  show "r \<notin># h \<and> pkt_exact (add_mset r h) s'" if "pkt_exact h s" "Alloc s = (r, s')" for h s r s'
    using that Alloc_exact Alloc_ok(1) by (auto simp: pkt_exact_def)
qed (auto dest: AddRef_exact Release_exact)

section \<open>Changing a packet's contents\<close>

lemma on_packet_inv:
  assumes inv: "pkt_inv h st" and p: "p \<in># h"
    and f: "wp (f (packets st ! p)) (\<lambda>q. packet_wf q \<and> refCount q = refCount (packets st ! p) \<and> Q q)"
  shows "wp (on_packet p f st) (\<lambda>st'. pkt_inv h st' \<and> Q (packets st' ! p) \<and>
     length (packets st') = length (packets st) \<and> pool st' = pool st \<and>
     (\<forall>q. q \<noteq> p \<longrightarrow> packets st' ! q = packets st ! q))"
proof -
  have "p < length (packets st)" using inv p by (rule pkt_inv_bound)
  with assms show ?thesis
    by (auto simp: on_packet_def wp_iff pkt_inv_def nth_list_update)
qed

section \<open>Contents of packets\<close>

text \<open>Everything of the packets but their counts: reference counting leaves it alone.\<close>

definition pkt_data :: "pkt_store \<Rightarrow> CPacket list" where
  "pkt_data st = map (\<lambda>p. p\<lparr>refCount := 0\<rparr>) (packets st)"

lemma length_pkt_data [simp]: "length (pkt_data st) = length (packets st)"
  by (simp add: pkt_data_def)

lemma refCount_update_same: "p\<lparr>refCount := 0\<rparr> = q\<lparr>refCount := 0\<rparr> \<Longrightarrow>
   m_pBuffer p = m_pBuffer q \<and> readPos p = readPos q \<and> writePos p = writePos q"
  by (metis CPacket.ext_inject CPacket.surjective CPacket.update_convs(4))

lemma pkt_data_eqD:
  assumes "pkt_data st' = pkt_data st"
  shows "length (packets st') = length (packets st)"
    and "p < length (packets st) \<Longrightarrow> m_pBuffer (packets st' ! p) = m_pBuffer (packets st ! p)"
    and "p < length (packets st) \<Longrightarrow> readPos (packets st' ! p) = readPos (packets st ! p)"
    and "p < length (packets st) \<Longrightarrow> writePos (packets st' ! p) = writePos (packets st ! p)"
proof -
  show len: "length (packets st') = length (packets st)" using assms by (metis length_pkt_data)
  have "(packets st' ! p)\<lparr>refCount := 0\<rparr> = (packets st ! p)\<lparr>refCount := 0\<rparr>"
    if "p < length (packets st)" for p
    using assms that len by (metis (no_types, lifting) nth_map pkt_data_def)
  note e = refCount_update_same [OF this]
  show "m_pBuffer (packets st' ! p) = m_pBuffer (packets st ! p)"
    "readPos (packets st' ! p) = readPos (packets st ! p)"
    "writePos (packets st' ! p) = writePos (packets st ! p)"
    if "p < length (packets st)" using e [OF that] by auto
qed

lemma pkt_data_views:
  assumes "pkt_data st' = pkt_data st" and "p < length (packets st)"
  shows "unread (packets st' ! p) = unread (packets st ! p)"
    and "wire (packets st' ! p) = wire (packets st ! p)"
    and "payload (packets st' ! p) = payload (packets st ! p)"
  using pkt_data_eqD [OF assms(1)] assms(2) by (simp_all add: unread_def wire_def payload_def)

lemma AddRef_data: "AddRef p st = Some st' \<Longrightarrow> pkt_data st' = pkt_data st"
  by (auto simp: AddRef_def pkt_data_def map_update intro!: list_update_same_conv [THEN iffD2]
      split: if_splits)

lemma Release_data: "Release p st = Some st' \<Longrightarrow> pkt_data st' = pkt_data st"
  by (auto simp: Release_def Let_def pkt_data_def map_update
      intro!: list_update_same_conv [THEN iffD2] split: if_splits)

section \<open>Counts that may or may not lose references\<close>

text \<open>
  \<open>leak\<close> says whether references may have been lost. Everything that holds of both versions is
  proved once.
\<close>

definition pkt_ok :: "bool \<Rightarrow> nat multiset \<Rightarrow> pkt_store \<Rightarrow> bool" where
  "pkt_ok leak h st \<longleftrightarrow> (if leak then pkt_inv h st else pkt_exact h st)"

lemma pkt_ok_cases: "pkt_ok True = pkt_inv" "pkt_ok False = pkt_exact"
  by (simp_all add: fun_eq_iff pkt_ok_def)

lemma pkt_ok_inv: "pkt_ok leak h st \<Longrightarrow> pkt_inv h st"
  by (auto simp: pkt_ok_def pkt_exact_def split: if_splits)

lemma pkt_ok_drop: "pkt_ok leak (h + k) st \<Longrightarrow> leak \<or> k = {#} \<Longrightarrow> pkt_ok leak h st"
  using pkt_inv_mono by (auto simp: pkt_ok_def)

interpretation pkts: refcounted "pkt_ok leak" Alloc AddRef Release for leak :: bool
proof unfold_locales
  show "r \<notin># h \<and> pkt_ok leak (add_mset r h) s'" if "pkt_ok leak h s" "Alloc s = (r, s')" for h s r s'
    using that pkt_refs.alloc_ok pkt_refs_exact.alloc_ok by (auto simp: pkt_ok_def split: if_splits)
  show "wp (AddRef r s) (pkt_ok leak (add_mset r h))" if "pkt_ok leak h s" "r \<in># h" for h s r
    using that pkt_refs.acquire_ok pkt_refs_exact.acquire_ok by (cases leak) (auto simp: pkt_ok_cases)
  show "wp (Release r s) (pkt_ok leak h)" if "pkt_ok leak (add_mset r h) s" for h s r
    using that pkt_refs.release_ok pkt_refs_exact.release_ok by (cases leak) (auto simp: pkt_ok_cases)
qed

lemma Release_full:
  "pkt_ok leak (add_mset p h) st \<Longrightarrow>
   wp (Release p st) (\<lambda>st'. pkt_ok leak h st' \<and> pkt_data st' = pkt_data st)"
  using pkts.release_ok [of leak p h st] Release_data [of p st] by (auto simp: wp_iff)

lemma AddRef_full:
  "pkt_ok leak h st \<Longrightarrow> p \<in># h \<Longrightarrow>
   wp (AddRef p st) (\<lambda>st'. pkt_ok leak (add_mset p h) st' \<and> pkt_data st' = pkt_data st)"
  using pkts.acquire_ok [of leak h st p] AddRef_data [of p st] by (auto simp: wp_iff)

lemma on_packet_ok:
  assumes ok: "pkt_ok leak h st" and p: "p \<in># h"
    and f: "wp (f (packets st ! p)) (\<lambda>q. packet_wf q \<and> refCount q = refCount (packets st ! p) \<and> Q q)"
  shows "wp (on_packet p f st) (\<lambda>st'. pkt_ok leak h st' \<and> Q (packets st' ! p) \<and>
     length (packets st') = length (packets st) \<and>
     (\<forall>q. q \<noteq> p \<longrightarrow> packets st' ! q = packets st ! q))"
proof -
  have bound: "p < length (packets st)" using ok p pkt_ok_inv pkt_inv_bound by blast
  have "wp (on_packet p f st) (\<lambda>st'. pkt_inv h st' \<and> (Q (packets st' ! p) \<and>
      refCount (packets st' ! p) = refCount (packets st ! p)) \<and>
      length (packets st') = length (packets st) \<and> pool st' = pool st \<and>
      (\<forall>q. q \<noteq> p \<longrightarrow> packets st' ! q = packets st ! q))"
    by (rule on_packet_inv [OF pkt_ok_inv [OF ok] p]) (rule wp_mono [OF f], auto)
  then show ?thesis
  proof (rule wp_mono)
    fix st'
    assume st': "pkt_inv h st' \<and> (Q (packets st' ! p) \<and>
      refCount (packets st' ! p) = refCount (packets st ! p)) \<and>
      length (packets st') = length (packets st) \<and> pool st' = pool st \<and>
      (\<forall>q. q \<noteq> p \<longrightarrow> packets st' ! q = packets st ! q)"
    then have "refCount (packets st' ! q) = refCount (packets st ! q)" for q by (cases "q = p") auto
    with st' ok show "pkt_ok leak h st' \<and> Q (packets st' ! p) \<and>
        length (packets st') = length (packets st) \<and>
        (\<forall>q. q \<noteq> p \<longrightarrow> packets st' ! q = packets st ! q)"
      by (auto simp: pkt_ok_def pkt_exact_def split: if_splits)
  qed
qed

end
