(* ===== verification/LanServer.thy ===== *)
theory LanServer
  imports RingBuffer PacketPool
begin

text \<open>
  \<open>CLanServer\<close>: sessions, their reference counts and send queues, the receive path and the send
  path of \<open>CLanServer.h\<close> and \<open>CLanServer.cpp\<close>. The class is a record that a derived class extends
  (as \<open>CChatServer\<close> does), and its four pure virtual functions are a record of functions that every
  operation which reaches a virtual call takes as an argument.

  Each operation is one atomic step; the fields of the network engine that stand for the kernel are
  \<open>iocp\<close> (overlapped operations that were accepted and not yet completed), \<open>outbox\<close> (what accepted
  \<open>WSASend\<close> calls were given, per socket) and \<open>wsa_calls\<close> (calls made so far). What Winsock and
  the random generator answer is a parameter.
\<close>

section \<open>Sessions\<close>

definition MAX_SESSION :: int where "MAX_SESSION = 10000"
definition Qsize :: int where "Qsize = 512"
definition Bit_Masking :: "64 word" where "Bit_Masking = 0x0000FFFFFFFFFFFF"
definition INVALID_SOCKET :: SOCKET where "INVALID_SOCKET = - 1"

datatype ioType = RECV | SEND

record Session =
  sock :: SOCKET
  sID :: SessionID
  generation :: LONG
  closeFlag :: int
  recvBuffer :: CRingBuffer
  recvCtx :: ioType
  sendPending :: int
  sendQ :: "nat option list"
  sqHead :: int
  sqTail :: int
  sqCount :: int
  sendWsaBuf :: "(nat option \<times> int) list"
  sendPkts :: "nat option list"
  sentCount :: int
  sendCtx :: ioType
  ioRefCount :: int

definition Session_new :: Session where
  "Session_new = \<lparr>sock = INVALID_SOCKET, sID = 0, generation = 0, closeFlag = 0,
     recvBuffer = CRingBuffer_new, recvCtx = RECV, sendPending = 0,
     sendQ = replicate (nat Qsize) None, sqHead = 0, sqTail = 0, sqCount = 0,
     sendWsaBuf = replicate (nat Qsize) (None, 0), sendPkts = replicate (nat Qsize) None,
     sentCount = 0, sendCtx = RECV, ioRefCount = 0\<rparr>"

record CLanServer =
  sessions :: "Session list"
  indexPool :: "nat list"
  nagle :: bool
  maxSession :: int
  isrun :: bool
  acceptCount :: LONG
  recvCount :: LONG
  sendCount :: LONG
  totalAccept :: LONG
  totalDisconn :: LONG
  checksumMismatchCount :: LONG
  store :: pkt_store
  iocp :: "(nat \<times> ioType) list"
  outbox :: "(SOCKET \<times> bytes) list"
  wsa_calls :: nat

text \<open>The pure virtual functions of the class.\<close>

record 'a vtbl =
  v_OnClientJoin :: "SessionID \<Rightarrow> 'a CLanServer_scheme \<Rightarrow> 'a CLanServer_scheme option"
  v_OnClientLeave :: "SessionID \<Rightarrow> 'a CLanServer_scheme \<Rightarrow> 'a CLanServer_scheme option"
  v_OnRecv :: "SessionID \<Rightarrow> nat \<Rightarrow> 'a CLanServer_scheme \<Rightarrow> 'a CLanServer_scheme option"
  v_OnConnectionRequest :: "bytes \<Rightarrow> int \<Rightarrow> bool"

text \<open>
  Winsock and OpenSSL: whether the \<open>n\<close>-th overlapped call is accepted (it returns 0 or the error
  is \<open>WSA_IO_PENDING\<close>), the \<open>n\<close>-th output of \<open>RAND_bytes\<close>, the cryptographic functions.
\<close>

record sysenv =
  wsa_ok :: "nat \<Rightarrow> bool"
  rand :: "nat \<Rightarrow> bytes"
  crypto :: ossl

definition session :: "'a CLanServer_scheme \<Rightarrow> nat \<Rightarrow> Session option" where
  "session s idx = (if idx < length (sessions s) then Some (sessions s ! idx) else None)"

definition set_session :: "nat \<Rightarrow> Session \<Rightarrow> 'a CLanServer_scheme \<Rightarrow> 'a CLanServer_scheme" where
  "set_session idx se s = s\<lparr>sessions := (sessions s)[idx := se]\<rparr>"

text \<open>\<open>pkt->Release()\<close> through a pointer that may be null.\<close>

definition PRelease :: "nat option \<Rightarrow> pkt_store \<Rightarrow> pkt_store option" where
  "PRelease p st = do { q \<leftarrow> p; Release q st }"

section \<open>Session identifiers\<close>

definition sid_index :: "SessionID \<Rightarrow> nat" where
  "sid_index sid = unat (drop_bit 48 sid)"

definition sid_gen :: "SessionID \<Rightarrow> LONG" where
  "sid_gen sid = ucast (sid AND Bit_Masking)"

text \<open>\<open>((SessionID)idx << 48) | (SessionID)s->generation\<close>; \<open>generation\<close> is a signed 32-bit value.\<close>

definition make_sid :: "nat \<Rightarrow> LONG \<Rightarrow> SessionID" where
  "make_sid idx gen = push_bit 48 (of_nat idx) OR scast gen"

section \<open>Reference counts and slots\<close>

definition IOAddRef :: "nat \<Rightarrow> 'a CLanServer_scheme \<Rightarrow> 'a CLanServer_scheme option" where
  "IOAddRef idx s = do {
     se \<leftarrow> session s idx;
     Some (set_session idx (se\<lparr>ioRefCount := ioRefCount se + 1\<rparr>) s) }"

definition ReleaseSession :: "nat \<Rightarrow> 'a CLanServer_scheme \<Rightarrow> 'a CLanServer_scheme" where
  "ReleaseSession idx s = s\<lparr>indexPool := stack_push idx (indexPool s)\<rparr>"

definition IORelease :: "nat \<Rightarrow> 'a CLanServer_scheme \<Rightarrow> 'a CLanServer_scheme option" where
  "IORelease idx s = do {
     se \<leftarrow> session s idx;
     let n = ioRefCount se - 1;
     let s = set_session idx (se\<lparr>ioRefCount := n\<rparr>) s;
     Some (if n = 0 then ReleaseSession idx s else s) }"

definition InitSession :: "nat \<Rightarrow> SOCKET \<Rightarrow> Session \<Rightarrow> Session" where
  "InitSession idx clientSock se = (let gen = generation se + 1 in
     se\<lparr>sock := clientSock, generation := gen, sID := make_sid idx gen,
        recvBuffer := ring_Clear (recvBuffer se), recvCtx := RECV, sendCtx := SEND,
        sqHead := 0, sqTail := 0, sqCount := 0, sentCount := 0, sendPending := 0,
        ioRefCount := 1, closeFlag := 0\<rparr>)"

definition AllocSession ::
    "SOCKET \<Rightarrow> 'a CLanServer_scheme \<Rightarrow> (nat option \<times> 'a CLanServer_scheme) option" where
  "AllocSession clientSock s = (case stack_pop (indexPool s) of
       None \<Rightarrow> Some (None, s)
     | Some (idx, ps) \<Rightarrow> do {
         se \<leftarrow> session s idx;
         Some (Some idx, set_session idx (InitSession idx clientSock se) (s\<lparr>indexPool := ps\<rparr>)) })"

section \<open>The send queue\<close>

text \<open>
  The circular array \<open>sendQ\<close>: appending at \<open>sqTail\<close> (in \<open>SendPacket\<close>) and taking from \<open>sqHead\<close>
  (in \<open>FlushSend\<close> and \<open>CloseSession\<close>).
\<close>

definition sq_push :: "nat option \<Rightarrow> Session \<Rightarrow> Session option" where
  "sq_push p se = do {
     q \<leftarrow> upd_opt (sendQ se) (sqTail se) p;
     Some (se\<lparr>sendQ := q, sqTail := (sqTail se + 1) smod Qsize, sqCount := sqCount se + 1\<rparr>) }"

definition sq_pop :: "Session \<Rightarrow> (nat option \<times> Session) option" where
  "sq_pop se = do {
     p \<leftarrow> nth_opt (sendQ se) (sqHead se);
     Some (p, se\<lparr>sqHead := (sqHead se + 1) smod Qsize, sqCount := sqCount se - 1\<rparr>) }"

section \<open>Closing a session\<close>

text \<open>\<open>while (sqCount > 0)\<close> in \<open>CloseSession\<close>: drop what is still queued.\<close>

partial_function (option) drain_sendQ ::
    "nat \<Rightarrow> 'a CLanServer_scheme \<Rightarrow> 'a CLanServer_scheme option" where
  "drain_sendQ idx s = do {
     se \<leftarrow> session s idx;
     if sqCount se > 0 then do {
       (p, se') \<leftarrow> sq_pop se;
       st \<leftarrow> PRelease p (store s);
       drain_sendQ idx ((set_session idx se' s)\<lparr>store := st\<rparr>) }
     else Some s }"

definition CloseSession ::
    "'a vtbl \<Rightarrow> nat \<Rightarrow> 'a CLanServer_scheme \<Rightarrow> 'a CLanServer_scheme option" where
  "CloseSession v idx s = do {
     se \<leftarrow> session s idx;
     if closeFlag se \<noteq> 0 then Some s
     else do {
       let s = set_session idx (se\<lparr>closeFlag := 1, sock := INVALID_SOCKET\<rparr>) s;
       s \<leftarrow> drain_sendQ idx s;
       se \<leftarrow> session s idx;
       s \<leftarrow> v_OnClientLeave v (sID se) s;
       let s = s\<lparr>totalDisconn := totalDisconn s + 1\<rparr>;
       IORelease idx s } }"

section \<open>Sending\<close>

text \<open>\<open>while (sqCount > 0 && count < Qsize)\<close> in \<open>FlushSend\<close>: move the queue to the gather array.\<close>

partial_function (option) flush_loop ::
    "pkt_store \<Rightarrow> int \<Rightarrow> Session \<Rightarrow> (int \<times> Session) option" where
  "flush_loop st n se =
     (if sqCount se > 0 \<and> n < Qsize then do {
        (p, se) \<leftarrow> sq_pop se;
        ps \<leftarrow> upd_opt (sendPkts se) n p;
        i \<leftarrow> p;
        pkt \<leftarrow> nth_opt (packets st) (int i);
        bufs \<leftarrow> upd_opt (sendWsaBuf se) n (p, GetPacketSize pkt);
        flush_loop st (n + 1) (se\<lparr>sendPkts := ps, sendWsaBuf := bufs\<rparr>) }
      else Some (n, se))"

text \<open>What a gather array describes.\<close>

definition gather :: "pkt_store \<Rightarrow> (nat option \<times> int) list \<Rightarrow> bytes" where
  "gather st bufs = concat (map (\<lambda>(p, n). case p of
       Some i \<Rightarrow> take (nat n) (m_pBuffer (packets st ! i)) | None \<Rightarrow> []) bufs)"

text \<open>The loop that releases the packets of a finished or refused send.\<close>

definition release_sent ::
    "nat \<Rightarrow> 'a CLanServer_scheme \<Rightarrow> 'a CLanServer_scheme option" where
  "release_sent idx s = do {
     se \<leftarrow> session s idx;
     foldM (\<lambda>i s. do {
         se \<leftarrow> session s idx;
         p \<leftarrow> nth_opt (sendPkts se) (int i);
         st \<leftarrow> PRelease p (store s);
         ps \<leftarrow> upd_opt (sendPkts se) (int i) None;
         Some ((set_session idx (se\<lparr>sendPkts := ps\<rparr>) s)\<lparr>store := st\<rparr>) })
       [0..<nat (sentCount se)] s }"

definition FlushSend ::
    "'a vtbl \<Rightarrow> sysenv \<Rightarrow> nat \<Rightarrow> 'a CLanServer_scheme \<Rightarrow> 'a CLanServer_scheme option" where
  "FlushSend v e idx s = do {
     se \<leftarrow> session s idx;
     let s = set_session idx (se\<lparr>sendPending := 1\<rparr>) s;
     if sendPending se \<noteq> 0 then Some s
     else do {
       (n, se) \<leftarrow> flush_loop (store s) 0 (se\<lparr>sendPending := 1\<rparr>);
       let se = se\<lparr>sentCount := n\<rparr>;
       s \<leftarrow> IOAddRef idx (set_session idx se s);
       let accepted = wsa_ok e (wsa_calls s);
       let s = s\<lparr>wsa_calls := wsa_calls s + 1\<rparr>;
       if accepted then
         Some (s\<lparr>iocp := (idx, sendCtx se) # iocp s,
                 outbox := outbox s @ [(sock se, gather (store s) (take (nat n) (sendWsaBuf se)))]\<rparr>)
       else do {
         s \<leftarrow> release_sent idx s;
         se \<leftarrow> session s idx;
         let s = set_session idx (se\<lparr>sentCount := 0, sendPending := 0\<rparr>) s;
         s \<leftarrow> CloseSession v idx s;
         IORelease idx s } } }"

definition OnSendComplete ::
    "'a vtbl \<Rightarrow> sysenv \<Rightarrow> nat \<Rightarrow> 'a CLanServer_scheme \<Rightarrow> 'a CLanServer_scheme option" where
  "OnSendComplete v e idx s = do {
     s \<leftarrow> release_sent idx s;
     se \<leftarrow> session s idx;
     let s = set_session idx (se\<lparr>sentCount := 0, sendPending := 0\<rparr>) s;
     if sqCount se > 0 then FlushSend v e idx s else Some s }"

definition SendPacket ::
    "'a vtbl \<Rightarrow> sysenv \<Rightarrow> SessionID \<Rightarrow> nat \<Rightarrow> 'a CLanServer_scheme \<Rightarrow>
     (bool \<times> 'a CLanServer_scheme) option" where
  "SendPacket v e sid packet s = (let idx = sid_index sid in
     if int idx < 0 \<or> int idx \<ge> maxSession s then Some (False, s)
     else do {
       se \<leftarrow> session s idx;
       if generation se \<noteq> sid_gen sid then Some (False, s)
       else if closeFlag se \<noteq> 0 then Some (False, s)
       else if sqCount se \<ge> Qsize then do {
         s \<leftarrow> CloseSession v idx s;
         Some (False, s) }
       else do {
         st \<leftarrow> AddRef packet (store s);
         se \<leftarrow> sq_push (Some packet) se;
         let s = (set_session idx se s)\<lparr>store := st, sendCount := sendCount s + 1\<rparr>;
         s \<leftarrow> FlushSend v e idx s;
         Some (True, s) } })"

definition Disconnect ::
    "'a vtbl \<Rightarrow> SessionID \<Rightarrow> 'a CLanServer_scheme \<Rightarrow> (bool \<times> 'a CLanServer_scheme) option" where
  "Disconnect v sid s = (let idx = sid_index sid in
     if int idx < 0 \<or> int idx \<ge> maxSession s then Some (False, s)
     else do {
       se \<leftarrow> session s idx;
       if generation se \<noteq> sid_gen sid then Some (False, s)
       else do { s \<leftarrow> CloseSession v idx s; Some (True, s) } })"

section \<open>Receiving\<close>

definition PostRecv ::
    "'a vtbl \<Rightarrow> sysenv \<Rightarrow> nat \<Rightarrow> 'a CLanServer_scheme \<Rightarrow> 'a CLanServer_scheme option" where
  "PostRecv v e idx s = do {
     s \<leftarrow> IOAddRef idx s;
     se \<leftarrow> session s idx;
     let accepted = wsa_ok e (wsa_calls s);
     let s = s\<lparr>wsa_calls := wsa_calls s + 1\<rparr>;
     if accepted then Some (s\<lparr>iocp := (idx, recvCtx se) # iocp s\<rparr>)
     else do {
       s \<leftarrow> CloseSession v idx s;
       IORelease idx s } }"

text \<open>
  The framing loop of \<open>OnRecvComplete\<close>; the result says whether it returned early. The local
  arrays \<open>header\<close>, \<open>buf\<close> and \<open>plain\<close> are uninitialised in the source: every byte that is used
  is written first, so their initial contents do not matter.
\<close>

partial_function (option) recv_loop ::
    "'a vtbl \<Rightarrow> sysenv \<Rightarrow> nat \<Rightarrow> 'a CLanServer_scheme \<Rightarrow> (bool \<times> 'a CLanServer_scheme) option" where
  "recv_loop v e idx s = do {
     se \<leftarrow> session s idx;
     if UseSize (recvBuffer se) < PKT_HEADER_SIZE then Some (False, s)
     else do {
       (r, header) \<leftarrow> Peek (recvBuffer se) (replicate (nat PKT_HEADER_SIZE) 0) PKT_HEADER_SIZE;
       let len = uint (le_to_word (take 2 header) :: WORD);
       if len > PACKET_BUFFER_SIZE - PKT_HEADER_SIZE then do {
         s \<leftarrow> CloseSession v idx s;
         Some (True, s) }
       else if UseSize (recvBuffer se) < PKT_HEADER_SIZE + len then Some (False, s)
       else do {
         (r, buf, rb) \<leftarrow>
            Read (recvBuffer se) (replicate (nat PACKET_BUFFER_SIZE) 0) (PKT_HEADER_SIZE + len);
         let s = set_session idx (se\<lparr>recvBuffer := rb\<rparr>) s;
         let (p, st) = Alloc (store s);
         let s = s\<lparr>store := st\<rparr>;
         (plainLen, plain) \<leftarrow>
            Decode (crypto e) buf (PKT_HEADER_SIZE + len) (replicate (nat PACKET_BUFFER_SIZE) 0);
         if plainLen < 0 then do {
           let s = s\<lparr>checksumMismatchCount := checksumMismatchCount s + 1\<rparr>;
           st \<leftarrow> Release p (store s);
           s \<leftarrow> CloseSession v idx (s\<lparr>store := st\<rparr>);
           Some (True, s) }
         else do {
           st \<leftarrow> on_packet p (\<lambda>q. AttachRaw q plain plainLen) (store s);
           s \<leftarrow> v_OnRecv v (sID se) p (s\<lparr>store := st\<rparr>);
           let s = s\<lparr>recvCount := recvCount s + 1\<rparr>;
           st \<leftarrow> Release p (store s);
           recv_loop v e idx (s\<lparr>store := st\<rparr>) } } } }"

definition OnRecvComplete ::
    "'a vtbl \<Rightarrow> sysenv \<Rightarrow> nat \<Rightarrow> int \<Rightarrow> 'a CLanServer_scheme \<Rightarrow> 'a CLanServer_scheme option" where
  "OnRecvComplete v e idx bytes s = do {
     se \<leftarrow> session s idx;
     let s = set_session idx (se\<lparr>recvBuffer := MoveWritePos (recvBuffer se) bytes\<rparr>) s;
     (returned, s) \<leftarrow> recv_loop v e idx s;
     if returned then Some s
     else do {
       se \<leftarrow> session s idx;
       if DirectEnqueueSize (recvBuffer se) = 0 then CloseSession v idx s
       else PostRecv v e idx s } }"

section \<open>Threads\<close>

text \<open>
  The kernel completes an outstanding operation; received bytes have been stored at the write
  pointer of the session's ring.
\<close>

definition kernel_complete ::
    "nat \<Rightarrow> ioType \<Rightarrow> bytes \<Rightarrow> 'a CLanServer_scheme \<Rightarrow> 'a CLanServer_scheme option" where
  "kernel_complete idx ty data s = (if (idx, ty) \<in> set (iocp s) then do {
       se \<leftarrow> session s idx;
       rb \<leftarrow> ring_store (recvBuffer se) data;
       Some ((set_session idx (se\<lparr>recvBuffer := rb\<rparr>) s)\<lparr>iocp := remove1 (idx, ty) (iocp s)\<rparr>) }
     else None)"

text \<open>One turn of the loop of \<open>WorkerThread\<close>, with what \<open>GetQueuedCompletionStatus\<close> returned.\<close>

definition WorkerThread_turn ::
    "'a vtbl \<Rightarrow> sysenv \<Rightarrow> bool \<Rightarrow> int \<Rightarrow> nat \<Rightarrow> ioType \<Rightarrow> 'a CLanServer_scheme \<Rightarrow>
     'a CLanServer_scheme option" where
  "WorkerThread_turn v e ok bytes key ctx_type s = (let idx = key - 1 in
     if \<not> ok \<or> bytes = 0 then do {
       s \<leftarrow> CloseSession v idx s;
       IORelease idx s }
     else do {
       s \<leftarrow> (if ctx_type = RECV then OnRecvComplete v e idx bytes s
             else if ctx_type = SEND then OnSendComplete v e idx s else Some s);
       IORelease idx s })"

text \<open>One turn of the loop of \<open>AcceptThread\<close> for an accepted socket.\<close>

definition AcceptThread_turn ::
    "'a vtbl \<Rightarrow> sysenv \<Rightarrow> SOCKET \<Rightarrow> bytes \<Rightarrow> int \<Rightarrow> bool \<Rightarrow> 'a CLanServer_scheme \<Rightarrow>
     'a CLanServer_scheme option" where
  "AcceptThread_turn v e clientSock ip port associated s =
     (if \<not> v_OnConnectionRequest v ip port then Some s
      else do {
        (r, s) \<leftarrow> AllocSession clientSock s;
        case r of
          None \<Rightarrow> Some s
        | Some idx \<Rightarrow>
            if \<not> associated then CloseSession v idx s
            else do {
              let s = s\<lparr>totalAccept := totalAccept s + 1, acceptCount := acceptCount s + 1\<rparr>;
              se \<leftarrow> session s idx;
              s \<leftarrow> v_OnClientJoin v (sID se) s;
              PostRecv v e idx s } })"

definition GetSessionCount :: "'a CLanServer_scheme \<Rightarrow> LONG" where
  "GetSessionCount s = totalAccept s - totalDisconn s"

text \<open>One turn of \<open>StatThread\<close>: the counters it prints and resets.\<close>

definition StatThread_turn ::
    "'a CLanServer_scheme \<Rightarrow> (LONG list) \<times> 'a CLanServer_scheme" where
  "StatThread_turn s =
     ([GetSessionCount s, totalAccept s, totalDisconn s, acceptCount s, recvCount s, sendCount s,
       checksumMismatchCount s],
      s\<lparr>acceptCount := 0, recvCount := 0, sendCount := 0\<rparr>)"

section \<open>Starting and stopping\<close>

text \<open>
  The arguments after \<open>maxSession\<close> say whether \<open>WSAStartup\<close>, \<open>bind\<close> and \<open>listen\<close> succeed. The
  \<open>Session\<close> constructor and the initialisation loop leave every slot as \<open>Session_new\<close>.
\<close>

definition Start ::
    "bool \<Rightarrow> int \<Rightarrow> bool \<Rightarrow> bool \<Rightarrow> bool \<Rightarrow> 'a CLanServer_scheme \<Rightarrow> bool \<times> 'a CLanServer_scheme" where
  "Start ngl maxS wsaUp bound listening s =
     (let s = s\<lparr>nagle := ngl, maxSession := maxS, isrun := True,
                sessions := replicate (nat maxS) Session_new\<rparr> in
      if \<not> wsaUp \<or> \<not> bound \<or> \<not> listening then (False, s)
      else (True, s\<lparr>indexPool := fold stack_push [0..<nat maxS] (indexPool s)\<rparr>))"

text \<open>\<open>Stop\<close> up to the joining of the worker threads.\<close>

definition Stop :: "'a vtbl \<Rightarrow> 'a CLanServer_scheme \<Rightarrow> 'a CLanServer_scheme option" where
  "Stop v s = foldM (CloseSession v) [0..<nat (maxSession s)] (s\<lparr>isrun := False\<rparr>)"

text \<open>
  The end of \<open>Stop\<close>, when the worker threads are gone: the completion port is closed and the array of
  sessions is deleted. \<open>maxSession\<close> keeps its value.
\<close>

definition Stop_end :: "'a CLanServer_scheme \<Rightarrow> 'a CLanServer_scheme" where
  "Stop_end s = s\<lparr>iocp := [], sessions := []\<rparr>"

end
