(* ===== verification/SendQueue.thy ===== *)
theory SendQueue
  imports LanServer
begin

text \<open>
  The send side of one session: the circular array \<open>sendQ\<close> is a bounded first-in first-out queue,
  the loops that empty it move or release exactly what it holds, and the gather array a flush builds
  describes the concatenated frames.
\<close>

section \<open>The queue\<close>

definition sq_wf :: "Session \<Rightarrow> bool" where
  "sq_wf se \<longleftrightarrow> length (sendQ se) = 512 \<and> 0 \<le> sqHead se \<and> sqHead se < 512 \<and>
     0 \<le> sqCount se \<and> sqCount se \<le> 512 \<and> sqTail se = (sqHead se + sqCount se) mod 512"

definition sq_items :: "Session \<Rightarrow> nat option list" where
  "sq_items se = map (\<lambda>i. sendQ se ! nat ((sqHead se + int i) mod 512)) [0..<nat (sqCount se)]"

lemma length_sq_items [simp]: "length (sq_items se) = nat (sqCount se)"
  by (simp add: sq_items_def)

lemma sq_items_pending [simp]: "sq_items (se\<lparr>sendPending := x\<rparr>) = sq_items se"
  by (simp add: sq_items_def)

lemma sq_items_empty: "sqCount se = 0 \<Longrightarrow> sq_items se = []"
  by (simp add: sq_items_def)

lemma sq_wf_empty: "length (sendQ se) = 512 \<Longrightarrow> sqHead se = 0 \<Longrightarrow> sqTail se = 0 \<Longrightarrow> sqCount se = 0 \<Longrightarrow>
   sq_wf se"
  by (simp add: sq_wf_def)

lemma sq_push_ok:
  assumes wf: "sq_wf se" and room: "sqCount se < 512"
  shows "wp (sq_push p se) (\<lambda>se'. sq_wf se' \<and> sq_items se' = sq_items se @ [p] \<and>
     se' = se\<lparr>sendQ := sendQ se', sqTail := sqTail se', sqCount := sqCount se + 1\<rparr>)"
proof -
  define h c where "h = nat (sqHead se)" and "c = nat (sqCount se)"
  then have hc: "sqHead se = int h" "sqCount se = int c" "h < 512" "c < 512"
    using wf room by (auto simp: sq_wf_def)
  let ?t = "(h + c) mod 512"
  have tail: "sqTail se = int ?t" using wf hc by (simp add: sq_wf_def zmod_int)
  have ne: "(h + i) mod 512 \<noteq> ?t" if "i < c" for i
  proof
    assume "(h + i) mod 512 = ?t"
    then have "512 dvd h + c - (h + i)" using that by (metis mod_eq_dvd_iff_nat nat_add_left_cancel_le less_imp_le)
    then show False using that hc by (auto dest: dvd_imp_le)
  qed
  have push: "sq_push p se = Some (se\<lparr>sendQ := (sendQ se)[?t := p],
      sqTail := (int ?t + 1) mod 512, sqCount := int c + 1\<rparr>)"
  proof -
    have "length (sendQ se) = 512" using wf by (simp add: sq_wf_def)
    then have "upd_opt (sendQ se) (int ?t) p = Some ((sendQ se)[?t := p])"
      unfolding upd_opt_def nat_int by simp
    moreover have "(int ?t + 1) smod 512 = (int ?t + 1) mod 512" by (rule smod_nonneg) simp_all
    ultimately show ?thesis unfolding sq_push_def Qsize_def tail hc(2) by simp
  qed
  have "nat ((int h + int i) mod 512) = (h + i) mod 512" for i
    by (simp flip: of_nat_add add: nat_mod_as_int)
  with ne wf hc show ?thesis unfolding push
    by (auto simp: sq_wf_def sq_items_def tail nat_add_distrib mod_simps algebra_simps zmod_int)
      (metis nth_list_update_neq)
qed

lemma sq_pop_ok:
  assumes wf: "sq_wf se" and ne: "0 < sqCount se"
  shows "wp (sq_pop se) (\<lambda>(p, se'). sq_wf se' \<and> sq_items se = p # sq_items se' \<and>
     se' = se\<lparr>sqHead := sqHead se', sqCount := sqCount se - 1\<rparr>)"
proof -
  obtain c where c: "sqCount se = int (Suc c)"
    using ne by (metis gr0_implies_Suc nonneg_int_cases of_nat_0_less_iff order_less_imp_le)
  have head: "0 \<le> sqHead se" "sqHead se < 512" using wf by (auto simp: sq_wf_def)
  have pop: "sq_pop se = Some (sendQ se ! nat (sqHead se),
      se\<lparr>sqHead := (sqHead se + 1) mod 512, sqCount := int c\<rparr>)"
    using wf c by (simp add: sq_pop_def nth_opt_def sq_wf_def Qsize_def smod_nonneg)
  have upt: "[0..<nat (sqCount se)] = 0 # map Suc [0..<c]"
    unfolding c nat_int by (simp add: map_Suc_upt upt_conv_Cons)
  have "sq_items se = sendQ se ! nat (sqHead se) #
      map (\<lambda>i. sendQ se ! nat ((sqHead se + int (Suc i)) mod 512)) [0..<c]"
    using head unfolding sq_items_def upt by simp
  with wf c show ?thesis unfolding pop
    by (simp add: sq_wf_def sq_items_def mod_simps algebra_simps)
qed

interpretation send_queue: fifo sq_wf sq_items "\<lambda>se. \<not> sqCount se \<ge> Qsize" "\<lambda>se. sqCount se > 0"
  sq_push sq_pop "Some 512"
proof unfold_locales
  show "wp (sq_push x q) (\<lambda>q'. sq_wf q' \<and> sq_items q' = sq_items q @ [x])"
    if "sq_wf q" "\<not> sqCount q \<ge> Qsize" for q x
    by (rule wp_mono [OF sq_push_ok]) (use that in \<open>auto simp: Qsize_def\<close>)
  show "wp (sq_pop q) (\<lambda>(x, q'). sq_wf q' \<and> sq_items q = x # sq_items q')"
    if "sq_wf q" "sqCount q > 0" for q
    by (rule wp_mono [OF sq_pop_ok]) (use that in auto)
  show "(sqCount q > 0) = (sq_items q \<noteq> [])" if "sq_wf q" for q
    using length_sq_items [of q] by (cases "sq_items q") auto
  show "(\<not> sqCount q \<ge> Qsize) = (\<forall>c. Some 512 = Some c \<longrightarrow> length (sq_items q) < c)"
    if "sq_wf q" for q
    using that by (auto simp: Qsize_def sq_wf_def)
qed

section \<open>Accessing sessions\<close>

lemma session_set_session [simp]:
  "session (set_session i se s) j = (if i = j \<and> i < length (sessions s) then Some se else session s j)"
  by (auto simp: session_def set_session_def)

lemma session_Some [simp]: "session s i = Some se \<longleftrightarrow> i < length (sessions s) \<and> se = sessions s ! i"
  by (auto simp: session_def)

lemma session_fields [simp]:
  "session (s\<lparr>store := st\<rparr>) i = session s i" "session (s\<lparr>iocp := io\<rparr>) i = session s i"
  "session (s\<lparr>outbox := ob\<rparr>) i = session s i" "session (s\<lparr>wsa_calls := n\<rparr>) i = session s i"
  "session (s\<lparr>indexPool := ps\<rparr>) i = session s i" "session (s\<lparr>totalDisconn := x\<rparr>) i = session s i"
  "session (s\<lparr>totalAccept := x\<rparr>) i = session s i" "session (s\<lparr>acceptCount := x\<rparr>) i = session s i"
  "session (s\<lparr>recvCount := x\<rparr>) i = session s i" "session (s\<lparr>sendCount := x\<rparr>) i = session s i"
  "session (s\<lparr>checksumMismatchCount := x\<rparr>) i = session s i"
  "session (CLanServer.more_update f s) i = session s i"
  by (simp_all add: session_def)

lemma set_session_fields [simp]:
  "sessions (set_session i se s) = (sessions s)[i := se]" "indexPool (set_session i se s) = indexPool s"
  "maxSession (set_session i se s) = maxSession s" "store (set_session i se s) = store s"
  "iocp (set_session i se s) = iocp s" "outbox (set_session i se s) = outbox s"
  "wsa_calls (set_session i se s) = wsa_calls s" "CLanServer.more (set_session i se s) = CLanServer.more s"
  "nagle (set_session i se s) = nagle s" "isrun (set_session i se s) = isrun s"
  "acceptCount (set_session i se s) = acceptCount s" "recvCount (set_session i se s) = recvCount s"
  "sendCount (set_session i se s) = sendCount s" "totalAccept (set_session i se s) = totalAccept s"
  "totalDisconn (set_session i se s) = totalDisconn s"
  "checksumMismatchCount (set_session i se s) = checksumMismatchCount s"
  by (simp_all add: set_session_def)

lemma set_session_twice [simp]: "set_session i x (set_session i y s) = set_session i x s"
  by (simp add: set_session_def)

lemma set_session_store: "set_session i x (s\<lparr>store := st\<rparr>) = (set_session i x s)\<lparr>store := st\<rparr>"
  by (simp add: set_session_def)

lemma set_session_same: "i < length (sessions s) \<Longrightarrow> set_session i (sessions s ! i) s = s"
  by (simp add: set_session_def)

lemma set_session_self:
  "i < length (sessions s) \<Longrightarrow> sessions s ! i = se \<Longrightarrow> (set_session i se s)\<lparr>store := store s\<rparr> = s"
  by (auto simp: set_session_def)

lemma session_at [simp]: "i < length (sessions s) \<Longrightarrow> session s i = Some (sessions s ! i)"
  by simp

lemma session_wp [wp_simps]:
  "wp (session s i) P \<longleftrightarrow> i < length (sessions s) \<and> P (sessions s ! i)"
  by (simp add: session_def)

section \<open>Emptying the queue\<close>

lemma PRelease_full:
  "pkt_ok leak (add_mset p h) st \<Longrightarrow>
   wp (PRelease (Some p) st) (\<lambda>st'. pkt_ok leak h st' \<and> pkt_data st' = pkt_data st)"
  using Release_full by (simp add: PRelease_def)

text \<open>The loop of \<open>CloseSession\<close> ends, and it releases every queued packet once.\<close>

lemma drain_sendQ_ok:
  assumes "i < length (sessions s)" and "sessions s ! i = se" and "sq_wf se"
    and "sq_items se = map Some ps" and "pkt_ok leak (mset ps + h) (store s)"
  shows "wp (drain_sendQ i s) (\<lambda>s'. \<exists>hd st. sq_wf (se\<lparr>sqHead := hd, sqCount := 0\<rparr>) \<and>
     s' = (set_session i (se\<lparr>sqHead := hd, sqCount := 0\<rparr>) s)\<lparr>store := st\<rparr> \<and>
     pkt_ok leak h st \<and> pkt_data st = pkt_data (store s))"
  using assms
proof (induction ps arbitrary: s se)
  case Nil
  then have "sqCount se = 0"
    using length_sq_items [of se] by (auto simp: sq_wf_def)
  then have eq: "se\<lparr>sqCount := 0\<rparr> = se" and stop: "drain_sendQ i s = Some s"
    using Nil.prems(1,2) by (simp, subst drain_sendQ.simps, simp)
  have "s = (set_session i se s)\<lparr>store := store s\<rparr>"
    using Nil.prems(1,2) by (simp add: set_session_self)
  with Nil.prems show ?case unfolding stop wp_Some
    by (intro exI [of _ "sqHead se"] exI [of _ "store s"]) (simp add: eq)
next
  case (Cons p ps)
  have ne: "0 < sqCount se" using Cons.prems(4) length_sq_items [of se] by auto
  obtain q se' where pop: "sq_pop se = Some (q, se')" "sq_wf se'" "sq_items se = q # sq_items se'"
      "se' = se\<lparr>sqHead := sqHead se', sqCount := sqCount se - 1\<rparr>"
    using sq_pop_ok [OF Cons.prems(3) ne] by (auto simp: wp_iff)
  have q: "q = Some p" "sq_items se' = map Some ps" using pop(3) Cons.prems(4) by auto
  obtain st where st: "PRelease q (store s) = Some st" "pkt_ok leak (mset ps + h) st"
      "pkt_data st = pkt_data (store s)"
    using PRelease_full [of leak p "mset ps + h" "store s"] Cons.prems(5) q(1) by (auto simp: wp_iff)
  let ?s = "(set_session i se' s)\<lparr>store := st\<rparr>"
  have "drain_sendQ i s = drain_sendQ i ?s"
    using Cons.prems(1,2) ne pop(1) st(1) by (subst drain_sendQ.simps) simp
  moreover have "wp (drain_sendQ i ?s) (\<lambda>s'. \<exists>hd st'. sq_wf (se'\<lparr>sqHead := hd, sqCount := 0\<rparr>) \<and>
      s' = (set_session i (se'\<lparr>sqHead := hd, sqCount := 0\<rparr>) ?s)\<lparr>store := st'\<rparr> \<and>
      pkt_ok leak h st' \<and> pkt_data st' = pkt_data (store ?s))"
    by (rule Cons.IH) (use Cons.prems pop(2) q st in auto)
  moreover have "se'\<lparr>sqHead := hd, sqCount := 0\<rparr> = se\<lparr>sqHead := hd, sqCount := 0\<rparr>" for hd
    by (subst pop(4)) simp
  ultimately show ?case using st(3) by (simp add: set_session_store)
qed

section \<open>Flushing the queue\<close>

text \<open>The gather array after the loop of \<open>FlushSend\<close>, for the packets \<open>ps\<close>.\<close>

definition gather_of :: "pkt_store \<Rightarrow> nat list \<Rightarrow> (nat option \<times> int) list" where
  "gather_of st ps = map (\<lambda>p. (Some p, GetPacketSize (packets st ! p))) ps"

lemma gather_gather_of: "gather st (gather_of st ps) = concat (map (\<lambda>p. wire (packets st ! p)) ps)"
  by (simp add: gather_def gather_of_def GetPacketSize_def wire_def comp_def)

lemma take_update_Suc: "n < length xs \<Longrightarrow> take (Suc n) (xs[n := x]) = take n xs @ [x]"
  by (simp add: take_Suc_conv_app_nth)

lemma flush_loop_ok:
  assumes "sq_wf se" and "sq_items se = map Some ps" and "length (sendPkts se) = 512"
    and "length (sendWsaBuf se) = 512" and "n + length ps \<le> 512"
    and "\<forall>p \<in> set ps. p < length (packets st)"
  shows "wp (flush_loop st (int n) se) (\<lambda>(m, se'). m = int (n + length ps) \<and> sq_wf se' \<and>
     (\<exists>hd pk bf. se' = se\<lparr>sqHead := hd, sqCount := 0, sendPkts := pk, sendWsaBuf := bf\<rparr> \<and>
       length pk = 512 \<and> length bf = 512 \<and>
       take (n + length ps) pk = take n (sendPkts se) @ map Some ps \<and>
       take (n + length ps) bf = take n (sendWsaBuf se) @ gather_of st ps))"
  using assms
proof (induction ps arbitrary: n se)
  case Nil
  then have "sqCount se = 0" using length_sq_items [of se] by (auto simp: sq_wf_def)
  with Nil show ?case
    by (subst flush_loop.simps)
      (auto simp: gather_of_def intro!: exI [of _ "sqHead se"] exI [of _ "sendPkts se"]
         exI [of _ "sendWsaBuf se"])
next
  case (Cons p ps)
  have ne: "0 < sqCount se" using Cons.prems(2) length_sq_items [of se] by auto
  obtain q se' where pop: "sq_pop se = Some (q, se')" "sq_wf se'" "sq_items se = q # sq_items se'"
      "se' = se\<lparr>sqHead := sqHead se', sqCount := sqCount se - 1\<rparr>"
    using sq_pop_ok [OF Cons.prems(1) ne] by (auto simp: wp_iff)
  have q: "q = Some p" "sq_items se' = map Some ps" using pop(3) Cons.prems(2) by auto
  have pk: "sendPkts se' = sendPkts se" "sendWsaBuf se' = sendWsaBuf se"
    by (subst pop(4), simp)+
  have n: "n < 512" using Cons.prems(5) by simp
  let ?se = "se'\<lparr>sendPkts := (sendPkts se)[n := Some p],
     sendWsaBuf := (sendWsaBuf se)[n := (Some p, GetPacketSize (packets st ! p))]\<rparr>"
  have "flush_loop st (int n) se = flush_loop st (int (Suc n)) ?se"
    using ne n pop(1) q(1) pk Cons.prems(3,4,6)
    by (subst flush_loop.simps) (simp add: Qsize_def upd_opt_def nth_opt_def add.commute)
  moreover have "wp (flush_loop st (int (Suc n)) ?se) (\<lambda>(m, r). m = int (Suc n + length ps) \<and> sq_wf r \<and>
     (\<exists>hd pk bf. r = ?se\<lparr>sqHead := hd, sqCount := 0, sendPkts := pk, sendWsaBuf := bf\<rparr> \<and>
       length pk = 512 \<and> length bf = 512 \<and>
       take (Suc n + length ps) pk = take (Suc n) (sendPkts ?se) @ map Some ps \<and>
       take (Suc n + length ps) bf = take (Suc n) (sendWsaBuf ?se) @ gather_of st ps))"
    by (rule Cons.IH) (use Cons.prems pop(2) q in \<open>auto simp: sq_wf_def sq_items_def\<close>)
  moreover have "?se\<lparr>sqHead := hd, sqCount := 0, sendPkts := pk, sendWsaBuf := bf\<rparr> =
      se\<lparr>sqHead := hd, sqCount := 0, sendPkts := pk, sendWsaBuf := bf\<rparr>" for hd pk bf
    by (subst pop(4)) simp
  ultimately show ?case using Cons.prems(3,4) n
    by (auto simp: wp_iff take_update_Suc gather_of_def)
qed

section \<open>Releasing what was sent\<close>

lemma release_sent_ok:
  assumes i: "i < length (sessions s)" and se: "sessions s ! i = se"
    and pk: "sendPkts se = map Some ps @ rest" and n: "sentCount se = int (length ps)"
    and ok: "pkt_ok leak (mset ps + h) (store s)"
  shows "wp (release_sent i s) (\<lambda>s'. \<exists>st. s' = (set_session i
       (se\<lparr>sendPkts := replicate (length ps) None @ rest\<rparr>) s)\<lparr>store := st\<rparr> \<and>
     pkt_ok leak h st \<and> pkt_data st = pkt_data (store s))"
proof -
  let ?f = "\<lambda>j s. do {
         se \<leftarrow> session s i;
         p \<leftarrow> nth_opt (sendPkts se) (int j);
         st \<leftarrow> PRelease p (store s);
         ps \<leftarrow> upd_opt (sendPkts se) (int j) None;
         Some ((set_session i (se\<lparr>sendPkts := ps\<rparr>) s)\<lparr>store := st\<rparr>) }"
  have "wp (foldM ?f [k..<k + length ps] s) (\<lambda>s'. \<exists>st. s' = (set_session i
       (se\<lparr>sendPkts := replicate (k + length ps) None @ rest\<rparr>) s)\<lparr>store := st\<rparr> \<and>
     pkt_ok leak h st \<and> pkt_data st = pkt_data (store s))"
    if "i < length (sessions s)" and "sessions s ! i = se"
      and "sendPkts se = replicate k None @ map Some ps @ rest" and "pkt_ok leak (mset ps + h) (store s)"
    for k s se ps
    using that
  proof (induction ps arbitrary: s se k)
    case Nil
    then have eq: "se\<lparr>sendPkts := replicate k None @ rest\<rparr> = se" by simp
    have "s = (set_session i se s)\<lparr>store := store s\<rparr>"
      using Nil.prems(1,2) by (simp add: set_session_self)
    with Nil.prems(4) show ?case by (simp add: eq) (rule exI [of _ "store s"], simp)
  next
    case (Cons p ps)
    obtain st where st: "PRelease (Some p) (store s) = Some st" "pkt_ok leak (mset ps + h) st"
        "pkt_data st = pkt_data (store s)"
      using PRelease_full [of leak p "mset ps + h" "store s"] Cons.prems(4) by (auto simp: wp_iff)
    let ?se = "se\<lparr>sendPkts := replicate (Suc k) None @ map Some ps @ rest\<rparr>"
    let ?s = "(set_session i ?se s)\<lparr>store := st\<rparr>"
    have "(replicate k None @ map Some (p # ps) @ rest)[k := None] =
        replicate (Suc k) None @ map Some ps @ rest"
      by (simp add: list_update_append replicate_append_same)
    then have "?f k s = Some ?s"
      using Cons.prems st(1) by (simp add: nth_opt_def upd_opt_def nth_append)
    moreover have "[k..<k + length (p # ps)] = k # [Suc k..<Suc k + length ps]"
      by (simp add: upt_rec)
    moreover have "wp (foldM ?f [Suc k..<Suc k + length ps] ?s) (\<lambda>s'. \<exists>st'. s' = (set_session i
        (?se\<lparr>sendPkts := replicate (Suc k + length ps) None @ rest\<rparr>) ?s)\<lparr>store := st'\<rparr> \<and>
        pkt_ok leak h st' \<and> pkt_data st' = pkt_data (store ?s))"
      by (rule Cons.IH) (use Cons.prems st in auto)
    ultimately show ?case using st(3) by (simp add: set_session_store)
  qed
  from this [of s se 0 ps] i se pk ok have "wp (foldM ?f [0..<length ps] s) (\<lambda>s'. \<exists>st. s' =
      (set_session i (se\<lparr>sendPkts := replicate (length ps) None @ rest\<rparr>) s)\<lparr>store := st\<rparr> \<and>
      pkt_ok leak h st \<and> pkt_data st = pkt_data (store s))"
    by simp
  then show ?thesis using i se n by (simp add: release_sent_def)
qed

end
