(* ===== verification/LanInv.thy ===== *)
theory LanInv
  imports SendQueue
begin

text \<open>
  The invariant of the network engine. Every slot is either in \<open>indexPool\<close> with nothing outstanding,
  or in use with \<open>ioRefCount\<close> equal to one reference for being open plus one per outstanding
  overlapped operation plus the references threads hold; and every packet a session queues or sends
  is covered by a reference count. The operations of \<open>CLanServer\<close> keep it, never run into undefined
  behaviour under it, and leave all other sessions alone.
\<close>

section \<open>Sessions\<close>

definition sent :: "Session \<Rightarrow> nat option list" where
  "sent se = take (nat (sentCount se)) (sendPkts se)"

definition session_wf :: "Session \<Rightarrow> bool" where
  "session_wf se \<longleftrightarrow> sq_wf se \<and> None \<notin> set (sq_items se) \<and> ring_wf (recvBuffer se) \<and>
     maxSize (recvBuffer se) = 4096 \<and> length (sendWsaBuf se) = 512 \<and> length (sendPkts se) = 512 \<and>
     0 \<le> sentCount se \<and> sentCount se \<le> 512 \<and> None \<notin> set (sent se)"

text \<open>The packets a session refers to.\<close>

definition se_refs :: "Session \<Rightarrow> nat multiset" where
  "se_refs se = mset (map the (sq_items se)) + mset (map the (sent se))"

text \<open>
  One slot: \<open>R\<close> says that a thread is handling its receive completion (or setting it up), \<open>D\<close> that a
  thread is handling its send completion, \<open>pooled\<close> that it is in \<open>indexPool\<close>; \<open>l\<close> counts the
  references threads hold, \<open>nr\<close> and \<open>ns\<close> the outstanding receives and sends.
\<close>

definition slot_ok ::
    "bool \<Rightarrow> nat \<Rightarrow> bool \<Rightarrow> bool \<Rightarrow> bool \<Rightarrow> nat \<Rightarrow> nat \<Rightarrow> nat \<Rightarrow> Session \<Rightarrow> bool" where
  "slot_ok leak i R D pooled l nr ns se \<longleftrightarrow> session_wf se \<and>
     (closeFlag se \<noteq> 0 \<longrightarrow> sqCount se = 0) \<and>
     (sendPending se = 0 \<longrightarrow> sentCount se = 0 \<and> ns = 0) \<and>
     (if pooled then ioRefCount se = 0 \<and> l = 0 \<and> nr = 0 \<and> ns = 0 \<and> sqCount se = 0 \<and>
        (closeFlag se \<noteq> 0 \<or> generation se = 0) \<and> (leak \<or> sentCount se = 0)
      else sID se = make_sid i (generation se) \<and> recvCtx se = RECV \<and> sendCtx se = SEND \<and>
        ioRefCount se = (if closeFlag se = 0 then 1 else 0) + int l + int nr + int ns \<and>
        0 < ioRefCount se \<and> nr \<le> 1 \<and> ns \<le> 1 \<and> (R \<longrightarrow> nr = 0) \<and> (D \<longrightarrow> ns = 0) \<and>
        (closeFlag se = 0 \<and> \<not> R \<longrightarrow> nr = 1) \<and>
        (closeFlag se = 0 \<and> \<not> D \<longrightarrow> (sendPending se \<noteq> 0 \<longrightarrow> ns = 1) \<and> (0 < sqCount se \<longrightarrow> sendPending se \<noteq> 0)) \<and>
        (leak \<or> D \<or> sentCount se = 0 \<or> ns = 1))"

section \<open>The engine\<close>

definition lan_refs :: "'a CLanServer_scheme \<Rightarrow> nat multiset" where
  "lan_refs s = sum_list (map se_refs (sessions s))"

definition other_refs :: "nat \<Rightarrow> 'a CLanServer_scheme \<Rightarrow> nat multiset" where
  "other_refs i s = sum_list (map se_refs (take i (sessions s))) +
     sum_list (map se_refs (drop (Suc i) (sessions s)))"

definition pending :: "'a CLanServer_scheme \<Rightarrow> nat \<Rightarrow> ioType \<Rightarrow> nat" where
  "pending s i ty = count (mset (iocp s)) (i, ty)"

text \<open>
  \<open>R\<close> and \<open>D\<close>: slots whose receive or send completion is being handled; \<open>L\<close>: slot references that
  threads hold; \<open>H\<close>: packet references outside the sessions. Between turns of the threads \<open>R\<close>, \<open>D\<close>
  and \<open>L\<close> are empty.
\<close>

definition lan_inv ::
    "bool \<Rightarrow> nat set \<Rightarrow> nat set \<Rightarrow> nat multiset \<Rightarrow> nat multiset \<Rightarrow> 'a CLanServer_scheme \<Rightarrow> bool" where
  "lan_inv leak R D L H s \<longleftrightarrow> maxSession s = int (length (sessions s)) \<and> length (sessions s) \<le> 65535 \<and>
     distinct (indexPool s) \<and> (\<forall>i \<in> set (indexPool s). i < length (sessions s)) \<and>
     (\<forall>i \<in># L. i < length (sessions s)) \<and> (\<forall>e \<in> set (iocp s). fst e < length (sessions s)) \<and>
     (\<forall>i < length (sessions s). slot_ok leak i (i \<in> R) (i \<in> D) (i \<in> set (indexPool s)) (count L i)
        (pending s i RECV) (pending s i SEND) (sessions s ! i)) \<and>
     pkt_ok leak (H + lan_refs s) (store s)"

lemma lan_refs_split: "i < length (sessions s) \<Longrightarrow> lan_refs s = se_refs (sessions s ! i) + other_refs i s"
proof -
  assume "i < length (sessions s)"
  then have "sessions s = take i (sessions s) @ sessions s ! i # drop (Suc i) (sessions s)"
    by (rule id_take_nth_drop)
  then have "map se_refs (sessions s) = map se_refs (take i (sessions s)) @
      se_refs (sessions s ! i) # map se_refs (drop (Suc i) (sessions s))"
    by (metis list.simps(9) map_append)
  then show ?thesis unfolding lan_refs_def other_refs_def by (simp only: sum_list.append sum_list.Cons) simp
qed

lemma other_refs_cong: "sessions s' = (sessions s)[i := se] \<Longrightarrow> other_refs i s' = other_refs i s"
  by (simp add: other_refs_def)

lemma lan_inv_slot:
  "lan_inv leak R D L H s \<Longrightarrow> i < length (sessions s) \<Longrightarrow>
   slot_ok leak i (i \<in> R) (i \<in> D) (i \<in> set (indexPool s)) (count L i)
     (pending s i RECV) (pending s i SEND) (sessions s ! i)"
  by (simp add: lan_inv_def)

lemma lan_inv_pkts:
  "lan_inv leak R D L H s \<Longrightarrow> i < length (sessions s) \<Longrightarrow>
   pkt_ok leak (H + (se_refs (sessions s ! i) + other_refs i s)) (store s)"
  by (simp add: lan_inv_def lan_refs_split)

lemma lan_inv_hand: "lan_inv leak R D L H s \<Longrightarrow> i \<in># L \<Longrightarrow> i < length (sessions s) \<and> i \<notin> set (indexPool s)"
  using lan_inv_slot [of leak R D L H s i]
  by (auto simp: lan_inv_def slot_ok_def split: if_splits)

text \<open>A change of slot \<open>i\<close> only: the other slots need not be looked at again.\<close>

lemma lan_inv_change:
  assumes inv: "lan_inv leak R D L H s" and i: "i < length (sessions s)"
    and ss: "sessions s' = (sessions s)[i := se]" and mx: "maxSession s' = maxSession s"
    and pl: "distinct (indexPool s')" "\<And>j. j \<noteq> i \<Longrightarrow> j \<in> set (indexPool s') \<longleftrightarrow> j \<in> set (indexPool s)"
    and RD: "\<And>j. j \<noteq> i \<Longrightarrow> (j \<in> R' \<longleftrightarrow> j \<in> R) \<and> (j \<in> D' \<longleftrightarrow> j \<in> D) \<and> count L' j = count L j"
    and io: "\<And>j ty. j \<noteq> i \<Longrightarrow> pending s' j ty = pending s j ty"
    and slot: "slot_ok leak i (i \<in> R') (i \<in> D') (i \<in> set (indexPool s')) (count L' i)
        (pending s' i RECV) (pending s' i SEND) se"
    and pk: "pkt_ok leak (H' + (se_refs se + other_refs i s)) (store s')"
  shows "lan_inv leak R' D' L' H' s'"
proof -
  have bounds: "j < length (sessions s)" if "j \<in> set (indexPool s')" for j
    using that pl(2) [of j] inv i by (cases "j = i") (auto simp: lan_inv_def)
  have "j < length (sessions s)" if "j \<in># L'" for j
    using that RD [of j] inv i by (cases "j = i") (auto simp: lan_inv_def simp flip: count_greater_zero_iff)
  moreover have "fst e < length (sessions s)" if e: "e \<in> set (iocp s')" for e
  proof (cases "fst e = i")
    case False
    have "0 < pending s' (fst e) (snd e)" using e by (simp add: pending_def)
    then have "0 < pending s (fst e) (snd e)" using io [OF False] by simp
    then have "e \<in> set (iocp s)" by (simp add: pending_def)
    then show ?thesis using inv by (auto simp: lan_inv_def)
  qed (use i in simp)
  moreover have "slot_ok leak j (j \<in> R') (j \<in> D') (j \<in> set (indexPool s')) (count L' j)
      (pending s' j RECV) (pending s' j SEND) (sessions s' ! j)" if "j < length (sessions s)" for j
    using slot lan_inv_slot [OF inv that] i ss pl(2) [of j] RD [of j] io [of j] by (cases "j = i") auto
  moreover have "lan_refs s' = se_refs se + other_refs i s"
    using lan_refs_split [of i s'] i ss other_refs_cong [OF ss] by simp
  ultimately show ?thesis using inv ss mx pl(1) bounds pk by (simp add: lan_inv_def)
qed

text \<open>What an operation on slot \<open>i\<close> leaves as it was.\<close>

definition lan_frame :: "nat \<Rightarrow> 'a CLanServer_scheme \<Rightarrow> 'a CLanServer_scheme \<Rightarrow> bool" where
  "lan_frame i s s' \<longleftrightarrow> maxSession s' = maxSession s \<and> length (sessions s') = length (sessions s) \<and>
     (\<forall>j. j \<noteq> i \<longrightarrow> sessions s' ! j = sessions s ! j \<and>
        (j \<in> set (indexPool s') \<longleftrightarrow> j \<in> set (indexPool s)) \<and> (\<forall>ty. pending s' j ty = pending s j ty)) \<and>
     generation (sessions s' ! i) = generation (sessions s ! i) \<and>
     sID (sessions s' ! i) = sID (sessions s ! i) \<and>
     (closeFlag (sessions s ! i) \<noteq> 0 \<longrightarrow> closeFlag (sessions s' ! i) \<noteq> 0) \<and>
     (closeFlag (sessions s' ! i) = 0 \<longrightarrow> sock (sessions s' ! i) = sock (sessions s ! i)) \<and>
     (i \<in> set (indexPool s') \<longrightarrow> i \<in> set (indexPool s) \<or> closeFlag (sessions s' ! i) \<noteq> 0)"

lemma lan_frame_refl [simp]: "lan_frame i s s"
  by (simp add: lan_frame_def)

lemma lan_frame_trans: "lan_frame i s t \<Longrightarrow> lan_frame i t u \<Longrightarrow> lan_frame i s u"
  by (auto simp: lan_frame_def)

lemma lan_frame_length: "lan_frame i s s' \<Longrightarrow> length (sessions s') = length (sessions s)"
  by (simp add: lan_frame_def)

text \<open>Session identifiers that can have been issued: made for a slot that was used at least once.\<close>

definition used_slot :: "'a CLanServer_scheme \<Rightarrow> nat \<Rightarrow> bool" where
  "used_slot s i \<longleftrightarrow> i \<notin> set (indexPool s) \<or> closeFlag (sessions s ! i) \<noteq> 0"

definition used_sids :: "'a CLanServer_scheme \<Rightarrow> SessionID set" where
  "used_sids s = {sid. (\<exists>i < length (sessions s). \<exists>g. sid = make_sid i g) \<and>
     (sid_index sid < length (sessions s) \<longrightarrow> used_slot s (sid_index sid))}"

lemma lan_frame_used: "lan_frame i s s' \<Longrightarrow> used_sids s \<subseteq> used_sids s'"
proof -
  assume fr: "lan_frame i s s'"
  then have "used_slot s j \<Longrightarrow> used_slot s' j" for j
    unfolding used_slot_def lan_frame_def by fastforce
  then show ?thesis using fr by (auto simp: used_sids_def lan_frame_length)
qed

section \<open>Reference counts of slots\<close>

lemma pending_fields [simp]:
  "pending (set_session i se s) = pending s" "pending (s\<lparr>store := st\<rparr>) = pending s"
  "pending (s\<lparr>indexPool := ps\<rparr>) = pending s" "pending (s\<lparr>outbox := ob\<rparr>) = pending s"
  "pending (s\<lparr>wsa_calls := n\<rparr>) = pending s" "pending (s\<lparr>totalDisconn := x\<rparr>) = pending s"
  "pending (s\<lparr>sendCount := x\<rparr>) = pending s" "pending (s\<lparr>recvCount := x\<rparr>) = pending s"
  "pending (s\<lparr>totalAccept := x\<rparr>) = pending s" "pending (s\<lparr>acceptCount := x\<rparr>) = pending s"
  "pending (s\<lparr>checksumMismatchCount := x\<rparr>) = pending s"
  "pending (CLanServer.more_update f s) = pending s"
  by (simp_all add: pending_def fun_eq_iff)

lemma pending_post [simp]:
  "pending (s\<lparr>iocp := (i, ty) # iocp s\<rparr>) j ty' = (if i = j \<and> ty = ty' then Suc (pending s j ty') else pending s j ty')"
  by (auto simp: pending_def)

lemma se_refs_ioRefCount [simp]: "se_refs (se\<lparr>ioRefCount := n\<rparr>) = se_refs se"
  by (simp add: se_refs_def sq_items_def sent_def)

lemma session_wf_ioRefCount [simp]: "session_wf (se\<lparr>ioRefCount := n\<rparr>) = session_wf se"
  by (simp add: session_wf_def sq_items_def sq_wf_def sent_def)

lemma IOAddRef_ok:
  assumes inv: "lan_inv leak R D L H s" and i: "i < length (sessions s)" "i \<notin> set (indexPool s)"
  shows "wp (IOAddRef i s) (\<lambda>s'. lan_inv leak R D (add_mset i L) H s' \<and> lan_frame i s s' \<and>
     s' = set_session i ((sessions s ! i)\<lparr>ioRefCount := ioRefCount (sessions s ! i) + 1\<rparr>) s)"
proof -
  let ?se = "(sessions s ! i)\<lparr>ioRefCount := ioRefCount (sessions s ! i) + 1\<rparr>"
  have "lan_inv leak R D (add_mset i L) H (set_session i ?se s)"
    by (rule lan_inv_change [OF inv i(1), where se = ?se])
      (use inv i lan_inv_slot [OF inv i(1)] lan_inv_pkts [OF inv i(1)] in
        \<open>auto simp: lan_inv_def slot_ok_def\<close>)
  with i show ?thesis by (simp add: IOAddRef_def lan_frame_def)
qed

text \<open>The last reference returns the slot to the pool, exactly once.\<close>

lemma IORelease_ok:
  assumes inv: "lan_inv leak R D (add_mset i L) H s" and D: "leak \<or> i \<notin> D"
  shows "wp (IORelease i s) (\<lambda>s'. lan_inv leak R D L H s' \<and> lan_frame i s s' \<and>
     (\<exists>n ps. s' = (set_session i ((sessions s ! i)\<lparr>ioRefCount := n\<rparr>) s)\<lparr>indexPool := ps\<rparr>))"
proof -
  have i: "i < length (sessions s)" "i \<notin> set (indexPool s)" using lan_inv_hand [OF inv, of i] by auto
  let ?n = "ioRefCount (sessions s ! i) - 1"
  let ?se = "(sessions s ! i)\<lparr>ioRefCount := ?n\<rparr>"
  note slot = lan_inv_slot [OF inv i(1)]
  have pk: "pkt_ok leak (H + (se_refs ?se + other_refs i s)) (store s)"
    using lan_inv_pkts [OF inv i(1)] by simp
  have dist: "distinct (indexPool s)" using inv by (simp add: lan_inv_def)
  show ?thesis
  proof (cases "?n = 0")
    case True
    let ?s = "(set_session i ?se s)\<lparr>indexPool := i # indexPool s\<rparr>"
    have "lan_inv leak R D L H ?s"
      by (rule lan_inv_change [OF inv i(1), where se = ?se])
        (use True i D slot pk dist in \<open>auto simp: slot_ok_def split: if_splits\<close>)
    moreover have "lan_frame i s ?s"
      using slot True i by (auto simp: lan_frame_def slot_ok_def split: if_splits)
    ultimately show ?thesis using True i
      by (auto simp: IORelease_def ReleaseSession_def stack_push_def)
  next
    case False
    have "lan_inv leak R D L H (set_session i ?se s)"
      by (rule lan_inv_change [OF inv i(1), where se = ?se])
        (use False i slot pk dist in \<open>auto simp: slot_ok_def split: if_splits\<close>)
    moreover have "\<exists>n ps. set_session i ?se s = (set_session i ((sessions s ! i)\<lparr>ioRefCount := n\<rparr>) s)\<lparr>indexPool := ps\<rparr>"
      by (rule exI [of _ ?n], rule exI [of _ "indexPool s"]) (simp add: set_session_def)
    ultimately show ?thesis using False i by (simp add: IORelease_def lan_frame_def)
  qed
qed

section \<open>Session identifiers\<close>

lemma make_sid_bits:
  "i < 65536 \<Longrightarrow> bit (make_sid i g) n \<longleftrightarrow>
     n < 64 \<and> (48 \<le> n \<and> bit i (n - 48) \<or> bit g (min n 31))"
  by (auto simp: make_sid_def bit_simps min_def)

lemma Bit_Masking_mask: "Bit_Masking = mask 48"
  by (simp add: Bit_Masking_def mask_eq_exp_minus_1)

lemma sid_gen_make_sid: "i < 65536 \<Longrightarrow> sid_gen (make_sid i g) = g"
  by (rule bit_word_eqI) (auto simp: sid_gen_def Bit_Masking_mask bit_simps make_sid_bits)

lemma bit_nat_lt: "(i :: nat) < 65536 \<Longrightarrow> bit i n \<Longrightarrow> n < 16"
proof -
  assume "i < 65536" "bit i n"
  then have "take_bit 16 i = i" by (simp add: take_bit_nat_eq_self)
  with \<open>bit i n\<close> show ?thesis by (metis bit_take_bit_iff)
qed

lemma sid_index_make_sid:
  assumes "i < 65536"
  shows "sid_index (make_sid i g) = (if bit g 31 then 65535 else i)"
proof -
  have "drop_bit 48 (make_sid i g) = of_nat (if bit g 31 then 65535 else i)"
  proof (rule bit_word_eqI)
    fix n assume "n < LENGTH(64)"
    have "bit (65535 :: nat) n \<longleftrightarrow> n < 16"
      using bit_mask_iff [of 16 n, where 'a = nat] by (simp add: mask_eq_exp_minus_1)
    moreover have "bit i n \<Longrightarrow> n < 16" using bit_nat_lt [OF assms] .
    ultimately show "bit (drop_bit 48 (make_sid i g)) n =
        bit (of_nat (if bit g 31 then 65535 else i) :: SessionID) n"
      using \<open>n < LENGTH(64)\<close> by (auto simp: bit_simps make_sid_bits [OF assms])
  qed
  then show ?thesis using assms by (simp add: sid_index_def unat_of_nat take_bit_nat_eq_self)
qed

lemma make_sid_used:
  "length (sessions s) \<le> 65535 \<Longrightarrow> i < length (sessions s) \<Longrightarrow> i \<notin> set (indexPool s) \<Longrightarrow>
   make_sid i g \<in> used_sids s"
  by (auto simp: used_sids_def used_slot_def sid_index_make_sid)

text \<open>An identifier is determined by the slot and the generation the engine reads from it.\<close>

lemma used_sid_unique:
  assumes "sid \<in> used_sids s" "sid' \<in> used_sids s" and "length (sessions s) \<le> 65535"
    and "sid_index sid < length (sessions s)" and "sid_index sid' = sid_index sid" "sid_gen sid' = sid_gen sid"
  shows "sid' = sid"
proof -
  obtain i g i' g' where "i < length (sessions s)" "sid = make_sid i g" "i' < length (sessions s)" "sid' = make_sid i' g'"
    using assms(1,2) by (auto simp: used_sids_def)
  then show ?thesis using assms(3-6) by (auto simp: sid_index_make_sid sid_gen_make_sid split: if_splits)
qed

section \<open>Taking a slot from the pool\<close>

lemma session_wf_Init: "session_wf se \<Longrightarrow> session_wf (InitSession i sk se)"
  by (simp add: session_wf_def InitSession_def Let_def sq_wf_def sq_items_def sent_def)

lemma AllocSession_None: "AllocSession sk s = Some (None, s') \<Longrightarrow> s' = s \<and> indexPool s = []"
  by (auto simp: AllocSession_def stack_pop_def split: list.splits Option.bind_splits)

lemma AllocSession_ok:
  assumes inv: "lan_inv leak R D L H s"
  shows "wp (AllocSession sk s) (\<lambda>(r, s'). case r of
       None \<Rightarrow> s' = s \<and> indexPool s = []
     | Some i \<Rightarrow> lan_inv leak (insert i R) (D - {i}) L H s' \<and> i \<notin> set (indexPool s') \<and>
         i < length (sessions s') \<and> used_sids s \<subseteq> used_sids s' \<and> indexPool s = i # indexPool s' \<and>
         s' = set_session i (InitSession i sk (sessions s ! i)) (s\<lparr>indexPool := indexPool s'\<rparr>))"
proof (cases "indexPool s")
  case Nil
  then show ?thesis by (simp add: AllocSession_def stack_pop_def)
next
  case (Cons i ps)
  have i: "i < length (sessions s)" "i \<in> set (indexPool s)" "i \<notin> set ps" "distinct ps"
    using inv Cons by (auto simp: lan_inv_def)
  let ?se = "InitSession i sk (sessions s ! i)"
  let ?s = "set_session i ?se (s\<lparr>indexPool := ps\<rparr>)"
  note slot = lan_inv_slot [OF inv i(1)]
  have "pkt_ok leak (H + (se_refs ?se + other_refs i s)) (store s)"
  proof (rule pkt_ok_drop [where k = "se_refs (sessions s ! i)"])
    have "se_refs ?se = {#}" by (simp add: se_refs_def InitSession_def Let_def sq_items_def sent_def)
    then show "pkt_ok leak (H + (se_refs ?se + other_refs i s) + se_refs (sessions s ! i)) (store s)"
      using lan_inv_pkts [OF inv i(1)] by (simp add: ac_simps)
    show "leak \<or> se_refs (sessions s ! i) = {#}"
      using slot i by (auto simp: slot_ok_def se_refs_def sq_items_def sent_def)
  qed
  moreover have "slot_ok leak i True False False (count L i) (pending s i RECV) (pending s i SEND) ?se"
    using slot i session_wf_Init [of "sessions s ! i" i sk]
    by (simp add: slot_ok_def InitSession_def Let_def)
  ultimately have "lan_inv leak (insert i R) (D - {i}) L H ?s"
    by (intro lan_inv_change [OF inv i(1), where se = ?se]) (use i Cons in auto)
  moreover have "used_sids s \<subseteq> used_sids ?s"
    using i Cons by (auto simp: used_sids_def used_slot_def nth_list_update split: if_splits)
  ultimately show ?thesis using Cons i
    by (simp add: AllocSession_def stack_pop_def)
qed

end
