(* ===== verification/LanOps.thy ===== *)
theory LanOps
  imports LanInv
begin

text \<open>
  The interface between \<open>CLanServer\<close> and the class derived from it, and the operations of
  \<open>CLanServer\<close> proved against that interface: closing, sending and posting receives.
\<close>

section \<open>The contract of the virtual functions\<close>

datatype lan_event = Joined SessionID | Left SessionID | Received SessionID bytes

definition unread_of :: "pkt_store \<Rightarrow> nat \<Rightarrow> bytes" where
  "unread_of st p = unread (packets st ! p)"

text \<open>
  The derived class may change its own part of the state and take references to the packet it is
  given; it records an event. \<open>app_refs\<close> are the packet references it holds, \<open>app_ok U\<close> is its
  invariant when \<open>U\<close> are the session identifiers issued so far, \<open>app_log\<close> the events it has
  recorded, given the contents of packets.
\<close>

locale lan_app =
  fixes v :: "'a vtbl"
    and app_refs :: "'a \<Rightarrow> nat multiset"
    and app_ok :: "SessionID set \<Rightarrow> 'a \<Rightarrow> bool"
    and app_log :: "'a \<Rightarrow> (nat \<Rightarrow> bytes) \<Rightarrow> lan_event list"
  assumes join_ok: "app_ok U (CLanServer.more s) \<Longrightarrow> sid \<in> U \<Longrightarrow>
        wp (v_OnClientJoin v sid s) (\<lambda>s'. \<exists>a. s' = CLanServer.more_update (\<lambda>_. a) s \<and> app_ok U a \<and>
          app_refs a = app_refs (CLanServer.more s) \<and>
          (\<forall>f. app_log a f = app_log (CLanServer.more s) f @ [Joined sid]))"
    and leave_ok: "app_ok U (CLanServer.more s) \<Longrightarrow> sid \<in> U \<Longrightarrow>
        wp (v_OnClientLeave v sid s) (\<lambda>s'. \<exists>a. s' = CLanServer.more_update (\<lambda>_. a) s \<and> app_ok U a \<and>
          app_refs a = app_refs (CLanServer.more s) \<and>
          (\<forall>f. app_log a f = app_log (CLanServer.more s) f @ [Left sid]))"
    and recv_ok: "app_ok U (CLanServer.more s) \<Longrightarrow> sid \<in> U \<Longrightarrow> p \<in># h \<Longrightarrow>
        p \<notin># app_refs (CLanServer.more s) \<Longrightarrow>
        pkt_ok leak (h + app_refs (CLanServer.more s)) (store s) \<Longrightarrow>
        wp (v_OnRecv v sid p s) (\<lambda>s'. \<exists>a st. s' = CLanServer.more_update (\<lambda>_. a) (s\<lparr>store := st\<rparr>) \<and>
          app_ok U a \<and> pkt_ok leak (h + app_refs a) st \<and> pkt_data st = pkt_data (store s) \<and>
          (\<forall>f. app_log a f = app_log (CLanServer.more s) f @ [Received sid (f p)]))"
    and ok_mono: "app_ok U a \<Longrightarrow> U \<subseteq> U' \<Longrightarrow> app_ok U' a"
    and log_cong: "(\<And>p. p \<in># app_refs a \<Longrightarrow> f p = g p) \<Longrightarrow> app_log a f = app_log a g"

text \<open>The invariant of the engine together with that of the derived class.\<close>

definition lan_state ::
    "('a \<Rightarrow> nat multiset) \<Rightarrow> (SessionID set \<Rightarrow> 'a \<Rightarrow> bool) \<Rightarrow> bool \<Rightarrow> nat set \<Rightarrow> nat set \<Rightarrow>
     nat multiset \<Rightarrow> nat multiset \<Rightarrow> 'a CLanServer_scheme \<Rightarrow> bool" where
  "lan_state app_refs app_ok leak R D L H s \<longleftrightarrow>
     lan_inv leak R D L (H + app_refs (CLanServer.more s)) s \<and> app_ok (used_sids s) (CLanServer.more s)"

lemma lan_inv_cong:
  "sessions s' = sessions s \<Longrightarrow> indexPool s' = indexPool s \<Longrightarrow> maxSession s' = maxSession s \<Longrightarrow>
   iocp s' = iocp s \<Longrightarrow> store s' = store s \<Longrightarrow> lan_inv leak R D L H s' = lan_inv leak R D L H s"
  by (simp add: lan_inv_def pending_def lan_refs_def)

lemma used_sids_cong:
  "sessions s' = sessions s \<Longrightarrow> indexPool s' = indexPool s \<Longrightarrow> used_sids s' = used_sids s"
  by (simp add: used_sids_def used_slot_def)

text \<open>Changing statistics does not matter.\<close>

lemma lan_state_stat [simp]:
  "lan_state ar ao leak R D L H (s\<lparr>totalDisconn := x\<rparr>) = lan_state ar ao leak R D L H s"
  "lan_state ar ao leak R D L H (s\<lparr>totalAccept := x\<rparr>) = lan_state ar ao leak R D L H s"
  "lan_state ar ao leak R D L H (s\<lparr>acceptCount := x\<rparr>) = lan_state ar ao leak R D L H s"
  "lan_state ar ao leak R D L H (s\<lparr>recvCount := x\<rparr>) = lan_state ar ao leak R D L H s"
  "lan_state ar ao leak R D L H (s\<lparr>sendCount := x\<rparr>) = lan_state ar ao leak R D L H s"
  "lan_state ar ao leak R D L H (s\<lparr>checksumMismatchCount := x\<rparr>) = lan_state ar ao leak R D L H s"
  "lan_state ar ao leak R D L H (s\<lparr>outbox := ob\<rparr>) = lan_state ar ao leak R D L H s"
  "lan_state ar ao leak R D L H (s\<lparr>wsa_calls := n\<rparr>) = lan_state ar ao leak R D L H s"
  by (simp_all add: lan_state_def lan_inv_def pending_def lan_refs_def used_sids_def used_slot_def)

lemma lan_frame_stat [simp]:
  "lan_frame i s (s'\<lparr>totalDisconn := x\<rparr>) = lan_frame i s s'"
  "lan_frame i s (s'\<lparr>totalAccept := x\<rparr>) = lan_frame i s s'"
  "lan_frame i s (s'\<lparr>acceptCount := x\<rparr>) = lan_frame i s s'"
  "lan_frame i s (s'\<lparr>recvCount := x\<rparr>) = lan_frame i s s'"
  "lan_frame i s (s'\<lparr>sendCount := x\<rparr>) = lan_frame i s s'"
  "lan_frame i s (s'\<lparr>checksumMismatchCount := x\<rparr>) = lan_frame i s s'"
  "lan_frame i s (s'\<lparr>outbox := ob\<rparr>) = lan_frame i s s'"
  "lan_frame i s (s'\<lparr>wsa_calls := n\<rparr>) = lan_frame i s s'"
  "lan_frame i s (s'\<lparr>store := st\<rparr>) = lan_frame i s s'"
  "lan_frame i s (CLanServer.more_update f s') = lan_frame i s s'"
  by (simp_all add: lan_frame_def pending_def)

lemma lan_state_slot:
  "lan_state ar ao leak R D L H s \<Longrightarrow> i < length (sessions s) \<Longrightarrow>
   slot_ok leak i (i \<in> R) (i \<in> D) (i \<in> set (indexPool s)) (count L i)
     (pending s i RECV) (pending s i SEND) (sessions s ! i)"
  by (auto simp: lan_state_def dest: lan_inv_slot)

lemma lan_state_hand:
  "lan_state ar ao leak R D L H s \<Longrightarrow> i \<in># L \<Longrightarrow> i < length (sessions s) \<and> i \<notin> set (indexPool s)"
  by (auto simp: lan_state_def dest: lan_inv_hand)

lemma lan_state_sid:
  assumes "lan_state ar ao leak R D L H s" and "i < length (sessions s)" and "i \<notin> set (indexPool s)"
  shows "sID (sessions s ! i) = make_sid i (generation (sessions s ! i))"
    and "sID (sessions s ! i) \<in> used_sids s"
proof -
  show sid: "sID (sessions s ! i) = make_sid i (generation (sessions s ! i))"
    using lan_state_slot [OF assms(1,2)] assms(3) by (simp add: slot_ok_def)
  then show "sID (sessions s ! i) \<in> used_sids s"
    using assms make_sid_used by (auto simp: lan_state_def lan_inv_def)
qed

lemma IORelease_state:
  assumes "lan_state ar ao leak R D (add_mset i L) H s" and "leak \<or> i \<notin> D"
    and mono: "\<And>U U' a. ao U a \<Longrightarrow> U \<subseteq> U' \<Longrightarrow> ao U' a"
  shows "wp (IORelease i s) (\<lambda>s'. lan_state ar ao leak R D L H s' \<and> lan_frame i s s' \<and>
     (\<exists>n ps. s' = (set_session i ((sessions s ! i)\<lparr>ioRefCount := n\<rparr>) s)\<lparr>indexPool := ps\<rparr>))"
proof -
  have inv: "lan_inv leak R D (add_mset i L) (H + ar (CLanServer.more s)) s"
    and ok: "ao (used_sids s) (CLanServer.more s)" using assms(1) by (simp_all add: lan_state_def)
  show ?thesis
  proof (rule wp_mono [OF IORelease_ok [OF inv assms(2)]])
    fix s'
    assume s': "lan_inv leak R D L (H + ar (CLanServer.more s)) s' \<and> lan_frame i s s' \<and>
      (\<exists>n ps. s' = (set_session i ((sessions s ! i)\<lparr>ioRefCount := n\<rparr>) s)\<lparr>indexPool := ps\<rparr>)"
    then have "CLanServer.more s' = CLanServer.more s" by auto
    with s' mono [OF ok lan_frame_used, of i s'] show "lan_state ar ao leak R D L H s' \<and> lan_frame i s s' \<and>
        (\<exists>n ps. s' = (set_session i ((sessions s ! i)\<lparr>ioRefCount := n\<rparr>) s)\<lparr>indexPool := ps\<rparr>)"
      by (simp add: lan_state_def)
  qed
qed

section \<open>Closing\<close>

text \<open>The session part of closing: flag set, socket gone, queue dropped.\<close>

lemma close_slot:
  assumes inv: "lan_inv leak R D L H s" and i: "i < length (sessions s)" "i \<notin> set (indexPool s)"
    and se: "sessions s ! i = se" "closeFlag se = 0"
    and h0: "sq_wf (se\<lparr>sqHead := h0, sqCount := 0\<rparr>)"
    and pk: "pkt_ok leak (H + (mset (map the (sent se)) + other_refs i s)) st"
  shows "lan_inv leak R D (add_mset i L) H
     ((set_session i (se\<lparr>closeFlag := 1, sock := k, sqHead := h0, sqCount := 0\<rparr>) s)\<lparr>store := st\<rparr>)"
proof -
  let ?se = "se\<lparr>closeFlag := 1, sock := k, sqHead := h0, sqCount := 0\<rparr>"
  have "sent ?se = sent se" "sq_items ?se = []" by (simp_all add: sent_def sq_items_def)
  moreover have "sq_wf ?se" using h0 by (simp add: sq_wf_def)
  ultimately have "session_wf ?se" "se_refs ?se = mset (map the (sent se))"
    using lan_inv_slot [OF inv i(1)] se by (simp_all add: session_wf_def slot_ok_def se_refs_def)
  then show ?thesis using lan_inv_slot [OF inv i(1)] i se pk inv
    by (intro lan_inv_change [OF inv i(1), where se = ?se]) (auto simp: slot_ok_def lan_inv_def)
qed

lemma map_Some_the: "None \<notin> set xs \<Longrightarrow> map Some (map the xs) = xs"
  by (induction xs) auto

context lan_app
begin

abbreviation log :: "'a CLanServer_scheme \<Rightarrow> lan_event list" where
  "log s \<equiv> app_log (CLanServer.more s) (unread_of (store s))"

lemma log_data:
  assumes "pkt_data st' = pkt_data st" and "pkt_ok leak (h + app_refs a) st"
  shows "app_log a (unread_of st') = app_log a (unread_of st)"
proof (rule log_cong)
  fix p assume "p \<in># app_refs a"
  then have "p < length (packets st)"
    using pkt_inv_bound [OF pkt_ok_inv [OF assms(2)], of p] by simp
  then show "unread_of st' p = unread_of st p"
    using pkt_data_views(1) [OF assms(1)] by (simp add: unread_of_def)
qed

lemma state_pkts: "lan_state app_refs app_ok leak R D L H s \<Longrightarrow>
   pkt_ok leak (H + lan_refs s + app_refs (CLanServer.more s)) (store s)"
  by (simp add: lan_state_def lan_inv_def ac_simps)

lemma CloseSession_closed:
  "i < length (sessions s) \<Longrightarrow> closeFlag (sessions s ! i) \<noteq> 0 \<Longrightarrow> CloseSession v i s = Some s"
  by (simp add: CloseSession_def)

text \<open>The first half of \<open>CloseSession\<close>: the slot is marked and its queue is dropped.\<close>

lemma close_drained:
  assumes st: "lan_state app_refs app_ok leak R D L H s" and i: "i < length (sessions s)"
    and open': "i \<notin> set (indexPool s)" "closeFlag (sessions s ! i) = 0"
  obtains s2 where
    "drain_sendQ i (set_session i ((sessions s ! i)\<lparr>closeFlag := 1, sock := INVALID_SOCKET\<rparr>) s) = Some s2"
    "lan_inv leak R D (add_mset i L) (H + app_refs (CLanServer.more s)) s2" "lan_frame i s s2"
    "closeFlag (sessions s2 ! i) \<noteq> 0" "sID (sessions s2 ! i) = sID (sessions s ! i)"
    "recvBuffer (sessions s2 ! i) = recvBuffer (sessions s ! i)" "pkt_data (store s2) = pkt_data (store s)"
    "iocp s2 = iocp s" "outbox s2 = outbox s" "wsa_calls s2 = wsa_calls s" "totalDisconn s2 = totalDisconn s"
    "CLanServer.more s2 = CLanServer.more s" "length (sessions s2) = length (sessions s)"
proof -
  define se where "se = sessions s ! i"
  define se1 where "se1 = se\<lparr>closeFlag := 1, sock := INVALID_SOCKET\<rparr>"
  let ?a = "app_refs (CLanServer.more s)" and ?o = "mset (map the (sent se)) + other_refs i s"
  have inv: "lan_inv leak R D L (H + ?a) s" using st by (simp add: lan_state_def)
  have wf: "session_wf se" using lan_inv_slot [OF inv i] by (simp add: slot_ok_def se_def)
  have items: "sq_items se1 = map Some (map the (sq_items se))" "sq_wf se1"
    using wf map_Some_the [of "sq_items se"] by (simp_all add: se1_def session_wf_def sq_items_def sq_wf_def)
  have pk: "pkt_ok leak (mset (map the (sq_items se)) + (H + ?a + ?o)) (store s)"
    using lan_inv_pkts [OF inv i] by (simp add: se_refs_def ac_simps flip: se_def)
  obtain h0 st1 where d: "sq_wf (se1\<lparr>sqHead := h0, sqCount := 0\<rparr>)"
      "drain_sendQ i (set_session i se1 s) = Some ((set_session i (se1\<lparr>sqHead := h0, sqCount := 0\<rparr>) s)\<lparr>store := st1\<rparr>)"
      "pkt_ok leak (H + ?a + ?o) st1" "pkt_data st1 = pkt_data (store s)"
    using drain_sendQ_ok [of i "set_session i se1 s" se1 "map the (sq_items se)" leak "H + ?a + ?o"] i items pk
    by (auto simp: wp_iff)
  define s2 where "s2 = (set_session i (se1\<lparr>sqHead := h0, sqCount := 0\<rparr>) s)\<lparr>store := st1\<rparr>"
  have "lan_inv leak R D (add_mset i L) (H + ?a) s2"
    unfolding s2_def se1_def using close_slot [OF inv i open'(1), of se h0 st1] open'(2) d
    by (simp add: se_def se1_def sq_wf_def)
  moreover have "lan_frame i s s2" using i open' by (simp add: s2_def se1_def lan_frame_def se_def)
  ultimately show ?thesis
    using i d(2,4) by (intro that [of s2]) (simp_all add: s2_def se1_def flip: se_def)
qed

text \<open>The second half: the derived class is told, and the reference of the open session is given back.\<close>

lemma close_announced:
  assumes st: "lan_state app_refs app_ok leak R D L H s" and i: "i < length (sessions s)"
    and open': "i \<notin> set (indexPool s)" "closeFlag (sessions s ! i) = 0"
  obtains s4 where "CloseSession v i s = IORelease i s4"
    "lan_state app_refs app_ok leak R D (add_mset i L) H s4" "lan_frame i s s4"
    "closeFlag (sessions s4 ! i) \<noteq> 0" "recvBuffer (sessions s4 ! i) = recvBuffer (sessions s ! i)"
    "pkt_data (store s4) = pkt_data (store s)" "iocp s4 = iocp s" "outbox s4 = outbox s" "wsa_calls s4 = wsa_calls s"
    "totalDisconn s4 = totalDisconn s + 1" "app_refs (CLanServer.more s4) = app_refs (CLanServer.more s)"
    "length (sessions s4) = length (sessions s)" "log s4 = log s @ [Left (sID (sessions s ! i))]"
proof -
  let ?sid = "sID (sessions s ! i)"
  obtain s2 where d: "drain_sendQ i (set_session i ((sessions s ! i)\<lparr>closeFlag := 1, sock := INVALID_SOCKET\<rparr>) s) = Some s2"
    and inv2: "lan_inv leak R D (add_mset i L) (H + app_refs (CLanServer.more s)) s2" and fr2: "lan_frame i s s2"
    and f: "closeFlag (sessions s2 ! i) \<noteq> 0" "sID (sessions s2 ! i) = ?sid"
    "recvBuffer (sessions s2 ! i) = recvBuffer (sessions s ! i)" "pkt_data (store s2) = pkt_data (store s)"
    "iocp s2 = iocp s" "outbox s2 = outbox s" "wsa_calls s2 = wsa_calls s" "totalDisconn s2 = totalDisconn s"
    "CLanServer.more s2 = CLanServer.more s" "length (sessions s2) = length (sessions s)"
    by (rule close_drained [OF st i open'])
  have ok: "app_ok (used_sids s2) (CLanServer.more s2)"
    using st ok_mono [OF _ lan_frame_used [OF fr2]] f(9) by (simp add: lan_state_def)
  have sid: "?sid \<in> used_sids s2" using lan_state_sid [OF st i open'(1)] lan_frame_used [OF fr2] by auto
  obtain a where a: "v_OnClientLeave v ?sid s2 = Some (CLanServer.more_update (\<lambda>_. a) s2)"
      "app_ok (used_sids s2) a" "app_refs a = app_refs (CLanServer.more s2)"
      "\<And>f. app_log a f = app_log (CLanServer.more s2) f @ [Left ?sid]"
    using leave_ok [OF ok sid] by (auto simp: wp_iff)
  define s4 where "s4 = (CLanServer.more_update (\<lambda>_. a) s2)\<lparr>totalDisconn := totalDisconn s + 1\<rparr>"
  have m4: "CLanServer.more s4 = a" by (simp add: s4_def)
  have "lan_inv leak R D (add_mset i L) (H + app_refs (CLanServer.more s)) s4"
    using inv2 lan_inv_cong [of s4 s2] by (simp add: s4_def)
  moreover have "used_sids s4 = used_sids s2" by (rule used_sids_cong) (simp_all add: s4_def)
  ultimately have st4: "lan_state app_refs app_ok leak R D (add_mset i L) H s4"
    using a(2,3) f(9) m4 by (simp add: lan_state_def)
  have close: "CloseSession v i s = IORelease i s4"
    using i open'(2) d a(1) f(2,8,10) by (simp add: CloseSession_def Let_def s4_def)
  have "log s4 = log s @ [Left ?sid]"
    using a(4) log_data [OF f(4) state_pkts [OF st]] f(9) by (simp add: s4_def)
  moreover have "lan_frame i s s4" using fr2 by (simp add: s4_def)
  ultimately show ?thesis using st4 close f a(3) m4 by (intro that [of s4]) (simp_all add: s4_def)
qed

lemma CloseSession_open:
  assumes st: "lan_state app_refs app_ok leak R D L H s" and i: "i < length (sessions s)"
    and open': "i \<notin> set (indexPool s)" "closeFlag (sessions s ! i) = 0" and D: "leak \<or> i \<notin> D"
  shows "wp (CloseSession v i s) (\<lambda>s'. lan_state app_refs app_ok leak R D L H s' \<and> lan_frame i s s' \<and>
     closeFlag (sessions s' ! i) \<noteq> 0 \<and> pkt_data (store s') = pkt_data (store s) \<and>
     app_refs (CLanServer.more s') = app_refs (CLanServer.more s) \<and>
     iocp s' = iocp s \<and> outbox s' = outbox s \<and> wsa_calls s' = wsa_calls s \<and>
     totalDisconn s' = totalDisconn s + 1 \<and>
     recvBuffer (sessions s' ! i) = recvBuffer (sessions s ! i) \<and>
     log s' = log s @ [Left (sID (sessions s ! i))])"
proof -
  obtain s4 where close: "CloseSession v i s = IORelease i s4"
    and st4: "lan_state app_refs app_ok leak R D (add_mset i L) H s4" and fr4: "lan_frame i s s4"
    and v4: "closeFlag (sessions s4 ! i) \<noteq> 0" "recvBuffer (sessions s4 ! i) = recvBuffer (sessions s ! i)"
    "pkt_data (store s4) = pkt_data (store s)" "iocp s4 = iocp s" "outbox s4 = outbox s" "wsa_calls s4 = wsa_calls s"
    "totalDisconn s4 = totalDisconn s + 1" "app_refs (CLanServer.more s4) = app_refs (CLanServer.more s)"
    "length (sessions s4) = length (sessions s)" "log s4 = log s @ [Left (sID (sessions s ! i))]"
    by (rule close_announced [OF st i open'])
  show ?thesis unfolding close
    by (rule wp_mono [OF IORelease_state [OF st4 D ok_mono]])
      (use v4 i in \<open>auto intro: lan_frame_trans [OF fr4]\<close>)
qed

lemma CloseSession_ok:
  assumes st: "lan_state app_refs app_ok leak R D L H s" and i: "i < length (sessions s)"
    and u: "used_slot s i" and D: "leak \<or> i \<notin> D"
  shows "wp (CloseSession v i s) (\<lambda>s'. lan_state app_refs app_ok leak R D L H s' \<and> lan_frame i s s' \<and>
     closeFlag (sessions s' ! i) \<noteq> 0 \<and> pkt_data (store s') = pkt_data (store s) \<and>
     app_refs (CLanServer.more s') = app_refs (CLanServer.more s) \<and>
     iocp s' = iocp s \<and> outbox s' = outbox s \<and> wsa_calls s' = wsa_calls s \<and>
     recvBuffer (sessions s' ! i) = recvBuffer (sessions s ! i) \<and>
     log s' = log s @ (if closeFlag (sessions s ! i) = 0 then [Left (sID (sessions s ! i))] else []))"
proof (cases "closeFlag (sessions s ! i) = 0")
  case True
  then have "i \<notin> set (indexPool s)" using u by (simp add: used_slot_def)
  from CloseSession_open [OF st i this True D] show ?thesis
    by (rule wp_mono) (simp add: True)
next
  case False
  with CloseSession_closed [OF i False] st show ?thesis by simp
qed

text \<open>Closing on behalf of a thread that then gives its own reference back.\<close>

lemma CloseSession_IORelease:
  assumes st: "lan_state app_refs app_ok leak R D (add_mset i L) H s" and D: "leak \<or> i \<notin> D"
  shows "wp (do { s \<leftarrow> CloseSession v i s; IORelease i s }) (\<lambda>s'.
     lan_state app_refs app_ok leak R D L H s' \<and> lan_frame i s s' \<and>
     closeFlag (sessions s' ! i) \<noteq> 0 \<and> pkt_data (store s') = pkt_data (store s) \<and>
     app_refs (CLanServer.more s') = app_refs (CLanServer.more s) \<and>
     iocp s' = iocp s \<and> outbox s' = outbox s \<and> wsa_calls s' = wsa_calls s \<and>
     recvBuffer (sessions s' ! i) = recvBuffer (sessions s ! i) \<and>
     log s' = log s @ (if closeFlag (sessions s ! i) = 0 then [Left (sID (sessions s ! i))] else []))"
proof -
  have i: "i < length (sessions s)" "used_slot s i"
    using lan_state_hand [OF st, of i] by (auto simp: used_slot_def)
  obtain s1 where s1: "CloseSession v i s = Some s1" "lan_state app_refs app_ok leak R D (add_mset i L) H s1"
      "lan_frame i s s1" "closeFlag (sessions s1 ! i) \<noteq> 0" "pkt_data (store s1) = pkt_data (store s)"
      "iocp s1 = iocp s" "outbox s1 = outbox s" "wsa_calls s1 = wsa_calls s"
      "recvBuffer (sessions s1 ! i) = recvBuffer (sessions s ! i)"
      "log s1 = log s @ (if closeFlag (sessions s ! i) = 0 then [Left (sID (sessions s ! i))] else [])"
      "app_refs (CLanServer.more s1) = app_refs (CLanServer.more s)"
    using CloseSession_ok [OF st i D] by (auto simp: wp_iff)
  have len: "i < length (sessions s1)" using lan_frame_length [OF s1(3)] i by simp
  have "wp (IORelease i s1) (\<lambda>s'. lan_state app_refs app_ok leak R D L H s' \<and> lan_frame i s1 s' \<and>
      (\<exists>n ps. s' = (set_session i ((sessions s1 ! i)\<lparr>ioRefCount := n\<rparr>) s1)\<lparr>indexPool := ps\<rparr>))"
    by (rule IORelease_state [OF s1(2) D ok_mono])
  then show ?thesis unfolding s1(1) Option.bind.bind_lunit
    by (rule wp_mono) (use s1(3-11) len lan_frame_trans in auto)
qed

section \<open>Sending\<close>

end

text \<open>The session after its queue was moved to the gather array and \<open>WSASend\<close> is about to be called.\<close>

definition flushed :: "Session \<Rightarrow> int \<Rightarrow> nat option list \<Rightarrow> (nat option \<times> int) list \<Rightarrow> int \<Rightarrow> Session" where
  "flushed se h0 pk bf n = se\<lparr>sendPending := 1, sqHead := h0, sqCount := 0, sendPkts := pk,
     sendWsaBuf := bf, sentCount := n, ioRefCount := ioRefCount se + 1\<rparr>"

lemma flushed_ok:
  assumes wf: "session_wf se" and ps: "sq_items se = map Some ps" and len: "length pk = 512" "length bf = 512"
    and take: "take (length ps) pk = map Some ps"
    and h0: "sq_wf (se\<lparr>sqHead := h0, sqCount := 0\<rparr>)"
  shows "session_wf (flushed se h0 pk bf (int (length ps)))"
    and "se_refs (flushed se h0 pk bf (int (length ps))) = mset ps"
    and "sent (flushed se h0 pk bf (int (length ps))) = map Some ps"
proof -
  let ?se = "flushed se h0 pk bf (int (length ps))"
  have "length ps = nat (sqCount se)" using length_sq_items [of se] ps by simp
  then have "length ps \<le> 512" using wf by (auto simp: session_wf_def sq_wf_def)
  moreover have items: "sq_items ?se = []" by (simp add: flushed_def sq_items_def)
  moreover show sent: "sent ?se = map Some ps" using take by (simp add: flushed_def sent_def)
  moreover have "sq_wf ?se" using h0 by (simp add: flushed_def sq_wf_def)
  ultimately show "session_wf ?se" using wf len by (auto simp: session_wf_def flushed_def)
  show "se_refs ?se = mset ps" using items sent by (simp add: se_refs_def comp_def)
qed

lemma flush_loop_session:
  assumes wf: "session_wf se" and ps: "sq_items se = map Some ps"
    and bound: "\<forall>p \<in> set ps. p < length (packets st)"
  shows "\<exists>h0 pk bf. flush_loop st 0 (se\<lparr>sendPending := 1\<rparr>) = Some (int (length ps),
       se\<lparr>sendPending := 1, sqHead := h0, sqCount := 0, sendPkts := pk, sendWsaBuf := bf\<rparr>) \<and>
     length pk = 512 \<and> length bf = 512 \<and> take (length ps) pk = map Some ps \<and>
     take (length ps) bf = gather_of st ps \<and> sq_wf (se\<lparr>sqHead := h0, sqCount := 0\<rparr>)"
proof -
  have "length ps = nat (sqCount se)" using length_sq_items [of se] ps by simp
  then have "length ps \<le> 512" using wf by (auto simp: session_wf_def sq_wf_def)
  then have n: "0 + length ps \<le> 512" by simp
  have it: "sq_items (se\<lparr>sendPending := 1\<rparr>) = map Some ps" "sq_wf (se\<lparr>sendPending := 1\<rparr>)"
    using ps wf by (simp_all add: sq_items_def session_wf_def sq_wf_def)
  have l: "length (sendPkts (se\<lparr>sendPending := 1\<rparr>)) = 512" "length (sendWsaBuf (se\<lparr>sendPending := 1\<rparr>)) = 512"
    using wf by (simp_all add: session_wf_def)
  have "wp (flush_loop st (int 0) (se\<lparr>sendPending := 1\<rparr>)) (\<lambda>(m, se'). m = int (0 + length ps) \<and> sq_wf se' \<and>
     (\<exists>hd pk bf. se' = se\<lparr>sendPending := 1\<rparr>\<lparr>sqHead := hd, sqCount := 0, sendPkts := pk, sendWsaBuf := bf\<rparr> \<and>
       length pk = 512 \<and> length bf = 512 \<and>
       take (0 + length ps) pk = take 0 (sendPkts (se\<lparr>sendPending := 1\<rparr>)) @ map Some ps \<and>
       take (0 + length ps) bf = take 0 (sendWsaBuf (se\<lparr>sendPending := 1\<rparr>)) @ gather_of st ps))"
    by (rule flush_loop_ok [OF it(2,1) l n bound])
  then obtain r where r: "flush_loop st (int 0) (se\<lparr>sendPending := 1\<rparr>) = Some r" "fst r = int (0 + length ps)"
      "sq_wf (snd r)" "\<exists>hd pk bf. snd r = se\<lparr>sendPending := 1, sqHead := hd, sqCount := 0, sendPkts := pk, sendWsaBuf := bf\<rparr> \<and>
       length pk = 512 \<and> length bf = 512 \<and>
       take (0 + length ps) pk = take 0 (sendPkts (se\<lparr>sendPending := 1\<rparr>)) @ map Some ps \<and>
       take (0 + length ps) bf = take 0 (sendWsaBuf (se\<lparr>sendPending := 1\<rparr>)) @ gather_of st ps"
    by (rule wpE) (simp only: split_beta)
  from r(4) obtain h0 pk bf where se': "snd r = se\<lparr>sendPending := 1, sqHead := h0, sqCount := 0,
        sendPkts := pk, sendWsaBuf := bf\<rparr>" "length pk = 512" "length bf = 512"
      "take (length ps) pk = map Some ps" "take (length ps) bf = gather_of st ps"
    by auto
  have "sq_wf (se\<lparr>sqHead := h0, sqCount := 0\<rparr>)" using r(3) unfolding se'(1) by (simp add: sq_wf_def)
  moreover have "r = (int (length ps), snd r)" using r(2) by (simp add: prod_eq_iff)
  ultimately show ?thesis using r(1) se' by (intro exI [of _ h0] exI [of _ pk] exI [of _ bf]) simp
qed

text \<open>A send that \<open>WSASend\<close> accepted: the slot has one more outstanding operation.\<close>

lemma flush_accepted:
  assumes inv: "lan_inv leak R D L H s" and i: "i < length (sessions s)" "i \<notin> set (indexPool s)" "i \<in> D"
    and se: "sessions s ! i = se" "sendPending se = 0" "closeFlag se = 0"
    and ps: "sq_items se = map Some ps" and len: "length pk = 512" "length bf = 512"
    and take: "take (length ps) pk = map Some ps"
    and h0: "sq_wf (se\<lparr>sqHead := h0, sqCount := 0\<rparr>)"
  shows "lan_inv leak R (D - {i}) L H
     ((set_session i (flushed se h0 pk bf (int (length ps))) s)\<lparr>iocp := (i, SEND) # iocp s\<rparr>)"
proof -
  let ?se = "flushed se h0 pk bf (int (length ps))"
  let ?s = "(set_session i ?se s)\<lparr>iocp := (i, SEND) # iocp s\<rparr>"
  note slot = lan_inv_slot [OF inv i(1)]
  have wf: "session_wf se" using slot se by (simp add: slot_ok_def)
  note fl = flushed_ok [OF wf ps len take h0]
  have "se_refs se = mset ps"
    using slot se ps by (simp add: slot_ok_def se_refs_def sent_def comp_def)
  then have "pkt_ok leak (H + (se_refs ?se + other_refs i s)) (store s)"
    using lan_inv_pkts [OF inv i(1)] fl(2) se by simp
  moreover have "pending ?s j ty = pending s j ty" if "j \<noteq> i" for j ty
    using that by (simp add: pending_def)
  moreover have "pending ?s i RECV = pending s i RECV" "pending ?s i SEND = Suc (pending s i SEND)"
    by (simp_all add: pending_def)
  moreover have "slot_ok leak i (i \<in> R) False False (count L i) (pending s i RECV) (Suc (pending s i SEND)) ?se"
    using slot i se fl(1) by (auto simp: slot_ok_def flushed_def)
  ultimately show ?thesis
    by (intro lan_inv_change [OF inv i(1), where se = ?se]) (use i inv in \<open>auto simp: lan_inv_def\<close>)
qed

text \<open>A send that \<open>WSASend\<close> refused, after its packets were released: only a reference is held.\<close>

lemma flush_refused:
  assumes inv: "lan_inv leak R D L H s" and i: "i < length (sessions s)" "i \<notin> set (indexPool s)" "i \<in> D"
    and se: "sessions s ! i = se" "sendPending se = 0" "closeFlag se = 0"
    and len: "length pk = 512" "length bf = 512"
    and h0: "sq_wf (se\<lparr>sqHead := h0, sqCount := 0\<rparr>)"
    and pk: "pkt_ok leak (H + other_refs i s) st"
  shows "lan_inv leak R (D - {i}) (add_mset i L) H
     ((set_session i ((flushed se h0 pk bf 0)\<lparr>sendPending := 0\<rparr>) s)\<lparr>store := st\<rparr>)"
proof -
  let ?se = "(flushed se h0 pk bf 0)\<lparr>sendPending := 0\<rparr>"
  note slot = lan_inv_slot [OF inv i(1)]
  have "sq_items ?se = []" "sent ?se = []" by (simp_all add: flushed_def sq_items_def sent_def)
  moreover have "sq_wf ?se" using h0 by (simp add: flushed_def sq_wf_def)
  ultimately have "session_wf ?se" "se_refs ?se = {#}"
    using slot se len by (simp_all add: slot_ok_def session_wf_def flushed_def se_refs_def)
  then have "slot_ok leak i (i \<in> R) False False (Suc (count L i)) (pending s i RECV) (pending s i SEND) ?se"
    using slot i se by (auto simp: slot_ok_def flushed_def)
  with \<open>se_refs ?se = {#}\<close> pk show ?thesis
    by (intro lan_inv_change [OF inv i(1), where se = ?se]) (use i inv in \<open>auto simp: lan_inv_def\<close>)
qed

context lan_app
begin

text \<open>The two outcomes of a flush of an idle session, after the queue was moved to the gather array.\<close>

lemma FlushSend_step:
  assumes i: "i < length (sessions s)" and se: "sessions s ! i = se" "sendPending se = 0" "sendCtx se = SEND"
    and fl: "flush_loop (store s) 0 (se\<lparr>sendPending := 1\<rparr>) =
       Some (n, se\<lparr>sendPending := 1, sqHead := h0, sqCount := 0, sendPkts := pk, sendWsaBuf := bf\<rparr>)"
    and s1: "s1 = set_session i (flushed se h0 pk bf n) s"
  shows "FlushSend v e i s = (if wsa_ok e (wsa_calls s) then
       Some (s1\<lparr>wsa_calls := wsa_calls s + 1, iocp := (i, SEND) # iocp s,
         outbox := outbox s @ [(sock se, gather (store s) (take (nat n) bf))]\<rparr>)
     else do {
         s \<leftarrow> release_sent i (s1\<lparr>wsa_calls := wsa_calls s + 1\<rparr>);
         se \<leftarrow> session s i;
         let s = set_session i (se\<lparr>sentCount := 0, sendPending := 0\<rparr>) s;
         s \<leftarrow> CloseSession v i s;
         IORelease i s })"
  using i se fl by (simp add: FlushSend_def IOAddRef_def Let_def s1 flushed_def)

lemma FlushSend_accepted:
  assumes st: "lan_state app_refs app_ok leak R D L H s"
    and i: "i < length (sessions s)" "i \<notin> set (indexPool s)" "i \<in> D"
    and se: "sessions s ! i = se" "sendPending se = 0" "closeFlag se = 0" and ps: "sq_items se = map Some ps"
    and fl: "length pk = 512" "length bf = 512" "take (length ps) pk = map Some ps" "sq_wf (se\<lparr>sqHead := h0, sqCount := 0\<rparr>)"
    and s': "s' = (set_session i (flushed se h0 pk bf (int (length ps))) s)\<lparr>wsa_calls := wc, iocp := (i, SEND) # iocp s, outbox := ob\<rparr>"
  shows "lan_state app_refs app_ok leak R (D - {i}) L H s'" and "lan_frame i s s'"
proof -
  let ?a = "app_refs (CLanServer.more s)" and ?s1 = "set_session i (flushed se h0 pk bf (int (length ps))) s"
  have inv: "lan_inv leak R D L (H + ?a) s" and ok: "app_ok (used_sids s) (CLanServer.more s)"
    using st by (simp_all add: lan_state_def)
  have "lan_inv leak R (D - {i}) L (H + ?a) (?s1\<lparr>iocp := (i, SEND) # iocp s\<rparr>)"
    by (rule flush_accepted [OF inv i se ps fl])
  then have "lan_inv leak R (D - {i}) L (H + ?a) s'"
    using lan_inv_cong [of s' "?s1\<lparr>iocp := (i, SEND) # iocp s\<rparr>"] by (simp add: s')
  moreover show fr: "lan_frame i s s'" using i se by (simp add: lan_frame_def s' flushed_def pending_def)
  moreover have "app_ok (used_sids s') (CLanServer.more s)" using ok_mono [OF ok lan_frame_used [OF fr]] .
  ultimately show "lan_state app_refs app_ok leak R (D - {i}) L H s'" by (simp add: lan_state_def s')
qed

text \<open>
  A refused send: the packets are released again, and the session is closed with the reference the flush
  had taken (\<open>s3\<close> is the state before \<open>CloseSession\<close>).
\<close>

lemma FlushSend_refused:
  assumes st: "lan_state app_refs app_ok leak R D L H s"
    and i: "i < length (sessions s)" "i \<notin> set (indexPool s)" "i \<in> D"
    and se: "sessions s ! i = se" "sendPending se = 0" "closeFlag se = 0" and ps: "sq_items se = map Some ps"
    and fl: "length pk = 512" "length bf = 512" "take (length ps) pk = map Some ps" "sq_wf (se\<lparr>sqHead := h0, sqCount := 0\<rparr>)"
    and s1: "s1 = (set_session i (flushed se h0 pk bf (int (length ps))) s)\<lparr>wsa_calls := wsa_calls s + 1\<rparr>"
  obtains s3 where
    "do { s \<leftarrow> release_sent i s1; se \<leftarrow> session s i;
        let s = set_session i (se\<lparr>sentCount := 0, sendPending := 0\<rparr>) s;
        s \<leftarrow> CloseSession v i s; IORelease i s } = do { s \<leftarrow> CloseSession v i s3; IORelease i s }"
    "lan_state app_refs app_ok leak R (D - {i}) (add_mset i L) H s3" "lan_frame i s s3"
    "closeFlag (sessions s3 ! i) = 0" "sID (sessions s3 ! i) = sID se" "recvBuffer (sessions s3 ! i) = recvBuffer se"
    "pkt_data (store s3) = pkt_data (store s)" "outbox s3 = outbox s" "iocp s3 = iocp s" "CLanServer.more s3 = CLanServer.more s"
proof -
  let ?a = "app_refs (CLanServer.more s)" and ?pk = "replicate (length ps) None @ drop (length ps) pk"
  let ?se1 = "flushed se h0 pk bf (int (length ps))"
  have inv: "lan_inv leak R D L (H + ?a) s" and ok: "app_ok (used_sids s) (CLanServer.more s)"
    using st by (simp_all add: lan_state_def)
  have "sent se = []" using lan_inv_slot [OF inv i(1)] se i by (simp add: slot_ok_def sent_def)
  then have "se_refs se = mset ps" using ps by (simp add: se_refs_def comp_def)
  then have pk0: "pkt_ok leak (H + ?a + (mset ps + other_refs i s)) (store s)" using lan_inv_pkts [OF inv i(1)] se by simp
  have pk: "pk = map Some ps @ drop (length ps) pk" using fl(3) by (metis append_take_drop_id)
  obtain st2 where rel: "release_sent i s1 = Some ((set_session i (?se1\<lparr>sendPkts := ?pk\<rparr>) s1)\<lparr>store := st2\<rparr>)"
      "pkt_ok leak (H + ?a + other_refs i s) st2" "pkt_data st2 = pkt_data (store s)"
    using release_sent_ok [of i s1 ?se1 ps "drop (length ps) pk" leak "H + ?a + other_refs i s"] i pk pk0
    by (auto simp: wp_iff s1 flushed_def ac_simps)
  define se3 where "se3 = (flushed se h0 ?pk bf 0)\<lparr>sendPending := 0\<rparr>"
  define s3 where "s3 = ((set_session i se3 s)\<lparr>store := st2\<rparr>)\<lparr>wsa_calls := wsa_calls s + 1\<rparr>"
  have "length ps \<le> 512" using fl(1,3) by (metis length_map length_take min.cobounded1)
  then have "lan_inv leak R (D - {i}) (add_mset i L) (H + ?a) s3"
    using flush_refused [OF inv i se _ fl(2,4) rel(2), of ?pk] fl(1) lan_inv_cong [of s3 "(set_session i se3 s)\<lparr>store := st2\<rparr>"]
    by (simp add: s3_def se3_def)
  moreover have fr3: "lan_frame i s s3" using i se by (simp add: s3_def se3_def lan_frame_def flushed_def)
  moreover have "app_ok (used_sids s3) (CLanServer.more s)" using ok_mono [OF ok lan_frame_used [OF fr3]] .
  ultimately have st3: "lan_state app_refs app_ok leak R (D - {i}) (add_mset i L) H s3" by (simp add: lan_state_def s3_def)
  let ?r = "(set_session i (?se1\<lparr>sendPkts := ?pk\<rparr>) s1)\<lparr>store := st2\<rparr>"
  have "?se1\<lparr>sendPkts := ?pk, sentCount := 0, sendPending := 0\<rparr> = se3"
    by (rule Session.equality) (simp_all add: se3_def flushed_def)
  then have "set_session i ((sessions ?r ! i)\<lparr>sentCount := 0, sendPending := 0\<rparr>) ?r = s3"
    using i(1) by (intro CLanServer.equality) (simp_all add: s3_def s1)
  moreover have "session ?r i = Some (sessions ?r ! i)" using i(1) by (simp add: s1)
  ultimately have eq: "do { s \<leftarrow> release_sent i s1; se \<leftarrow> session s i;
        let s = set_session i (se\<lparr>sentCount := 0, sendPending := 0\<rparr>) s;
        s \<leftarrow> CloseSession v i s; IORelease i s } = do { s \<leftarrow> CloseSession v i s3; IORelease i s }"
    unfolding rel(1) by (simp only: Let_def Option.bind.bind_lunit)
  show ?thesis by (rule that [OF eq st3 fr3]) (use i se rel(3) in \<open>simp_all add: s3_def se3_def flushed_def\<close>)
qed

lemma FlushSend_idle:
  assumes st: "lan_state app_refs app_ok leak R D L H s"
    and i: "i < length (sessions s)" "i \<notin> set (indexPool s)" "i \<in> D"
    and se: "sessions s ! i = se" "sendPending se = 0" "closeFlag se = 0" and ps: "sq_items se = map Some ps"
  shows "wp (FlushSend v e i s) (\<lambda>s'. lan_state app_refs app_ok leak R (D - {i}) L H s' \<and> lan_frame i s s' \<and>
     pkt_data (store s') = pkt_data (store s) \<and>
     app_refs (CLanServer.more s') = app_refs (CLanServer.more s) \<and> recvBuffer (sessions s' ! i) = recvBuffer se \<and>
     (if wsa_ok e (wsa_calls s)
      then closeFlag (sessions s' ! i) = 0 \<and> sock (sessions s' ! i) = sock se \<and> sq_items (sessions s' ! i) = [] \<and>
        iocp s' = (i, SEND) # iocp s \<and> log s' = log s \<and>
        outbox s' = outbox s @ [(sock se, concat (map (\<lambda>p. wire (packets (store s) ! p)) ps))]
      else closeFlag (sessions s' ! i) \<noteq> 0 \<and> outbox s' = outbox s \<and> iocp s' = iocp s \<and>
        log s' = log s @ [Left (sID se)]))"
proof -
  let ?a = "app_refs (CLanServer.more s)"
  have inv: "lan_inv leak R D L (H + ?a) s" using st by (simp add: lan_state_def)
  have wf: "session_wf se" and sent0: "sent se = []" and SEND: "sendCtx se = SEND"
    using lan_inv_slot [OF inv i(1)] se i by (simp_all add: slot_ok_def sent_def)
  have "se_refs se = mset ps" using ps sent0 by (simp add: se_refs_def comp_def)
  then have bound: "\<forall>p \<in> set ps. p < length (packets (store s))"
    using pkt_inv_bound [OF pkt_ok_inv [OF lan_inv_pkts [OF inv i(1)]]] se by fastforce
  obtain h0 pk bf where fl: "flush_loop (store s) 0 (se\<lparr>sendPending := 1\<rparr>) = Some (int (length ps),
       se\<lparr>sendPending := 1, sqHead := h0, sqCount := 0, sendPkts := pk, sendWsaBuf := bf\<rparr>)"
     "length pk = 512" "length bf = 512" "take (length ps) pk = map Some ps" "sq_wf (se\<lparr>sqHead := h0, sqCount := 0\<rparr>)"
     "take (length ps) bf = gather_of (store s) ps"
    using flush_loop_session [OF wf ps bound] by auto
  note step = FlushSend_step [OF i(1) se(1,2) SEND fl(1) refl, of e]
  show ?thesis
  proof (cases "wsa_ok e (wsa_calls s)")
    case True
    note ac = FlushSend_accepted [where wc = "wsa_calls s + 1"
        and ob = "outbox s @ [(sock se, gather (store s) (take (length ps) bf))]", OF st i se ps fl(2-5) refl]
    show ?thesis using True ac step fl(6) i(1) se(3) by (simp add: gather_gather_of flushed_def sq_items_def)
  next
    case False
    obtain s3 where s3: "FlushSend v e i s = do { s \<leftarrow> CloseSession v i s3; IORelease i s }"
      "lan_state app_refs app_ok leak R (D - {i}) (add_mset i L) H s3" "lan_frame i s s3"
      "closeFlag (sessions s3 ! i) = 0" "sID (sessions s3 ! i) = sID se" "recvBuffer (sessions s3 ! i) = recvBuffer se"
      "pkt_data (store s3) = pkt_data (store s)" "outbox s3 = outbox s" "iocp s3 = iocp s" "CLanServer.more s3 = CLanServer.more s"
      by (rule FlushSend_refused [OF st i se ps fl(2-5) refl]) (use step False in simp)
    have log3: "log s3 = log s" using log_data [OF s3(7) state_pkts [OF st]] s3(10) by simp
    show ?thesis unfolding s3(1)
      by (rule wp_mono [OF CloseSession_IORelease [OF s3(2)]])
        (use s3(4-10) log3 False lan_frame_trans [OF s3(3)] in auto)
  qed
qed

end

text \<open>A packet was queued; the slot is in order again unless it still has to be flushed.\<close>

lemma push_slot:
  assumes inv: "lan_inv leak R D L H s" and i: "i < length (sessions s)" "i \<notin> set (indexPool s)" "i \<notin> D"
    and se: "sessions s ! i = se" "closeFlag se = 0"
    and se1: "sq_wf se1" "sq_items se1 = sq_items se @ [Some p]"
      "se1 = se\<lparr>sendQ := sendQ se1, sqTail := sqTail se1, sqCount := sqCount se + 1\<rparr>"
    and D': "D' = (if sendPending se = 0 then insert i D else D)"
    and pk: "pkt_ok leak (add_mset p (H + (se_refs se + other_refs i s))) st"
    and that: "x = sendPending se \<or> x \<noteq> 0 \<and> sendPending se \<noteq> 0"
  shows "lan_inv leak R D' L H ((set_session i (se1\<lparr>sendPending := x\<rparr>) s)\<lparr>store := st, sendCount := c\<rparr>)"
proof -
  let ?se = "se1\<lparr>sendPending := x\<rparr>"
  note slot = lan_inv_slot [OF inv i(1)]
  have f: "sent ?se = sent se" "closeFlag ?se = 0" "sqCount ?se = sqCount se + 1" "sentCount ?se = sentCount se"
      "sID ?se = sID se" "generation ?se = generation se" "recvCtx ?se = recvCtx se" "sendCtx ?se = sendCtx se"
      "ioRefCount ?se = ioRefCount se" "recvBuffer ?se = recvBuffer se" "sendPkts ?se = sendPkts se"
      "sendWsaBuf ?se = sendWsaBuf se"
    using se(2) by (subst se1(3), simp add: sent_def)+
  have it: "sq_items ?se = sq_items se @ [Some p]" "sq_wf ?se"
    using se1(1,2) by (simp_all add: sq_items_def sq_wf_def)
  have "se_refs ?se = add_mset p (se_refs se)" using f(1) it(1) by (simp add: se_refs_def)
  then have pk': "pkt_ok leak (H + (se_refs ?se + other_refs i s)) st" using pk by simp
  have "session_wf ?se" using slot se f it by (simp add: slot_ok_def session_wf_def)
  moreover have "0 \<le> sqCount se" using slot se by (simp add: slot_ok_def session_wf_def sq_wf_def)
  ultimately have "slot_ok leak i (i \<in> R) (i \<in> D') False (count L i) (pending s i RECV) (pending s i SEND) ?se"
    using slot i se f D' that by (auto simp: slot_ok_def)
  with pk' show ?thesis
    by (intro lan_inv_change [OF inv i(1), where se = ?se]) (use i inv D' in \<open>auto simp: lan_inv_def\<close>)
qed

text \<open>
  What a session hands to its connection: everything its socket accepted so far, then everything
  still queued.
\<close>

definition out_to :: "SOCKET \<Rightarrow> 'a CLanServer_scheme \<Rightarrow> bytes" where
  "out_to k s = concat (map snd (filter (\<lambda>e. fst e = k) (outbox s)))"

definition conn_stream :: "'a CLanServer_scheme \<Rightarrow> nat \<Rightarrow> bytes" where
  "conn_stream s i = out_to (sock (sessions s ! i)) s @
     concat (map (\<lambda>p. wire (packets (store s) ! the p)) (sq_items (sessions s ! i)))"

text \<open>An identifier names an open session; a packet for it is accepted unless its queue is full.\<close>

definition names :: "SessionID \<Rightarrow> 'a CLanServer_scheme \<Rightarrow> bool" where
  "names sid s \<longleftrightarrow> sid_index sid < length (sessions s) \<and>
     generation (sessions s ! sid_index sid) = sid_gen sid \<and> closeFlag (sessions s ! sid_index sid) = 0"

definition accepts :: "SessionID \<Rightarrow> 'a CLanServer_scheme \<Rightarrow> bool" where
  "accepts sid s \<longleftrightarrow> names sid s \<and> sqCount (sessions s ! sid_index sid) < Qsize"

context lan_app
begin

text \<open>The wire image of queued packets does not depend on their reference counts.\<close>

lemma wires_same:
  assumes "pkt_data st' = pkt_data st" and "\<forall>q \<in> set (map the qs). q < length (packets st)"
  shows "concat (map (\<lambda>p. wire (packets st' ! the p)) qs) = concat (map (\<lambda>p. wire (packets st ! the p)) qs)"
  using pkt_data_views(2) [OF assms(1)] assms(2) by (auto intro!: arg_cong [where f = concat])

text \<open>\<open>SendPacket\<close> on an identifier it accepts, up to \<open>FlushSend\<close>.\<close>

lemma send_pushed:
  assumes st: "lan_state app_refs app_ok leak R D L H s" and p: "p \<in># H"
    and acc: "accepts sid s" "sid_index sid = i" and se: "sessions s ! i = se"
  obtains st1 se1 where
    "SendPacket v e sid p s = do { s' \<leftarrow> FlushSend v e i ((set_session i se1 s)\<lparr>store := st1, sendCount := sendCount s + 1\<rparr>); Some (True, s') }"
    "pkt_ok leak (add_mset p (H + app_refs (CLanServer.more s) + (se_refs se + other_refs i s))) st1"
    "pkt_data st1 = pkt_data (store s)" "sq_wf se1" "sq_items se1 = sq_items se @ [Some p]"
    "se1 = se\<lparr>sendQ := sendQ se1, sqTail := sqTail se1, sqCount := sqCount se + 1\<rparr>"
    "p < length (packets (store s))" "\<forall>q \<in> set (map the (sq_items se)). q < length (packets (store s))"
proof -
  let ?a = "app_refs (CLanServer.more s)"
  have i: "i < length (sessions s)" "closeFlag se = 0" "sqCount se < 512" "generation se = sid_gen sid"
    using acc se by (auto simp: accepts_def names_def Qsize_def)
  have inv: "lan_inv leak R D L (H + ?a) s" using st by (simp add: lan_state_def)
  have wf: "session_wf se" using lan_inv_slot [OF inv i(1)] se by (simp add: slot_ok_def)
  have pk: "pkt_ok leak (H + ?a + (se_refs se + other_refs i s)) (store s)"
    using lan_inv_pkts [OF inv i(1)] se by simp
  obtain st1 where st1: "AddRef p (store s) = Some st1"
      "pkt_ok leak (add_mset p (H + ?a + (se_refs se + other_refs i s))) st1" "pkt_data st1 = pkt_data (store s)"
    using AddRef_full [OF pk, of p] p by (auto simp: wp_iff)
  obtain se1 where se1: "sq_push (Some p) se = Some se1" "sq_wf se1" "sq_items se1 = sq_items se @ [Some p]"
      "se1 = se\<lparr>sendQ := sendQ se1, sqTail := sqTail se1, sqCount := sqCount se + 1\<rparr>"
    using sq_push_ok [of se "Some p"] wf i(3) by (auto simp: wp_iff session_wf_def)
  have "maxSession s = int (length (sessions s))" using inv by (simp add: lan_inv_def)
  then have "SendPacket v e sid p s =
      do { s' \<leftarrow> FlushSend v e i ((set_session i se1 s)\<lparr>store := st1, sendCount := sendCount s + 1\<rparr>); Some (True, s') }"
    using i acc(2) se st1(1) se1(1) by (simp add: SendPacket_def Let_def Qsize_def)
  moreover have "p < length (packets (store s))" "\<forall>q \<in> set (map the (sq_items se)). q < length (packets (store s))"
    using pkt_inv_bound [OF pkt_ok_inv [OF pk]] p by (auto simp: se_refs_def)
  ultimately show ?thesis using that st1(2,3) se1(2-4) by blast
qed

text \<open>Behind a send that is outstanding the packet only waits; otherwise the flush takes it.\<close>

lemma send_behind_pending:
  assumes st: "lan_state app_refs app_ok leak R D L H s"
    and i: "i < length (sessions s)" "i \<notin> set (indexPool s)" "i \<notin> D" and se: "sessions s ! i = se" "closeFlag se = 0" "sendPending se \<noteq> 0"
    and pk: "pkt_ok leak (add_mset p (H + app_refs (CLanServer.more s) + (se_refs se + other_refs i s))) st1"
      "pkt_data st1 = pkt_data (store s)"
    and se1: "sq_wf se1" "sq_items se1 = sq_items se @ [Some p]"
      "se1 = se\<lparr>sendQ := sendQ se1, sqTail := sqTail se1, sqCount := sqCount se + 1\<rparr>"
    and b: "p < length (packets (store s))" "\<forall>q \<in> set (map the (sq_items se)). q < length (packets (store s))"
    and s': "s' = (set_session i (se1\<lparr>sendPending := 1\<rparr>) s)\<lparr>store := st1, sendCount := sendCount s + 1\<rparr>"
  shows "FlushSend v e i ((set_session i se1 s)\<lparr>store := st1, sendCount := sendCount s + 1\<rparr>) = Some s'"
    and "lan_state app_refs app_ok leak R D L H s'" and "lan_frame i s s'" and "(i, SEND) \<in> set (iocp s')"
    and "conn_stream s' i = conn_stream s i @ wire (packets (store s) ! p)" and "log s' = log s"
    and "closeFlag (sessions s' ! i) = 0" and "sock (sessions s' ! i) = sock se" and "recvBuffer (sessions s' ! i) = recvBuffer se"
proof -
  have inv: "lan_inv leak R D L (H + app_refs (CLanServer.more s)) s" and ok: "app_ok (used_sids s) (CLanServer.more s)"
    using st by (simp_all add: lan_state_def)
  have f: "sendPending se1 = sendPending se" "closeFlag se1 = 0" "generation se1 = generation se" "sID se1 = sID se"
      "sock se1 = sock se" "recvBuffer se1 = recvBuffer se"
    using se(2) by (subst se1(3), simp)+
  show "FlushSend v e i ((set_session i se1 s)\<lparr>store := st1, sendCount := sendCount s + 1\<rparr>) = Some s'"
    using se f(1) i(1) by (simp add: FlushSend_def s' Let_def set_session_def)
  have "lan_inv leak R D L (H + app_refs (CLanServer.more s)) s'"
    unfolding s' by (rule push_slot [OF inv i se(1,2) se1 _ pk(1)]) (use se(3) in auto)
  moreover show fr: "lan_frame i s s'" using i f se by (simp add: lan_frame_def s')
  ultimately show "lan_state app_refs app_ok leak R D L H s'"
    using ok_mono [OF ok lan_frame_used [OF fr]] by (simp add: lan_state_def s')
  show "conn_stream s' i = conn_stream s i @ wire (packets (store s) ! p)"
    using se1(2) i(1) f(5) se wires_same [OF pk(2) b(2)] pkt_data_views(2) [OF pk(2)] b(1) by (simp add: conn_stream_def out_to_def s')
  show "log s' = log s" using log_data [OF pk(2) state_pkts [OF st]] by (simp add: s')
  have "0 < pending s i SEND" using lan_inv_slot [OF inv i(1)] se i by (auto simp: slot_ok_def)
  then show "(i, SEND) \<in> set (iocp s')" by (simp add: pending_def s')
  show "closeFlag (sessions s' ! i) = 0" "sock (sessions s' ! i) = sock se" "recvBuffer (sessions s' ! i) = recvBuffer se"
    using f i(1) by (simp_all add: s')
qed

lemma SendPacket_accept:
  assumes st: "lan_state app_refs app_ok leak R D L H s" and p: "p \<in># H"
    and acc: "accepts sid s" "sid_index sid = i" "i \<notin> set (indexPool s)" "i \<notin> D"
  shows "wp (SendPacket v e sid p s) (\<lambda>(r, s'). r \<and> lan_state app_refs app_ok leak R D L H s' \<and>
     lan_frame i s s' \<and> pkt_data (store s') = pkt_data (store s) \<and>
     app_refs (CLanServer.more s') = app_refs (CLanServer.more s) \<and>
     recvBuffer (sessions s' ! i) = recvBuffer (sessions s ! i) \<and>
     (\<forall>k. k \<noteq> sock (sessions s ! i) \<longrightarrow> out_to k s' = out_to k s) \<and>
     ((\<forall>n. wsa_ok e n) \<longrightarrow> closeFlag (sessions s' ! i) = 0) \<and>
     (if closeFlag (sessions s' ! i) = 0
      then (i, SEND) \<in> set (iocp s') \<and> log s' = log s \<and> sock (sessions s' ! i) = sock (sessions s ! i) \<and>
        conn_stream s' i = conn_stream s i @ wire (packets (store s) ! p)
      else log s' = log s @ [Left (sID (sessions s ! i))] \<and> outbox s' = outbox s))"
proof -
  define se where "se = sessions s ! i"
  obtain st1 se1 where send: "SendPacket v e sid p s =
       do { s' \<leftarrow> FlushSend v e i ((set_session i se1 s)\<lparr>store := st1, sendCount := sendCount s + 1\<rparr>); Some (True, s') }"
    and pk: "pkt_ok leak (add_mset p (H + app_refs (CLanServer.more s) + (se_refs se + other_refs i s))) st1"
    and dt: "pkt_data st1 = pkt_data (store s)" and se1: "sq_wf se1" "sq_items se1 = sq_items se @ [Some p]"
      "se1 = se\<lparr>sendQ := sendQ se1, sqTail := sqTail se1, sqCount := sqCount se + 1\<rparr>"
    and b: "p < length (packets (store s))" "\<forall>q \<in> set (map the (sq_items se)). q < length (packets (store s))"
    by (rule send_pushed [OF st p acc(1,2) se_def [symmetric]])
  have i: "i < length (sessions s)" "closeFlag se = 0" using acc by (auto simp: accepts_def names_def se_def)
  show ?thesis
  proof (cases "sendPending se = 0")
    case False
    note q = send_behind_pending [OF st i(1) acc(3,4) se_def [symmetric] i(2) False pk dt se1 b refl]
    show ?thesis using send q dt by (simp add: out_to_def flip: se_def)
  next
    case True
    have inv: "lan_inv leak R D L (H + app_refs (CLanServer.more s)) s" and ok: "app_ok (used_sids s) (CLanServer.more s)"
      using st by (simp_all add: lan_state_def)
    have f: "sendPending se1 = 0" "closeFlag se1 = 0" "generation se1 = generation se" "sID se1 = sID se"
        "sock se1 = sock se" "recvBuffer se1 = recvBuffer se"
      using i(2) True by (subst se1(3), simp)+
    have q0: "sq_items se = []"
      using lan_inv_slot [OF inv i(1), folded se_def] True acc(3,4) i(2) by (auto simp: slot_ok_def sq_items_def session_wf_def sq_wf_def)
    define s1 where "s1 = (set_session i se1 s)\<lparr>store := st1, sendCount := sendCount s + 1\<rparr>"
    have "se1\<lparr>sendPending := 0\<rparr> = se1" using f(1) by (intro Session.equality) simp_all
    then have "lan_inv leak R (insert i D) L (H + app_refs (CLanServer.more s)) s1"
      using push_slot [OF inv i(1) acc(3,4) se_def [symmetric] i(2) se1 refl pk, of 0 "sendCount s + 1"] True
      by (simp add: s1_def)
    moreover have fr1: "lan_frame i s s1" using i acc f by (simp add: lan_frame_def s1_def flip: se_def)
    ultimately have st1': "lan_state app_refs app_ok leak R (insert i D) L H s1"
      using ok_mono [OF ok lan_frame_used [OF fr1]] by (simp add: lan_state_def s1_def)
    have s1: "i < length (sessions s1)" "i \<notin> set (indexPool s1)" "i \<in> insert i D" "sessions s1 ! i = se1"
        "sendPending se1 = 0" "closeFlag se1 = 0" "sq_items se1 = map Some [p]"
        "insert i D - {i} = D" "store s1 = st1" "outbox s1 = outbox s" "CLanServer.more s1 = CLanServer.more s"
      using i acc f se1(2) q0 by (auto simp: s1_def)
    have v1: "log s1 = log s" "conn_stream s i = out_to (sock se) s" "wire (packets st1 ! p) = wire (packets (store s) ! p)"
      using log_data [OF dt state_pkts [OF st]] q0 pkt_data_views(2) [OF dt b(1)]
      by (simp_all add: s1_def conn_stream_def flip: se_def)
    show ?thesis unfolding send wp_bind s1_def [symmetric]
      using lan_frame_trans [OF fr1] dt f v1 s1(8-11)
      by (intro wp_mono [OF FlushSend_idle [OF st1' s1(1-7)]])
        (cases "wsa_ok e (wsa_calls s1)"; auto simp: conn_stream_def out_to_def simp flip: se_def)
  qed
qed

lemma SendPacket_reject:
  assumes st: "lan_state app_refs app_ok leak R D L H s" and sid: "sid \<in> used_sids s"
    and acc: "\<not> accepts sid s" "sid_index sid = i" "leak \<or> i \<notin> D"
  shows "wp (SendPacket v e sid p s) (\<lambda>(r, s'). \<not> r \<and> lan_state app_refs app_ok leak R D L H s' \<and>
     lan_frame i s s' \<and> pkt_data (store s') = pkt_data (store s) \<and>
     app_refs (CLanServer.more s') = app_refs (CLanServer.more s) \<and> outbox s' = outbox s \<and>
     (s' = s \<and> \<not> names sid s \<or> names sid s \<and> i < length (sessions s) \<and> sqCount (sessions s ! i) = Qsize \<and> closeFlag (sessions s' ! i) \<noteq> 0 \<and>
       log s' = log s @ [Left (sID (sessions s ! i))]))"
proof -
  have mx: "maxSession s = int (length (sessions s))" using st by (simp add: lan_state_def lan_inv_def)
  show ?thesis
  proof (cases "i < length (sessions s) \<and> generation (sessions s ! i) = sid_gen sid \<and> closeFlag (sessions s ! i) = 0")
    case True
    then have full: "sqCount (sessions s ! i) \<ge> Qsize" using acc by (auto simp: accepts_def names_def)
    moreover have "sqCount (sessions s ! i) \<le> Qsize"
      using True lan_state_slot [OF st, of i] by (auto simp: slot_ok_def session_wf_def sq_wf_def Qsize_def)
    ultimately have eq: "sqCount (sessions s ! i) = Qsize" by simp
    have u: "used_slot s i" using sid acc(2) True by (auto simp: used_sids_def)
    have "SendPacket v e sid p s = do { s' \<leftarrow> CloseSession v i s; Some (False, s') }"
      using True full acc(2) mx by (simp add: SendPacket_def Let_def)
    moreover have "names sid s" using True acc(2) by (simp add: names_def)
    ultimately show ?thesis using True eq
      by (simp only: wp_bind) (rule wp_mono [OF CloseSession_ok [OF st _ u acc(3)]], auto)
  next
    case False
    then have "SendPacket v e sid p s = Some (False, s)"
      using acc(2) mx by (auto simp: SendPacket_def Let_def)
    with st False acc(2) show ?thesis by (auto simp: names_def)
  qed
qed

lemma SendPacket_ok:
  assumes st: "lan_state app_refs app_ok leak R D L H s" and sid: "sid \<in> used_sids s"
    and p: "p \<in># H" and D: "sid_index sid \<notin> D"
  shows "wp (SendPacket v e sid p s) (\<lambda>(r, s'). r = accepts sid s \<and>
     lan_state app_refs app_ok leak R D L H s' \<and> lan_frame (sid_index sid) s s' \<and>
     pkt_data (store s') = pkt_data (store s) \<and>
     app_refs (CLanServer.more s') = app_refs (CLanServer.more s) \<and>
     (log s' = log s \<or> log s' = log s @ [Left (sID (sessions s ! sid_index sid))]) \<and>
     (\<forall>k. k \<noteq> sock (sessions s ! sid_index sid) \<longrightarrow> out_to k s' = out_to k s) \<and>
     (if accepts sid s
      then ((\<forall>n. wsa_ok e n) \<longrightarrow> closeFlag (sessions s' ! sid_index sid) = 0) \<and>
        (closeFlag (sessions s' ! sid_index sid) = 0 \<longrightarrow> (sid_index sid, SEND) \<in> set (iocp s') \<and>
        sock (sessions s' ! sid_index sid) = sock (sessions s ! sid_index sid) \<and>
        conn_stream s' (sid_index sid) = conn_stream s (sid_index sid) @ wire (packets (store s) ! p))
      else s' = s \<and> \<not> names sid s \<or> names sid s \<and> outbox s' = outbox s \<and> closeFlag (sessions s' ! sid_index sid) \<noteq> 0))"
proof (cases "accepts sid s")
  case True
  then have "sid_index sid \<notin> set (indexPool s)" using sid by (auto simp: used_sids_def used_slot_def accepts_def names_def)
  from SendPacket_accept [OF st p True refl this D] show ?thesis
    by (rule wp_mono) (auto simp: True split: if_splits)
next
  case False
  have D': "leak \<or> sid_index sid \<notin> D" using D by simp
  from SendPacket_reject [OF st sid False refl D', of e p] show ?thesis
    by (rule wp_mono) (auto simp: False out_to_def)
qed

lemma Disconnect_ok:
  assumes st: "lan_state app_refs app_ok leak R D L H s" and sid: "sid \<in> used_sids s"
    and D: "leak \<or> sid_index sid \<notin> D"
  shows "wp (Disconnect v sid s) (\<lambda>(r, s'). lan_state app_refs app_ok leak R D L H s' \<and>
     lan_frame (sid_index sid) s s' \<and> pkt_data (store s') = pkt_data (store s) \<and>
     (if r then closeFlag (sessions s' ! sid_index sid) \<noteq> 0 \<and> sid_gen sid = generation (sessions s' ! sid_index sid)
      else s' = s \<and> \<not> accepts sid s))"
proof (cases "sid_index sid < length (sessions s) \<and> generation (sessions s ! sid_index sid) = sid_gen sid")
  case True
  have mx: "maxSession s = int (length (sessions s))" using st by (simp add: lan_state_def lan_inv_def)
  have u: "used_slot s (sid_index sid)" using sid True by (auto simp: used_sids_def)
  have "Disconnect v sid s = do { s' \<leftarrow> CloseSession v (sid_index sid) s; Some (True, s') }"
    using True mx by (simp add: Disconnect_def Let_def)
  with True show ?thesis
    by (simp only: wp_bind) (rule wp_mono [OF CloseSession_ok [OF st _ u D]], auto simp: lan_frame_def)
next
  case False
  have mx: "maxSession s = int (length (sessions s))" using st by (simp add: lan_state_def lan_inv_def)
  with False have "Disconnect v sid s = Some (False, s)" by (auto simp: Disconnect_def Let_def)
  with st False show ?thesis by (auto simp: accepts_def names_def)
qed

end

text \<open>The slot after the packets of a finished send were released.\<close>

definition send_idle :: "nat option list \<Rightarrow> Session \<Rightarrow> Session" where
  "send_idle pk se = se\<lparr>sendPkts := pk, sentCount := 0, sendPending := 0\<rparr>"

lemma send_idle_slot:
  assumes inv: "lan_inv leak R D L H s" and i: "i < length (sessions s)" "i \<notin> set (indexPool s)" "i \<in> D"
    and se: "sessions s ! i = se" and len: "length pk = 512"
    and D': "D' = D \<or> D' = D - {i} \<and> sqCount se = 0"
    and pk: "pkt_ok leak (H + (mset (map the (sq_items se)) + other_refs i s)) st"
  shows "lan_inv leak R D' L H ((set_session i (send_idle pk se) s)\<lparr>store := st\<rparr>)"
proof -
  let ?se = "send_idle pk se"
  note slot = lan_inv_slot [OF inv i(1)]
  have it: "sq_items ?se = sq_items se" "sent ?se = []" "sq_wf ?se = sq_wf se"
    by (simp_all add: send_idle_def sq_items_def sent_def sq_wf_def)
  then have "session_wf ?se" "se_refs ?se = mset (map the (sq_items se))"
    using slot se len by (simp_all add: slot_ok_def session_wf_def se_refs_def send_idle_def)
  moreover from this(1) have "slot_ok leak i (i \<in> R) (i \<in> D') False (count L i) (pending s i RECV) (pending s i SEND) ?se"
    using slot i se D' by (auto simp: slot_ok_def send_idle_def)
  ultimately show ?thesis using pk
    by (intro lan_inv_change [OF inv i(1), where se = ?se]) (use i inv D' in \<open>auto simp: lan_inv_def\<close>)
qed

lemma lan_inv_drop_busy:
  assumes inv: "lan_inv leak R D L H s" and i: "i < length (sessions s)"
    and D: "i \<in> D \<Longrightarrow> i \<notin> set (indexPool s) \<Longrightarrow> sendPending (sessions s ! i) = 0 \<and> sqCount (sessions s ! i) = 0"
  shows "lan_inv leak R (D - {i}) L H s"
  using lan_inv_slot [OF inv i] lan_inv_pkts [OF inv i] inv D
  by (intro lan_inv_change [OF inv i, where se = "sessions s ! i"]) (auto simp: lan_inv_def slot_ok_def)

context lan_app
begin

lemma OnSendComplete_ok:
  assumes st: "lan_state app_refs app_ok leak R D L H s"
    and i: "i < length (sessions s)" "i \<notin> set (indexPool s)" "i \<in> D"
  shows "wp (OnSendComplete v e i s) (\<lambda>s'. lan_state app_refs app_ok leak R (D - {i}) L H s' \<and>
     lan_frame i s s' \<and> pkt_data (store s') = pkt_data (store s) \<and>
     recvBuffer (sessions s' ! i) = recvBuffer (sessions s ! i) \<and>
     (closeFlag (sessions s' ! i) = 0 \<longrightarrow> conn_stream s' i = conn_stream s i \<and> log s' = log s \<and>
        sock (sessions s' ! i) = sock (sessions s ! i)))"
proof -
  let ?a = "app_refs (CLanServer.more s)"
  define se where "se = sessions s ! i"
  have inv: "lan_inv leak R D L (H + ?a) s" and ok: "app_ok (used_sids s) (CLanServer.more s)"
    using st by (simp_all add: lan_state_def)
  note slot = lan_inv_slot [OF inv i(1), folded se_def]
  define ps rest where "ps = map the (sent se)" and "rest = drop (nat (sentCount se)) (sendPkts se)"
  have wf: "session_wf se" using slot by (simp add: slot_ok_def)
  have sent: "sendPkts se = map Some ps @ rest" "sentCount se = int (length ps)"
    using wf map_Some_the [of "sent se"] by (auto simp: session_wf_def ps_def rest_def sent_def min_def)
  have pk: "pkt_ok leak (mset ps + (H + ?a + (mset (map the (sq_items se)) + other_refs i s))) (store s)"
    using lan_inv_pkts [OF inv i(1)] by (simp add: se_refs_def ps_def ac_simps flip: se_def)
  let ?pk = "replicate (length ps) None @ rest"
  obtain st1 where rel: "release_sent i s = Some ((set_session i (se\<lparr>sendPkts := ?pk\<rparr>) s)\<lparr>store := st1\<rparr>)"
      "pkt_ok leak (H + ?a + (mset (map the (sq_items se)) + other_refs i s)) st1" "pkt_data st1 = pkt_data (store s)"
    using release_sent_ok [OF i(1) se_def [symmetric] sent pk] by (auto simp: wp_iff)
  have lpk: "length ?pk = 512" using wf arg_cong [OF sent(1), of length] by (simp add: session_wf_def)
  define s1 where "s1 = (set_session i (send_idle ?pk se) s)\<lparr>store := st1\<rparr>"
  have run: "OnSendComplete v e i s = (if sqCount se > 0 then FlushSend v e i s1 else Some s1)"
    using rel(1) i(1) by (simp add: OnSendComplete_def s1_def send_idle_def Let_def set_session_store)
  have s1: "sessions s1 ! i = send_idle ?pk se" "i < length (sessions s1)" "i \<notin> set (indexPool s1)"
      "store s1 = st1" "outbox s1 = outbox s"
    using i by (simp_all add: s1_def)
  have fr1: "lan_frame i s s1" using i by (simp add: lan_frame_def s1_def send_idle_def se_def)
  have "lan_inv leak R D L (H + ?a) s1"
    unfolding s1_def using send_idle_slot [OF inv i se_def [symmetric] lpk _ rel(2), of D] by simp
  then have st1: "lan_state app_refs app_ok leak R D L H s1"
    using ok_mono [OF ok lan_frame_used [OF fr1]] by (simp add: lan_state_def s1_def)
  have log1: "log s1 = log s" using log_data [OF rel(3) state_pkts [OF st]] by (simp add: s1_def)
  have bound: "\<forall>q \<in> set (map the (sq_items se)). q < length (packets (store s))"
    using pkt_inv_bound [OF pkt_ok_inv [OF pk]] by auto
  have wires: "concat (map (\<lambda>p. wire (packets st1 ! the p)) (sq_items se)) =
        concat (map (\<lambda>p. wire (packets (store s) ! the p)) (sq_items se))"
    by (rule wires_same [OF rel(3) bound])
  have cs1: "conn_stream s1 i = conn_stream s i"
    using s1 wires by (simp add: conn_stream_def out_to_def send_idle_def sq_items_def flip: se_def)
  show ?thesis
  proof (cases "sqCount se > 0")
    case False
    have "lan_state app_refs app_ok leak R (D - {i}) L H s1"
      using st1 lan_inv_drop_busy [of leak R D L "H + app_refs (CLanServer.more s1)" s1 i] s1 False wf
      by (auto simp: lan_state_def send_idle_def session_wf_def sq_wf_def)
    with run False fr1 rel(3) cs1 log1 s1 show ?thesis by (simp add: send_idle_def flip: se_def)
  next
    case True
    have idle: "sendPending (send_idle ?pk se) = 0" "closeFlag (send_idle ?pk se) = 0"
      using slot True by (auto simp: send_idle_def slot_ok_def)
    have items: "sq_items (send_idle ?pk se) = map Some (map the (sq_items se))"
      using wf map_Some_the [of "sq_items se"] by (simp add: send_idle_def sq_items_def session_wf_def)
    show ?thesis using run True fr1 rel(3) cs1 log1 s1
      by (simp, intro wp_mono [OF FlushSend_idle [OF st1 s1(2,3) i(3) s1(1) idle items]])
        (cases "wsa_ok e (wsa_calls s1)";
          auto simp: conn_stream_def out_to_def send_idle_def comp_def sq_items_def lan_frame_trans [OF fr1] simp flip: se_def)
  qed
qed

end

end
