(* ===== verification/LanRecv.thy ===== *)
theory LanRecv
  imports LanOps Framing
begin

text \<open>
  The receive path: \<open>OnRecvComplete\<close> delivers exactly the messages of the byte stream, in order,
  however the stream was cut into chunks, and closes the connection at the first malformed frame.
\<close>

section \<open>Changes that stay within one component of the state\<close>

lemma lan_inv_store:
  "lan_inv leak R D L H s \<Longrightarrow> pkt_ok leak (H' + lan_refs s) st \<Longrightarrow> lan_inv leak R D L H' (s\<lparr>store := st\<rparr>)"
  by (simp add: lan_inv_def lan_refs_def pending_def)

lemma used_sids_store [simp]: "used_sids (s\<lparr>store := st\<rparr>) = used_sids s"
  by (simp add: used_sids_def used_slot_def)

lemma used_sids_more [simp]: "used_sids (CLanServer.more_update f s) = used_sids s"
  by (simp add: used_sids_def used_slot_def)

lemma lan_inv_more [simp]: "lan_inv leak R D L H (CLanServer.more_update f s) = lan_inv leak R D L H s"
  by (rule lan_inv_cong) simp_all

lemma lan_refs_store [simp]: "lan_refs (s\<lparr>store := st\<rparr>) = lan_refs s"
  by (simp add: lan_refs_def)

definition with_ring :: "CRingBuffer \<Rightarrow> nat \<Rightarrow> 'a CLanServer_scheme \<Rightarrow> 'a CLanServer_scheme" where
  "with_ring rb i s = set_session i ((sessions s ! i)\<lparr>recvBuffer := rb\<rparr>) s"

lemma lan_inv_ring:
  assumes inv: "lan_inv leak R D L H s" and i: "i < length (sessions s)"
    and rb: "ring_wf rb" "maxSize rb = 4096"
  shows "lan_inv leak R D L H (with_ring rb i s)"
proof -
  let ?se = "(sessions s ! i)\<lparr>recvBuffer := rb\<rparr>"
  have "sent ?se = sent (sessions s ! i)" "sq_items ?se = sq_items (sessions s ! i)"
      "sq_wf ?se = sq_wf (sessions s ! i)"
    by (simp_all add: sent_def sq_items_def sq_wf_def)
  moreover from this have "session_wf ?se" "se_refs ?se = se_refs (sessions s ! i)"
    using lan_inv_slot [OF inv i] rb by (simp_all add: slot_ok_def session_wf_def se_refs_def)
  ultimately show ?thesis using lan_inv_slot [OF inv i] lan_inv_pkts [OF inv i] inv unfolding with_ring_def
    by (intro lan_inv_change [OF inv i, where se = ?se]) (auto simp: lan_inv_def slot_ok_def)
qed

lemma with_ring_frame: "i < length (sessions s) \<Longrightarrow> lan_frame i s (with_ring rb i s)"
  by (simp add: lan_frame_def with_ring_def)

context lan_app
begin

lemma lan_state_ring:
  assumes "lan_state app_refs app_ok leak R D L H s" and "i < length (sessions s)"
    and "ring_wf rb" "maxSize rb = 4096"
  shows "lan_state app_refs app_ok leak R D L H (with_ring rb i s)"
  using assms lan_inv_ring [of leak R D L _ s i rb] ok_mono [OF _ lan_frame_used [OF with_ring_frame [of i s rb]]]
  by (auto simp: lan_state_def with_ring_def)

lemma lan_state_ring_wf:
  "lan_state app_refs app_ok leak R D L H s \<Longrightarrow> i < length (sessions s) \<Longrightarrow>
   ring_wf (recvBuffer (sessions s ! i)) \<and> maxSize (recvBuffer (sessions s ! i)) = 4096"
  using lan_state_slot [of app_refs app_ok leak R D L H s i] by (auto simp: slot_ok_def session_wf_def)

section \<open>A packet comes and goes\<close>

lemma lan_state_store:
  assumes "lan_state app_refs app_ok leak R D L H s"
    and "pkt_ok leak (H' + lan_refs s + app_refs (CLanServer.more s)) st"
  shows "lan_state app_refs app_ok leak R D L H' (s\<lparr>store := st\<rparr>)"
proof -
  have "H' + lan_refs s + app_refs (CLanServer.more s) = H' + app_refs (CLanServer.more s) + lan_refs s"
    by (simp add: ac_simps)
  then have "pkt_ok leak (H' + app_refs (CLanServer.more s) + lan_refs s) st"
    by (rule subst [where P = "\<lambda>h. pkt_ok leak h st"]) (rule assms(2))
  from lan_inv_store [OF _ this] assms(1) show ?thesis by (auto simp: lan_state_def)
qed

lemma alloc_state:
  assumes st: "lan_state app_refs app_ok leak R D L H s" and al: "Alloc (store s) = (p, st')"
  shows "lan_state app_refs app_ok leak R D L (add_mset p H) (s\<lparr>store := st'\<rparr>)"
    and "log (s\<lparr>store := st'\<rparr>) = log s"
    and "p \<notin># app_refs (CLanServer.more s)"
    and "packet_wf (packets st' ! p)" and "p < length (packets st')"
    and "payload (packets st' ! p) = []" and "writePos (packets st' ! p) = 30"
proof -
  have ok: "pkt_ok leak (H + lan_refs s + app_refs (CLanServer.more s)) (store s)"
    using state_pkts [OF st] .
  note inv = pkt_ok_inv [OF ok]
  have new: "p \<notin># H + lan_refs s + app_refs (CLanServer.more s)"
      "pkt_ok leak (add_mset p (H + lan_refs s + app_refs (CLanServer.more s))) st'"
    using pkts.alloc_ok [OF ok al] by auto
  then show "p \<notin># app_refs (CLanServer.more s)" by simp
  from new(2) show "lan_state app_refs app_ok leak R D L (add_mset p H) (s\<lparr>store := st'\<rparr>)"
    using lan_state_store [OF st, of "add_mset p H" st'] by simp
  have "unread_of st' q = unread_of (store s) q" if q: "q \<in># app_refs (CLanServer.more s)" for q
  proof -
    have "q \<noteq> p" "q < length (packets (store s))"
      using q new(1) pkt_inv_bound [OF inv, of q] by auto
    then show ?thesis using Alloc_ok(4) [OF inv al, of q] by (simp add: unread_of_def)
  qed
  then show "log (s\<lparr>store := st'\<rparr>) = log s" by (auto intro: log_cong)
  show "packet_wf (packets st' ! p)" using pkt_inv_wf [OF pkt_ok_inv [OF new(2)]] Alloc_ok(6) [OF inv al] .
  show "p < length (packets st')" "payload (packets st' ! p) = []" "writePos (packets st' ! p) = 30"
    using Alloc_ok(6,3,7) [OF inv al] .
qed

lemma release_state:
  assumes st: "lan_state app_refs app_ok leak R D L (add_mset p H) s"
  shows "wp (Release p (store s)) (\<lambda>st'. lan_state app_refs app_ok leak R D L H (s\<lparr>store := st'\<rparr>) \<and>
     log (s\<lparr>store := st'\<rparr>) = log s \<and> pkt_data st' = pkt_data (store s))"
proof -
  have "pkt_ok leak (add_mset p (H + lan_refs s + app_refs (CLanServer.more s))) (store s)"
    using state_pkts [OF st] by simp
  then show ?thesis
  proof (rule wp_mono [OF Release_full])
    fix st' assume st': "pkt_ok leak (H + lan_refs s + app_refs (CLanServer.more s)) st' \<and>
      pkt_data st' = pkt_data (store s)"
    then have "lan_state app_refs app_ok leak R D L H (s\<lparr>store := st'\<rparr>)"
      using lan_state_store [OF st] by simp
    moreover have "log (s\<lparr>store := st'\<rparr>) = log s" using log_data [OF conjunct2 [OF st'] state_pkts [OF st]] by simp
    ultimately show "lan_state app_refs app_ok leak R D L H (s\<lparr>store := st'\<rparr>) \<and>
       log (s\<lparr>store := st'\<rparr>) = log s \<and> pkt_data st' = pkt_data (store s)"
      using st' by simp
  qed
qed

lemma on_packet_state:
  assumes st: "lan_state app_refs app_ok leak R D L H s" and p: "p \<in># H" "p \<notin># app_refs (CLanServer.more s)"
    and f: "wp (f (packets (store s) ! p)) (\<lambda>q. packet_wf q \<and> refCount q = refCount (packets (store s) ! p) \<and> Q q)"
  shows "wp (on_packet p f (store s)) (\<lambda>st'. lan_state app_refs app_ok leak R D L H (s\<lparr>store := st'\<rparr>) \<and>
     log (s\<lparr>store := st'\<rparr>) = log s \<and> Q (packets st' ! p) \<and> length (packets st') = length (packets (store s)) \<and>
     (\<forall>q. q \<noteq> p \<longrightarrow> packets st' ! q = packets (store s) ! q))"
proof -
  have "p \<in># H + lan_refs s + app_refs (CLanServer.more s)" using p(1) by simp
  then show ?thesis
  proof (rule wp_mono [OF on_packet_ok [where f = f and Q = Q, OF state_pkts [OF st] _ f]])
    fix st' assume st': "pkt_ok leak (H + lan_refs s + app_refs (CLanServer.more s)) st' \<and>
      Q (packets st' ! p) \<and> length (packets st') = length (packets (store s)) \<and>
      (\<forall>q. q \<noteq> p \<longrightarrow> packets st' ! q = packets (store s) ! q)"
    then have "lan_state app_refs app_ok leak R D L H (s\<lparr>store := st'\<rparr>)"
      using lan_state_store [OF st] by simp
    moreover have "log (s\<lparr>store := st'\<rparr>) = log s"
      using st' p(2) by (auto intro!: log_cong simp: unread_of_def)
    ultimately show "lan_state app_refs app_ok leak R D L H (s\<lparr>store := st'\<rparr>) \<and>
       log (s\<lparr>store := st'\<rparr>) = log s \<and> Q (packets st' ! p) \<and> length (packets st') = length (packets (store s)) \<and>
       (\<forall>q. q \<noteq> p \<longrightarrow> packets st' ! q = packets (store s) ! q)"
      using st' by simp
  qed
qed

end

section \<open>One turn of the framing loop\<close>

definition ring_of :: "'a CLanServer_scheme \<Rightarrow> nat \<Rightarrow> CRingBuffer" where
  "ring_of s i = recvBuffer (sessions s ! i)"

lemma header_len:
  "uint (le_to_word (take 2 (take 30 bs)) :: WORD) = int (frame_len bs)"
  by (simp add: frame_len_def min_def)

lemma recv_loop_short:
  assumes "i < length (sessions s)" and "ring_wf (ring_of s i)" and "length (ring_bytes (ring_of s i)) < 30"
  shows "recv_loop v e i s = Some (False, s)"
  using assms by (subst recv_loop.simps) (simp add: ring_of_def UseSize_length packet_layout)

lemma ring_header:
  assumes "ring_wf rb" and "30 \<le> length (ring_bytes rb)"
  shows "Peek rb (replicate 30 0) 30 = Some (30, take 30 (ring_bytes rb))" and "\<not> UseSize rb < 30"
  using assms Peek_ok [of rb 30 "replicate 30 0"] by (simp_all add: UseSize_length)

lemma recv_loop_oversize:
  assumes "i < length (sessions s)" and "ring_wf (ring_of s i)" and "30 \<le> length (ring_bytes (ring_of s i))"
    and "4066 < frame_len (ring_bytes (ring_of s i))"
  shows "recv_loop v e i s = do { s' \<leftarrow> CloseSession v i s; Some (True, s') }"
  using assms ring_header [OF assms(2,3)] header_len [of "ring_bytes (ring_of s i)"]
  by (subst recv_loop.simps) (simp add: packet_layout flip: ring_of_def)

lemma recv_loop_partial:
  assumes "i < length (sessions s)" and "ring_wf (ring_of s i)" and "30 \<le> length (ring_bytes (ring_of s i))"
    and "frame_len (ring_bytes (ring_of s i)) \<le> 4066"
    and "length (ring_bytes (ring_of s i)) < 30 + frame_len (ring_bytes (ring_of s i))"
  shows "recv_loop v e i s = Some (False, s)"
proof -
  have "UseSize (ring_of s i) < 30 + int (frame_len (ring_bytes (ring_of s i)))"
    using assms(2,5) by (simp add: UseSize_length)
  with assms ring_header [OF assms(2,3)] header_len [of "ring_bytes (ring_of s i)"] show ?thesis
    by (subst recv_loop.simps) (simp add: packet_layout flip: ring_of_def)
qed

lemma recv_loop_frame:
  assumes i: "i < length (sessions s)" and wf: "ring_wf (ring_of s i)" and bs: "bs = ring_bytes (ring_of s i)"
    and n: "n = frame_len bs" "n \<le> 4066" "30 + n \<le> length bs" and E: "ossl_ok (crypto e)"
    and s1: "s1 = with_ring (MoveReadPos (ring_of s i) (30 + int n)) i s" and al: "Alloc (store s) = (p, st1)"
  shows "recv_loop v e i s =
    (if frame_valid (crypto e) bs then do {
       st \<leftarrow> on_packet p (\<lambda>q. AttachRaw q (frame_plain (crypto e) bs @ replicate (4096 - n) 0) (int n)) st1;
       s2 \<leftarrow> v_OnRecv v (sID (sessions s ! i)) p (s1\<lparr>store := st\<rparr>);
       st \<leftarrow> Release p (store s2);
       recv_loop v e i (s2\<lparr>recvCount := recvCount s2 + 1\<rparr>\<lparr>store := st\<rparr>) }
     else do {
       st \<leftarrow> Release p st1;
       s' \<leftarrow> CloseSession v i
         (s1\<lparr>store := st1\<rparr>\<lparr>checksumMismatchCount := checksumMismatchCount s + 1\<rparr>\<lparr>store := st\<rparr>);
       Some (True, s') })"
proof -
  let ?rb = "ring_of s i" and ?buf = "take (30 + n) bs @ replicate (4096 - (30 + n)) 0"
  have use: "UseSize ?rb = int (length bs)" using wf bs by (simp add: UseSize_length)
  have pk: "Peek ?rb (replicate 30 0) 30 = Some (30, take 30 bs)" using ring_header [OF wf] n bs by simp
  have rd: "Read ?rb (replicate 4096 0) (30 + int n) = Some (30 + int n, ?buf, MoveReadPos ?rb (30 + int n))"
    using Read_ok [OF wf, of "30 + int n" "replicate 4096 0"] n use bs by (simp add: nat_add_distrib)
  have len: "uint (le_to_word (take 2 (take 30 bs)) :: WORD) = int n" using header_len n(1) by simp
  note fv = frame_take_views [where n = "30 + n" and xs = bs, OF _ n(3)]
  have dec: "Decode (crypto e) ?buf k (replicate 4096 0) = (if frame_valid (crypto e) bs
      then Some (int n, frame_plain (crypto e) bs @ replicate (4096 - n) 0) else Some (- 1, replicate 4096 0))" for k
    using Decode_eq [OF E, of ?buf "replicate 4096 0" k] fv n by simp
  show ?thesis
    using i n use pk rd len dec al
    by (subst recv_loop.simps)
      (simp add: packet_layout Let_def s1 with_ring_def flip: ring_of_def)
qed

section \<open>The framing loop\<close>

context lan_app
begin

lemma recv_callback:
  assumes st: "lan_state app_refs app_ok leak R D L H s" and p: "p \<in># H" and sid: "sid \<in> used_sids s"
    and new: "p \<notin># app_refs (CLanServer.more s)"
  shows "wp (v_OnRecv v sid p s) (\<lambda>s'. lan_state app_refs app_ok leak R D L H s' \<and>
     (\<exists>a st. s' = CLanServer.more_update (\<lambda>_. a) (s\<lparr>store := st\<rparr>)) \<and> pkt_data (store s') = pkt_data (store s) \<and>
     log s' = log s @ [Received sid (unread_of (store s) p)])"
proof -
  have ok: "app_ok (used_sids s) (CLanServer.more s)" using st by (simp add: lan_state_def)
  note pk = state_pkts [OF st]
  have p': "p \<in># H + lan_refs s" using p by simp
  obtain a st' where cb: "v_OnRecv v sid p s = Some (CLanServer.more_update (\<lambda>_. a) (s\<lparr>store := st'\<rparr>))"
      "app_ok (used_sids s) a" "pkt_ok leak (H + lan_refs s + app_refs a) st'" "pkt_data st' = pkt_data (store s)"
      "\<And>f. app_log a f = app_log (CLanServer.more s) f @ [Received sid (f p)]"
    using recv_ok [OF ok sid p' new pk] by (auto simp: wp_iff)
  have "H + lan_refs s + app_refs a = H + app_refs a + lan_refs s" by (simp add: ac_simps)
  then have "pkt_ok leak (H + app_refs a + lan_refs s) st'"
    by (rule subst [where P = "\<lambda>h. pkt_ok leak h st'"]) (rule cb(3))
  then have "lan_inv leak R D L (H + app_refs a) (s\<lparr>store := st'\<rparr>)"
    using st by (intro lan_inv_store [of leak R D L "H + app_refs (CLanServer.more s)" s]) (auto simp: lan_state_def)
  then have "lan_state app_refs app_ok leak R D L H (CLanServer.more_update (\<lambda>_. a) (s\<lparr>store := st'\<rparr>))"
    using cb(2) by (simp add: lan_state_def)
  moreover have "p < length (packets (store s))" using pkt_inv_bound [OF pkt_ok_inv [OF pk], of p] p by simp
  then have "unread_of st' p = unread_of (store s) p"
    using pkt_data_views(1) [OF cb(4)] by (simp add: unread_of_def)
  moreover have "app_log (CLanServer.more s) (unread_of st') = log s" using log_data [OF cb(4) pk] .
  ultimately show ?thesis using cb(1,4,5) by auto
qed

text \<open>A complete frame with a right tag is handed to the derived class.\<close>

text \<open>A message goes through a packet of its own: allocated, filled, handed over, released.\<close>

lemma packet_delivered:
  assumes st: "lan_state app_refs app_ok leak R D L H s1" and al: "Alloc (store s1) = (p, st1)"
    and sid: "sid \<in> used_sids s1" and m: "length m = n" "n \<le> 4066"
  obtains st2 st3 st4 a where "on_packet p (\<lambda>q. AttachRaw q (m @ replicate (4096 - n) 0) (int n)) st1 = Some st2"
    "v_OnRecv v sid p (s1\<lparr>store := st2\<rparr>) = Some (CLanServer.more_update (\<lambda>_. a) (s1\<lparr>store := st3\<rparr>))" "Release p st3 = Some st4"
    "lan_state app_refs app_ok leak R D L H (CLanServer.more_update (\<lambda>_. a) (s1\<lparr>store := st4\<rparr>))"
    "log (CLanServer.more_update (\<lambda>_. a) (s1\<lparr>store := st4\<rparr>)) = log s1 @ [Received sid m]"
proof -
  note alloc = alloc_state [OF st al]
  define s2 where "s2 = s1\<lparr>store := st1\<rparr>"
  let ?f = "\<lambda>q. AttachRaw q (m @ replicate (4096 - n) 0) (int n)"
  have att: "wp (?f (packets (store s2) ! p)) (\<lambda>q. packet_wf q \<and> refCount q = refCount (packets (store s2) ! p) \<and> unread q = m)"
  proof -
    have "n \<le> length (m @ replicate (4096 - n) 0)" using m(1) by simp
    from AttachRaw_eq [OF alloc(4) this m(2)] obtain q where "?f (packets st1 ! p) = Some q" "packet_wf q"
        "unread q = take n (m @ replicate (4096 - n) 0)" "refCount q = refCount (packets st1 ! p)" .
    then show ?thesis using m(1) by (simp add: s2_def)
  qed
  have notin: "p \<notin># app_refs (CLanServer.more s2)" using alloc(3) by (simp add: s2_def)
  have log2: "log s2 = log s1" using alloc(2) by (simp add: s2_def)
  obtain st2 where on: "on_packet p ?f st1 = Some st2"
      "lan_state app_refs app_ok leak R D L (add_mset p H) (s1\<lparr>store := st2\<rparr>)"
      "log (s1\<lparr>store := st2\<rparr>) = log s1" "unread (packets st2 ! p) = m"
    using on_packet_state [where f = ?f and Q = "\<lambda>q. unread q = m", OF alloc(1) [folded s2_def] _ notin att] log2
    by (auto simp: wp_iff s2_def)
  define s3 where "s3 = s1\<lparr>store := st2\<rparr>"
  have u3: "sid \<in> used_sids s3" using sid by (simp add: s3_def)
  have notin3: "p \<notin># app_refs (CLanServer.more s3)" using notin by (simp add: s2_def s3_def)
  obtain a st3 where cb: "v_OnRecv v sid p s3 = Some (CLanServer.more_update (\<lambda>_. a) (s3\<lparr>store := st3\<rparr>))"
      "lan_state app_refs app_ok leak R D L (add_mset p H) (CLanServer.more_update (\<lambda>_. a) (s3\<lparr>store := st3\<rparr>))"
      "log (CLanServer.more_update (\<lambda>_. a) (s3\<lparr>store := st3\<rparr>)) = log s1 @ [Received sid m]"
    using recv_callback [OF on(2) [folded s3_def] _ u3 notin3] on(3,4) by (auto simp: wp_iff s3_def unread_of_def)
  define s4 where "s4 = CLanServer.more_update (\<lambda>_. a) (s3\<lparr>store := st3\<rparr>)"
  obtain st4 where rel: "Release p (store s4) = Some st4" "lan_state app_refs app_ok leak R D L H (s4\<lparr>store := st4\<rparr>)"
      "log (s4\<lparr>store := st4\<rparr>) = log s4"
    using release_state [OF cb(2) [folded s4_def]] by (auto simp: wp_iff)
  have eq: "s4\<lparr>store := st4\<rparr> = CLanServer.more_update (\<lambda>_. a) (s1\<lparr>store := st4\<rparr>)" by (simp add: s4_def s3_def)
  have "v_OnRecv v sid p (s1\<lparr>store := st2\<rparr>) = Some (CLanServer.more_update (\<lambda>_. a) (s1\<lparr>store := st3\<rparr>))" "Release p st3 = Some st4"
    using cb(1) rel(1) by (simp_all add: s3_def s4_def)
  moreover have "log (s4\<lparr>store := st4\<rparr>) = log s1 @ [Received sid m]" using rel(3) cb(3) by (simp add: s4_def)
  ultimately show ?thesis using that on(1) rel(2) unfolding eq by blast
qed

lemma recv_loop_deliver:
  assumes st: "lan_state app_refs app_ok leak R D L H s" and i: "i < length (sessions s)" "i \<notin> set (indexPool s)"
    and bs: "bs = ring_bytes (ring_of s i)" and n: "n = frame_len bs" "n \<le> 4066" "30 + n \<le> length bs"
    and E: "ossl_ok (crypto e)" and valid: "frame_valid (crypto e) bs"
  shows "\<exists>s'. recv_loop v e i s = recv_loop v e i s' \<and> lan_state app_refs app_ok leak R D L H s' \<and>
     lan_frame i s s' \<and> ring_bytes (ring_of s' i) = drop (30 + n) bs \<and> indexPool s' = indexPool s \<and>
     (\<exists>rb. sessions s' ! i = (sessions s ! i)\<lparr>recvBuffer := rb\<rparr>) \<and>
     iocp s' = iocp s \<and> outbox s' = outbox s \<and> wsa_calls s' = wsa_calls s \<and> recvCount s' = recvCount s + 1 \<and>
     log s' = log s @ [Received (sID (sessions s ! i)) (frame_plain (crypto e) bs)]"
proof -
  let ?rb = "MoveReadPos (ring_of s i) (30 + int n)" and ?m = "frame_plain (crypto e) bs" and ?sid = "sID (sessions s ! i)"
  define s1 where "s1 = with_ring ?rb i s"
  obtain p st1 where al: "Alloc (store s) = (p, st1)" by (cases "Alloc (store s)")
  have wf: "ring_wf (ring_of s i)" "maxSize (ring_of s i) = 4096"
    using lan_state_ring_wf [OF st i(1)] by (simp_all add: ring_of_def)
  have ring: "ring_wf ?rb" "maxSize ?rb = 4096" "ring_bytes ?rb = drop (30 + n) bs"
    using wf MoveReadPos_wf [OF wf(1), of "30 + int n"] MoveReadPos_bytes [OF wf(1), of "30 + int n"] n bs
    by (simp_all add: UseSize_length nat_add_distrib)
  have st_1: "lan_state app_refs app_ok leak R D L H s1" and fr1: "lan_frame i s s1"
    unfolding s1_def using lan_state_ring [OF st i(1) ring(1,2)] with_ring_frame [OF i(1)] by auto
  have s1: "sessions s1 = (sessions s)[i := (sessions s ! i)\<lparr>recvBuffer := ?rb\<rparr>]" "store s1 = store s" "log s1 = log s"
      "indexPool s1 = indexPool s" "iocp s1 = iocp s" "outbox s1 = outbox s" "recvCount s1 = recvCount s" "wsa_calls s1 = wsa_calls s"
    by (simp_all add: s1_def with_ring_def)
  have lm: "length ?m = n" using E n by (simp add: frame_plain_def ossl_ok_def)
  have sid: "?sid \<in> used_sids s1" using lan_state_sid(2) [OF st i] lan_frame_used [OF fr1] by auto
  obtain st2 st3 st4 a where d: "on_packet p (\<lambda>q. AttachRaw q (?m @ replicate (4096 - n) 0) (int n)) st1 = Some st2"
    "v_OnRecv v ?sid p (s1\<lparr>store := st2\<rparr>) = Some (CLanServer.more_update (\<lambda>_. a) (s1\<lparr>store := st3\<rparr>))" "Release p st3 = Some st4"
    "lan_state app_refs app_ok leak R D L H (CLanServer.more_update (\<lambda>_. a) (s1\<lparr>store := st4\<rparr>))"
    "log (CLanServer.more_update (\<lambda>_. a) (s1\<lparr>store := st4\<rparr>)) = log s1 @ [Received ?sid ?m]"
    by (rule packet_delivered [OF st_1 al [folded s1(2)] sid lm n(2)])
  define s5 where "s5 = (CLanServer.more_update (\<lambda>_. a) (s1\<lparr>store := st4\<rparr>))\<lparr>recvCount := recvCount s + 1\<rparr>"
  have "(CLanServer.more_update (\<lambda>_. a) (s1\<lparr>store := st3\<rparr>))\<lparr>recvCount := recvCount s + 1, store := st4\<rparr> = s5"
    by (rule CLanServer.equality) (simp_all add: s5_def)
  then have loop: "recv_loop v e i s = recv_loop v e i s5"
    using recv_loop_frame [OF i(1) wf(1) bs n E s1_def al] valid d(1-3) s1(7) by simp
  have "lan_state app_refs app_ok leak R D L H s5" "log s5 = log s @ [Received ?sid ?m]"
    using d(4,5) s1(3) by (simp_all add: s5_def)
  moreover have "lan_frame i s s5" using fr1 by (simp add: s5_def)
  moreover have "ring_bytes (ring_of s5 i) = drop (30 + n) bs" using s1(1) i(1) ring(3) by (simp add: s5_def ring_of_def)
  moreover have "sessions s5 ! i = (sessions s ! i)\<lparr>recvBuffer := ?rb\<rparr>" "indexPool s5 = indexPool s" "iocp s5 = iocp s"
      "outbox s5 = outbox s" "recvCount s5 = recvCount s + 1" "wsa_calls s5 = wsa_calls s"
    using s1 i(1) by (simp_all add: s5_def)
  ultimately show ?thesis using loop by blast
qed

text \<open>A complete frame with a wrong tag closes the connection.\<close>

lemma recv_loop_tampered:
  assumes st: "lan_state app_refs app_ok leak R D L H s" and i: "i < length (sessions s)" "i \<notin> set (indexPool s)"
    and D: "leak \<or> i \<notin> D"
    and bs: "bs = ring_bytes (ring_of s i)" and n: "n = frame_len bs" "n \<le> 4066" "30 + n \<le> length bs"
    and E: "ossl_ok (crypto e)" and bad: "\<not> frame_valid (crypto e) bs"
  shows "wp (recv_loop v e i s) (\<lambda>(ret, s'). ret \<and> lan_state app_refs app_ok leak R D L H s' \<and>
     lan_frame i s s' \<and> ring_bytes (ring_of s' i) = drop (30 + n) bs \<and> closeFlag (sessions s' ! i) \<noteq> 0 \<and>
     iocp s' = iocp s \<and> outbox s' = outbox s \<and> wsa_calls s' = wsa_calls s \<and>
     log s' = log s @ (if closeFlag (sessions s ! i) = 0 then [Left (sID (sessions s ! i))] else []))"
proof -
  let ?rb = "MoveReadPos (ring_of s i) (30 + int n)"
  define s1 where "s1 = with_ring ?rb i s"
  obtain p st1 where al: "Alloc (store s) = (p, st1)" by (cases "Alloc (store s)")
  have wf: "ring_wf (ring_of s i)" "maxSize (ring_of s i) = 4096"
    using lan_state_ring_wf [OF st i(1)] by (simp_all add: ring_of_def)
  have ring: "ring_wf ?rb" "maxSize ?rb = 4096" "ring_bytes ?rb = drop (30 + n) bs"
    using wf MoveReadPos_wf [OF wf(1), of "30 + int n"] MoveReadPos_bytes [OF wf(1), of "30 + int n"] n bs
    by (simp_all add: UseSize_length nat_add_distrib)
  have st_1: "lan_state app_refs app_ok leak R D L H s1" and fr1: "lan_frame i s s1"
    unfolding s1_def using lan_state_ring [OF st i(1) ring(1,2)] with_ring_frame [OF i(1)] by auto
  have s1: "sessions s1 = (sessions s)[i := (sessions s ! i)\<lparr>recvBuffer := ?rb\<rparr>]" "store s1 = store s"
      "CLanServer.more s1 = CLanServer.more s" "indexPool s1 = indexPool s" "iocp s1 = iocp s"
      "outbox s1 = outbox s" "wsa_calls s1 = wsa_calls s"
    by (simp_all add: s1_def with_ring_def)
  note alloc = alloc_state [OF st_1, unfolded s1(2), OF al]
  obtain st2 where rel: "Release p st1 = Some st2" "lan_state app_refs app_ok leak R D L H (s1\<lparr>store := st2\<rparr>)"
      "log (s1\<lparr>store := st2\<rparr>) = log s"
    using release_state [OF alloc(1)] alloc(2) s1(2,3) by (auto simp: wp_iff)
  define s3 where "s3 = (s1\<lparr>store := st2\<rparr>)\<lparr>checksumMismatchCount := checksumMismatchCount s + 1\<rparr>"
  have "(s1\<lparr>store := st1\<rparr>\<lparr>checksumMismatchCount := checksumMismatchCount s + 1\<rparr>\<lparr>store := st2\<rparr>) = s3"
    by (simp add: s3_def)
  then have loop: "recv_loop v e i s = do { s' \<leftarrow> CloseSession v i s3; Some (True, s') }"
    using recv_loop_frame [OF i(1) wf(1) bs n E s1_def al] bad rel(1) by simp
  have st3: "lan_state app_refs app_ok leak R D L H s3" and u: "used_slot s3 i" "i < length (sessions s3)"
    using rel(2) i s1 by (simp_all add: s3_def used_slot_def)
  have fr3: "lan_frame i s s3" using fr1 by (simp add: s3_def)
  have s3: "closeFlag (sessions s3 ! i) = closeFlag (sessions s ! i)" "sID (sessions s3 ! i) = sID (sessions s ! i)"
      "recvBuffer (sessions s3 ! i) = ?rb" "iocp s3 = iocp s" "outbox s3 = outbox s" "log s3 = log s"
      "wsa_calls s3 = wsa_calls s"
    using s1 i(1) rel(3) by (simp_all add: s3_def)
  show ?thesis unfolding loop wp_bind
    by (rule wp_mono [OF CloseSession_ok [OF st3 u(2,1) D]])
      (use s3 ring(3) lan_frame_trans [OF fr3] in \<open>auto simp: ring_of_def\<close>)
qed

text \<open>
  The loop computes \<open>parse\<close>: it returns for every input, delivers the parsed messages in order, and
  closes the connection exactly when the stream is malformed.
\<close>

text \<open>The loop ends when the buffer does not start with a complete, valid frame.\<close>

lemma recv_loop_stops:
  assumes E: "ossl_ok (crypto e)" and D: "leak \<or> i \<notin> D"
    and st: "lan_state app_refs app_ok leak R D L H s" and i: "i < length (sessions s)" "i \<notin> set (indexPool s)"
    and bs: "bs = ring_bytes (ring_of s i)"
    and stop: "\<not> (frame_len bs \<le> 4066 \<and> 30 + frame_len bs \<le> length bs \<and> frame_valid (crypto e) bs)"
    and p: "parse (crypto e) bs = (ms, en, r)"
  shows "wp (recv_loop v e i s) (\<lambda>(ret, s'). lan_state app_refs app_ok leak R D L H s' \<and> lan_frame i s s' \<and>
     ret = (en \<noteq> NeedMore) \<and> ring_bytes (ring_of s' i) = r \<and> iocp s' = iocp s \<and> outbox s' = outbox s \<and>
     wsa_calls s' = wsa_calls s \<and>
     (if en = NeedMore then indexPool s' = indexPool s \<and> (\<exists>rb. sessions s' ! i = (sessions s ! i)\<lparr>recvBuffer := rb\<rparr>)
      else closeFlag (sessions s' ! i) \<noteq> 0) \<and>
     log s' = log s @ map (Received (sID (sessions s ! i))) ms @
       (if en \<noteq> NeedMore \<and> closeFlag (sessions s ! i) = 0 then [Left (sID (sessions s ! i))] else []))"
proof -
  have wf: "ring_wf (ring_of s i)" using lan_state_ring_wf [OF st i(1)] by (simp add: ring_of_def)
  let ?n = "frame_len bs"
  have idle: "\<exists>rb. sessions s ! i = (sessions s ! i)\<lparr>recvBuffer := rb\<rparr>"
    by (rule exI [of _ "recvBuffer (sessions s ! i)"]) simp
  consider (short) "length bs < 30" | (over) "30 \<le> length bs" "4066 < ?n"
    | (partial) "30 \<le> length bs" "?n \<le> 4066" "length bs < 30 + ?n"
    | (bad) "?n \<le> 4066" "30 + ?n \<le> length bs" "\<not> frame_valid (crypto e) bs"
    using stop by linarith
  then show ?thesis
  proof cases
    case short
    then have "parse (crypto e) bs = ([], NeedMore, bs)" by (subst parse.simps) simp
    with p recv_loop_short [OF i(1) wf] short st idle show ?thesis by (simp flip: bs)
  next
    case over
    then have p': "parse (crypto e) bs = ([], Oversize, bs)" by (subst parse.simps) simp
    have u: "used_slot s i" using i by (simp add: used_slot_def)
    have "recv_loop v e i s = do { s' \<leftarrow> CloseSession v i s; Some (True, s') }"
      using recv_loop_oversize [OF i(1) wf] over by (simp flip: bs)
    with p p' show ?thesis
      by (simp only: wp_bind, intro wp_mono [OF CloseSession_ok [OF st i(1) u D]]) (auto simp: ring_of_def bs)
  next
    case partial
    then have "parse (crypto e) bs = ([], NeedMore, bs)" by (subst parse.simps) simp
    with p recv_loop_partial [OF i(1) wf] partial st idle show ?thesis by (simp flip: bs)
  next
    case bad
    then have "parse (crypto e) bs = ([], BadTag, drop (30 + ?n) bs)" by (subst parse.simps) simp
    with p have "ms = []" "en = BadTag" "r = drop (30 + ?n) bs" by simp_all
    then show ?thesis
      by (intro wp_mono [OF recv_loop_tampered [OF st i D bs refl bad(1,2) E bad(3)]]) auto
  qed
qed

lemma recv_loop_ok:
  assumes "ossl_ok (crypto e)" and "leak \<or> i \<notin> D"
    and "lan_state app_refs app_ok leak R D L H s" and "i < length (sessions s)" and "i \<notin> set (indexPool s)"
    and "parse (crypto e) (ring_bytes (ring_of s i)) = (ms, en, r)"
  shows "wp (recv_loop v e i s) (\<lambda>(ret, s'). lan_state app_refs app_ok leak R D L H s' \<and> lan_frame i s s' \<and>
     ret = (en \<noteq> NeedMore) \<and> ring_bytes (ring_of s' i) = r \<and> iocp s' = iocp s \<and> outbox s' = outbox s \<and>
     wsa_calls s' = wsa_calls s \<and>
     (if en = NeedMore then indexPool s' = indexPool s \<and> (\<exists>rb. sessions s' ! i = (sessions s ! i)\<lparr>recvBuffer := rb\<rparr>)
      else closeFlag (sessions s' ! i) \<noteq> 0) \<and>
     log s' = log s @ map (Received (sID (sessions s ! i))) ms @
       (if en \<noteq> NeedMore \<and> closeFlag (sessions s ! i) = 0 then [Left (sID (sessions s ! i))] else []))"
  using assms(3-6)
proof (induction "length (ring_bytes (ring_of s i))" arbitrary: s ms rule: less_induct)
  case less
  note st = less.prems(1) and i = less.prems(2,3)
  define bs where "bs = ring_bytes (ring_of s i)"
  let ?n = "frame_len bs"
  show ?case
  proof (cases "?n \<le> 4066 \<and> 30 + ?n \<le> length bs \<and> frame_valid (crypto e) bs")
    case False
    then show ?thesis by (rule recv_loop_stops [OF assms(1,2) st i bs_def _ less.prems(4) [folded bs_def]])
  next
    case True
    then have good: "?n \<le> 4066" "30 + ?n \<le> length bs" "frame_valid (crypto e) bs" by simp_all
    obtain s' where s': "recv_loop v e i s = recv_loop v e i s'" "lan_state app_refs app_ok leak R D L H s'"
        "lan_frame i s s'" "ring_bytes (ring_of s' i) = drop (30 + ?n) bs" "indexPool s' = indexPool s"
        "\<exists>rb. sessions s' ! i = (sessions s ! i)\<lparr>recvBuffer := rb\<rparr>"
        "iocp s' = iocp s" "outbox s' = outbox s" "wsa_calls s' = wsa_calls s"
        "log s' = log s @ [Received (sID (sessions s ! i)) (frame_plain (crypto e) bs)]"
      using recv_loop_deliver [OF st i bs_def refl good(1,2) assms(1) good(3)] by blast
    obtain ms' where ms': "parse (crypto e) (drop (30 + ?n) bs) = (ms', en, r)" "ms = frame_plain (crypto e) bs # ms'"
      using less.prems(4) good by (subst (asm) parse.simps) (auto simp flip: bs_def split: prod.splits)
    have same: "closeFlag (sessions s' ! i) = closeFlag (sessions s ! i)" "sID (sessions s' ! i) = sID (sessions s ! i)"
      using s'(6) by auto
    have "length (ring_bytes (ring_of s' i)) < length (ring_bytes (ring_of s i))"
      using s'(4) good by (simp flip: bs_def)
    from less.hyps [OF this s'(2)] s'(3-5) i ms'(1)
    have "wp (recv_loop v e i s') (\<lambda>(ret, u). lan_state app_refs app_ok leak R D L H u \<and> lan_frame i s' u \<and>
     ret = (en \<noteq> NeedMore) \<and> ring_bytes (ring_of u i) = r \<and> iocp u = iocp s' \<and> outbox u = outbox s' \<and>
     wsa_calls u = wsa_calls s' \<and>
     (if en = NeedMore then indexPool u = indexPool s' \<and> (\<exists>rb. sessions u ! i = (sessions s' ! i)\<lparr>recvBuffer := rb\<rparr>)
      else closeFlag (sessions u ! i) \<noteq> 0) \<and>
     log u = log s' @ map (Received (sID (sessions s' ! i))) ms' @
       (if en \<noteq> NeedMore \<and> closeFlag (sessions s' ! i) = 0 then [Left (sID (sessions s' ! i))] else []))"
      by (simp add: lan_frame_length)
    then show ?thesis unfolding s'(1)
      by (rule wp_mono) (use s' same ms'(2) lan_frame_trans [OF s'(3)] in \<open>auto split: if_splits\<close>)
  qed
qed

end

end
