(* ===== verification/LanTurns.thy ===== *)
theory LanTurns
  imports LanRecv
begin

text \<open>
  The turns of the worker and accept threads: every completion and every accepted connection takes
  a state between turns to a state between turns. Starting the server establishes that state.
\<close>

section \<open>A slot stops being busy\<close>

text \<open>Once closed or back in the pool, a slot needs no receive and no send any more.\<close>

lemma lan_inv_settle:
  assumes inv: "lan_inv leak R D L H s" and i: "i < length (sessions s)"
    and c: "i \<in> set (indexPool s) \<or> closeFlag (sessions s ! i) \<noteq> 0"
  shows "lan_inv leak (R - {i}) D L H s" and "leak \<Longrightarrow> lan_inv leak R (D - {i}) L H s"
proof -
  note slot = lan_inv_slot [OF inv i]
  show "lan_inv leak (R - {i}) D L H s"
    using slot lan_inv_pkts [OF inv i] inv c
    by (intro lan_inv_change [OF inv i, where se = "sessions s ! i"]) (auto simp: lan_inv_def slot_ok_def)
  show "lan_inv leak R (D - {i}) L H s" if leak
    using slot lan_inv_pkts [OF inv i] inv c that
    by (intro lan_inv_change [OF inv i, where se = "sessions s ! i"]) (auto simp: lan_inv_def slot_ok_def)
qed

lemma lan_state_settle:
  assumes "lan_state ar ao leak R D L H s" and "i < length (sessions s)"
    and "i \<in> set (indexPool s) \<or> closeFlag (sessions s ! i) \<noteq> 0"
  shows "lan_state ar ao leak (R - {i}) D L H s" and "leak \<Longrightarrow> lan_state ar ao leak R (D - {i}) L H s"
  using assms lan_inv_settle [of leak R D L "H + ar (CLanServer.more s)" s i] by (auto simp: lan_state_def)

text \<open>A receive that \<open>WSARecv\<close> accepted.\<close>

lemma recv_accepted:
  assumes inv: "lan_inv leak R D L H s" and i: "i < length (sessions s)" "i \<notin> set (indexPool s)" "i \<in> R"
    and se: "se = (sessions s ! i)\<lparr>ioRefCount := ioRefCount (sessions s ! i) + 1\<rparr>"
  shows "lan_inv leak (R - {i}) D L H ((set_session i se s)\<lparr>iocp := (i, RECV) # iocp s\<rparr>)"
proof -
  let ?s = "(set_session i se s)\<lparr>iocp := (i, RECV) # iocp s\<rparr>"
  have "pending ?s j ty = pending s j ty" if "j \<noteq> i" for j ty using that by (simp add: pending_def)
  moreover have "pending ?s i RECV = Suc (pending s i RECV)" "pending ?s i SEND = pending s i SEND"
    by (simp_all add: pending_def)
  moreover have "slot_ok leak i False (i \<in> D) False (count L i) (Suc (pending s i RECV)) (pending s i SEND) se"
    using lan_inv_slot [OF inv i(1)] i se by (auto simp: slot_ok_def)
  ultimately show ?thesis using lan_inv_pkts [OF inv i(1)]
    by (intro lan_inv_change [OF inv i(1), where se = se]) (use i inv se in \<open>auto simp: lan_inv_def\<close>)
qed

context lan_app
begin

text \<open>A slot that was closed needs no receive any more.\<close>

lemma close_settled:
  assumes st: "lan_state app_refs app_ok leak R D L H s" and i: "i < length (sessions s)"
    and u: "used_slot s i" and D: "leak \<or> i \<notin> D"
  shows "wp (CloseSession v i s) (\<lambda>s'. lan_state app_refs app_ok leak (R - {i}) D L H s' \<and> lan_frame i s s' \<and>
     closeFlag (sessions s' ! i) \<noteq> 0 \<and> pkt_data (store s') = pkt_data (store s) \<and>
     iocp s' = iocp s \<and> outbox s' = outbox s \<and> recvBuffer (sessions s' ! i) = recvBuffer (sessions s ! i) \<and>
     log s' = log s @ (if closeFlag (sessions s ! i) = 0 then [Left (sID (sessions s ! i))] else []))"
  by (rule wp_mono [OF CloseSession_ok [OF assms]])
    (use i in \<open>auto intro: lan_state_settle(1) simp: lan_frame_length\<close>)

lemma release_settled:
  assumes st: "lan_state app_refs app_ok leak R D (add_mset i L) H s" and D: "leak \<or> i \<notin> D" and i: "i < length (sessions s)"
  shows "wp (do { s \<leftarrow> CloseSession v i s; IORelease i s }) (\<lambda>s'.
     lan_state app_refs app_ok leak (R - {i}) D L H s' \<and> lan_frame i s s' \<and>
     closeFlag (sessions s' ! i) \<noteq> 0 \<and> pkt_data (store s') = pkt_data (store s) \<and>
     iocp s' = iocp s \<and> outbox s' = outbox s \<and> recvBuffer (sessions s' ! i) = recvBuffer (sessions s ! i) \<and>
     log s' = log s @ (if closeFlag (sessions s ! i) = 0 then [Left (sID (sessions s ! i))] else []))"
  by (rule wp_mono [OF CloseSession_IORelease [OF st D]])
    (use i in \<open>auto intro: lan_state_settle(1) simp: lan_frame_length\<close>)

lemma PostRecv_ok:
  assumes st: "lan_state app_refs app_ok leak R D L H s"
    and i: "i < length (sessions s)" "i \<notin> set (indexPool s)" "i \<in> R" and D: "leak \<or> i \<notin> D"
  shows "wp (PostRecv v e i s) (\<lambda>s'. lan_state app_refs app_ok leak (R - {i}) D L H s' \<and> lan_frame i s s' \<and>
     pkt_data (store s') = pkt_data (store s) \<and> outbox s' = outbox s \<and> ring_of s' i = ring_of s i \<and>
     (if wsa_ok e (wsa_calls s)
      then closeFlag (sessions s' ! i) = closeFlag (sessions s ! i) \<and> iocp s' = (i, RECV) # iocp s \<and>
        sock (sessions s' ! i) = sock (sessions s ! i) \<and> log s' = log s
      else closeFlag (sessions s' ! i) \<noteq> 0 \<and> iocp s' = iocp s \<and>
        log s' = log s @ (if closeFlag (sessions s ! i) = 0 then [Left (sID (sessions s ! i))] else [])))"
proof -
  let ?a = "app_refs (CLanServer.more s)"
  define se where "se = (sessions s ! i)\<lparr>ioRefCount := ioRefCount (sessions s ! i) + 1\<rparr>"
  have inv: "lan_inv leak R D L (H + ?a) s" and ok: "app_ok (used_sids s) (CLanServer.more s)"
    using st by (simp_all add: lan_state_def)
  have RECV: "recvCtx se = RECV" using lan_inv_slot [OF inv i(1)] i by (simp add: slot_ok_def se_def)
  define s1 where "s1 = (set_session i se s)\<lparr>wsa_calls := wsa_calls s + 1\<rparr>"
  have post: "PostRecv v e i s = (if wsa_ok e (wsa_calls s) then Some (s1\<lparr>iocp := (i, RECV) # iocp s\<rparr>)
      else do { s' \<leftarrow> CloseSession v i s1; IORelease i s' })"
    using i RECV by (simp add: PostRecv_def IOAddRef_def Let_def s1_def flip: se_def)
  have fr1: "lan_frame i s s1" using i by (simp add: lan_frame_def s1_def se_def)
  have s1: "sessions s1 = (sessions s)[i := se]" "CLanServer.more s1 = CLanServer.more s" "store s1 = store s"
      "iocp s1 = iocp s" "outbox s1 = outbox s"
    by (simp_all add: s1_def)
  show ?thesis
  proof (cases "wsa_ok e (wsa_calls s)")
    case True
    let ?s = "s1\<lparr>iocp := (i, RECV) # iocp s\<rparr>"
    have "lan_inv leak (R - {i}) D L (H + ?a) ?s"
      using recv_accepted [OF inv i se_def] lan_inv_cong [of ?s "(set_session i se s)\<lparr>iocp := (i, RECV) # iocp s\<rparr>"]
      by (simp add: s1_def)
    moreover have fr: "lan_frame i s ?s" using fr1 by (simp add: lan_frame_def pending_def s1_def)
    ultimately have "lan_state app_refs app_ok leak (R - {i}) D L H ?s"
      using ok_mono [OF ok lan_frame_used [OF fr]] s1(2) by (simp add: lan_state_def)
    with True post fr s1 i(1) show ?thesis by (simp add: ring_of_def se_def)
  next
    case False
    obtain s0 where s0: "IOAddRef i s = Some s0" "lan_inv leak R D (add_mset i L) (H + ?a) s0" "s0 = set_session i se s"
      using IOAddRef_ok [OF inv i(1,2)] by (auto simp: wp_iff se_def)
    then have st1: "lan_state app_refs app_ok leak R D (add_mset i L) H s1"
      using lan_inv_cong [of s1 s0] ok_mono [OF ok lan_frame_used [OF fr1]]
      by (simp add: lan_state_def s1_def)
    have e: "PostRecv v e i s = do { s' \<leftarrow> CloseSession v i s1; IORelease i s' }" using False post by simp
    have i1: "i < length (sessions s1)" using i(1) s1(1) by simp
    show ?thesis unfolding e
      by (rule wp_mono [OF release_settled [OF st1 D i1]])
        (use False s1 i(1) lan_frame_trans [OF fr1] in \<open>auto simp: ring_of_def se_def\<close>)
  qed
qed

section \<open>Receive completions\<close>

lemma OnRecvComplete_ok:
  assumes st: "lan_state app_refs app_ok leak R D L H s"
    and i: "i < length (sessions s)" "i \<notin> set (indexPool s)" "i \<in> R" and D: "leak \<or> i \<notin> D"
    and E: "ossl_ok (crypto e)"
    and rb: "rb = MoveWritePos (ring_of s i) bytes" "ring_wf rb" "maxSize rb = 4096"
    and p: "parse (crypto e) (ring_bytes rb) = (ms, en, r)"
    and closes: "closes \<longleftrightarrow> en \<noteq> NeedMore \<or> length r = 4095 \<or> \<not> wsa_ok e (wsa_calls s)"
  shows "wp (OnRecvComplete v e i bytes s) (\<lambda>s'. lan_state app_refs app_ok leak (R - {i}) D L H s' \<and>
     lan_frame i s s' \<and> outbox s' = outbox s \<and> pending s' i SEND = pending s i SEND \<and> ring_bytes (ring_of s' i) = r \<and>
     (closeFlag (sessions s' ! i) \<noteq> 0 \<longleftrightarrow> closes \<or> closeFlag (sessions s ! i) \<noteq> 0) \<and>
     log s' = log s @ map (Received (sID (sessions s ! i))) ms @
       (if closes \<and> closeFlag (sessions s ! i) = 0 then [Left (sID (sessions s ! i))] else []))"
proof -
  define s1 where "s1 = with_ring rb i s"
  have s1: "sessions s1 ! i = (sessions s ! i)\<lparr>recvBuffer := rb\<rparr>" "i < length (sessions s1)"
      "i \<notin> set (indexPool s1)" "ring_of s1 i = rb" "wsa_calls s1 = wsa_calls s" "outbox s1 = outbox s"
      "log s1 = log s" "indexPool s1 = indexPool s" "iocp s1 = iocp s"
    using i by (simp_all add: s1_def with_ring_def ring_of_def)
  have st1: "lan_state app_refs app_ok leak R D L H s1" and fr1: "lan_frame i s s1"
    unfolding s1_def using lan_state_ring [OF st i(1) rb(2,3)] with_ring_frame [OF i(1)] by auto
  have p1: "parse (crypto e) (ring_bytes (ring_of s1 i)) = (ms, en, r)" using p s1(4) by simp
  let ?sid = "sID (sessions s ! i)" and ?open = "closeFlag (sessions s ! i) = 0"
  obtain ret s2 where loop: "recv_loop v e i s1 = Some (ret, s2)" and st2: "lan_state app_refs app_ok leak R D L H s2"
    and fr2: "lan_frame i s1 s2"
    and l2: "ret = (en \<noteq> NeedMore)" "ring_bytes (ring_of s2 i) = r" "outbox s2 = outbox s1" "wsa_calls s2 = wsa_calls s1"
      "if en = NeedMore then indexPool s2 = indexPool s1 \<and> (\<exists>rb. sessions s2 ! i = (sessions s1 ! i)\<lparr>recvBuffer := rb\<rparr>)
      else closeFlag (sessions s2 ! i) \<noteq> 0"
      "log s2 = log s @ map (Received ?sid) ms @ (if en \<noteq> NeedMore \<and> ?open then [Left ?sid] else [])" "iocp s2 = iocp s1"
    using recv_loop_ok [OF E D st1 s1(2,3) p1] s1(1,7) by (auto simp: wp_iff)
  have run: "OnRecvComplete v e i bytes s = (if ret then Some s2
      else if DirectEnqueueSize (ring_of s2 i) = 0 then CloseSession v i s2 else PostRecv v e i s2)"
    using i(1) loop lan_frame_length [OF fr2] s1(2)
    by (simp add: OnRecvComplete_def s1_def with_ring_def rb(1) ring_of_def)
  have pd2: "pending s2 j ty = pending s j ty" for j ty using l2(7) s1(9) by (simp add: pending_def)
  have fr12: "lan_frame i s s2" using lan_frame_trans [OF fr1 fr2] .
  have i2: "i < length (sessions s2)" using lan_frame_length [OF fr2] s1(2) by simp
  show ?thesis
  proof (cases "en = NeedMore")
    case False
    with run l2 st2 fr12 pd2 s1(6) closes lan_state_settle(1) [OF st2 i2] show ?thesis by simp
  next
    case True
    then have s2: "i \<notin> set (indexPool s2)" "closeFlag (sessions s2 ! i) = closeFlag (sessions s ! i)" "sID (sessions s2 ! i) = ?sid"
        "log s2 = log s @ map (Received ?sid) ms"
      using l2(5,6) s1(1,3) by auto
    have wf2: "ring_wf (ring_of s2 i)" "maxSize (ring_of s2 i) = 4096"
      using lan_state_ring_wf [OF st2 i2] by (simp_all add: ring_of_def)
    have full: "DirectEnqueueSize (ring_of s2 i) = 0 \<longleftrightarrow> length r = 4095"
      using DirectEnqueueSize_0_iff [OF wf2(1)] UseSize_length [OF wf2(1)] wf2(2) l2(2) by (auto simp: FreeSize_def)
    show ?thesis
    proof (cases "length r = 4095")
      case full': True
      have u: "used_slot s2 i" using s2(1) by (simp add: used_slot_def)
      have r2: "OnRecvComplete v e i bytes s = CloseSession v i s2" using run l2(1) True full full' by simp
      show ?thesis unfolding r2
        by (rule wp_mono [OF close_settled [OF st2 i2 u D]])
          (use s2 l2(2,3) s1(6) closes full' lan_frame_trans [OF fr12] pd2 [of i SEND] in \<open>auto simp: ring_of_def pending_def\<close>)
    next
      case notfull: False
      have r2: "OnRecvComplete v e i bytes s = PostRecv v e i s2" using run l2(1) True full notfull by simp
      have pd: "pending s' i SEND = pending s i SEND" if "iocp s' = (i, RECV) # iocp s2 \<or> iocp s' = iocp s2" for s' :: "'a CLanServer_scheme"
        using that pd2 [of i SEND] by (auto simp: pending_def)
      show ?thesis unfolding r2 using l2(2-4) s1(5,6) s2 closes True notfull lan_frame_trans [OF fr12] pd
        by (intro wp_mono [OF PostRecv_ok [OF st2 i2 s2(1) i(3) D]])
          (cases "wsa_ok e (wsa_calls s)"; auto)
    qed
  qed
qed

end

section \<open>Completions\<close>

text \<open>
  A completion: the kernel finishes an outstanding operation and a worker thread handles it.
\<close>

definition io_completion ::
    "'a vtbl \<Rightarrow> sysenv \<Rightarrow> bool \<Rightarrow> int \<Rightarrow> nat \<Rightarrow> ioType \<Rightarrow> bytes \<Rightarrow> 'a CLanServer_scheme \<Rightarrow>
     'a CLanServer_scheme option" where
  "io_completion v e ok bytes i ty data s = do {
     s \<leftarrow> kernel_complete i ty data s;
     WorkerThread_turn v e ok bytes (i + 1) ty s }"

text \<open>
  What Windows guarantees of a completion: received data fits the buffer that was handed over and
  its length is reported; only a successful receive stores data.
\<close>

definition completion_ok :: "bool \<Rightarrow> int \<Rightarrow> nat \<Rightarrow> ioType \<Rightarrow> bytes \<Rightarrow> 'a CLanServer_scheme \<Rightarrow> bool" where
  "completion_ok ok bytes i ty data s \<longleftrightarrow> (i, ty) \<in> set (iocp s) \<and>
     int (length data) \<le> DirectEnqueueSize (ring_of s i) \<and>
     (if ok \<and> ty = RECV then bytes = int (length data) else data = [])"

lemma ring_store_wf:
  assumes "ring_wf b" and "int (length data) \<le> DirectEnqueueSize b"
  obtains b' where "ring_store b data = Some b'" "ring_wf b'" "maxSize b' = maxSize b"
    "ring_wf (MoveWritePos b' (int (length data)))"
    "ring_bytes (MoveWritePos b' (int (length data))) = ring_bytes b @ data"
proof -
  obtain b' where b': "ring_store b data = Some b'" "ring_wf (MoveWritePos b' (int (length data)))"
      "maxSize b' = maxSize b" "ring_bytes (MoveWritePos b' (int (length data))) = ring_bytes b @ data"
    using ring_store_MoveWritePos [OF assms] by (auto simp: wp_iff)
  have "rear b + int (length data) \<le> maxSize b" using DirectEnqueueSize_bounds [OF assms(1)] assms(2) by linarith
  from ring_store_eq [OF assms(1) this] b'(1)
  have "b' = b\<lparr>buffer := take (nat (rear b)) (buffer b) @ data @ drop (nat (rear b) + length data) (buffer b)\<rparr>"
    by simp
  moreover have "nat (rear b) + length data \<le> length (buffer b)"
    using \<open>rear b + int (length data) \<le> maxSize b\<close> assms(1) by (auto simp: ring_wf_def)
  ultimately have "ring_wf b'" using assms(1) by (auto simp: ring_wf_def)
  with b' show thesis by (intro that)
qed

lemma pending_remove:
  assumes "(i, ty) \<in> set (iocp s)" and "iocp s' = remove1 (i, ty) (iocp s)"
  shows "pending s i ty = Suc (pending s' i ty)" and "(j, ty') \<noteq> (i, ty) \<Longrightarrow> pending s' j ty' = pending s j ty'"
proof -
  have "mset (iocp s) = add_mset (i, ty) (mset (iocp s'))" using assms by simp
  then show "pending s i ty = Suc (pending s' i ty)"
    and "(j, ty') \<noteq> (i, ty) \<Longrightarrow> pending s' j ty' = pending s j ty'" by (auto simp: pending_def)
qed

lemma kernel_slot:
  assumes inv: "lan_inv leak {} {} {#} H s" and io: "(i, ty) \<in> set (iocp s)" and i: "i < length (sessions s)"
    and rb: "ring_wf rb" "maxSize rb = 4096"
  shows "i \<notin> set (indexPool s)"
    and "lan_inv leak (if ty = RECV then {i} else {}) (if ty = SEND then {i} else {}) {#i#} H
     ((with_ring rb i s)\<lparr>iocp := remove1 (i, ty) (iocp s)\<rparr>)"
proof -
  note slot = lan_inv_slot [OF inv i]
  have "0 < pending s i ty" using io by (simp add: pending_def)
  then show np: "i \<notin> set (indexPool s)" using slot by (cases ty) (auto simp: slot_ok_def)
  have inv': "lan_inv leak {} {} {#} H (with_ring rb i s)" using lan_inv_ring [OF inv i rb] .
  let ?w = "with_ring rb i s"
  let ?s = "?w\<lparr>iocp := remove1 (i, ty) (iocp s)\<rparr>"
  have w: "i < length (sessions ?w)" "(i, ty) \<in> set (iocp ?w)" "iocp ?s = remove1 (i, ty) (iocp ?w)"
      "i \<notin> set (indexPool ?w)"
    using i io np by (simp_all add: with_ring_def)
  note slot' = lan_inv_slot [OF inv' w(1)] and pr = pending_remove [OF w(2,3)]
  have "slot_ok leak i (ty = RECV) (ty = SEND) False 1 (pending ?s i RECV) (pending ?s i SEND) (sessions ?w ! i)"
    using slot' w(4) pr(1) pr(2) [of i] by (cases ty) (auto simp: slot_ok_def)
  then show "lan_inv leak (if ty = RECV then {i} else {}) (if ty = SEND then {i} else {}) {#i#} H ?s"
    using lan_inv_pkts [OF inv' w(1)] w pr(2)
    by (intro lan_inv_change [OF inv' w(1), where se = "sessions ?w ! i"])
      (use inv' in \<open>auto simp: lan_inv_def\<close>)
qed

context lan_app
begin

lemma kernel_complete_ok:
  assumes st: "lan_state app_refs app_ok leak {} {} {#} H s" and c: "completion_ok ok bytes i ty data s"
  obtains rb s' where "kernel_complete i ty data s = Some s'" "i < length (sessions s)" "i \<notin> set (indexPool s)"
    "s' = (with_ring rb i s)\<lparr>iocp := remove1 (i, ty) (iocp s)\<rparr>"
    "lan_state app_refs app_ok leak (if ty = RECV then {i} else {}) (if ty = SEND then {i} else {}) {#i#} H s'"
    "lan_frame i s s'" "ring_wf (MoveWritePos rb (int (length data)))" "maxSize rb = 4096"
    "ring_bytes (MoveWritePos rb (int (length data))) = ring_bytes (ring_of s i) @ data"
proof -
  have inv: "lan_inv leak {} {} {#} (H + app_refs (CLanServer.more s)) s"
    and ok: "app_ok (used_sids s) (CLanServer.more s)" using st by (simp_all add: lan_state_def)
  have io: "(i, ty) \<in> set (iocp s)" using c by (simp add: completion_ok_def)
  then have i: "i < length (sessions s)" using inv by (auto simp: lan_inv_def)
  have wf: "ring_wf (ring_of s i)" "maxSize (ring_of s i) = 4096"
    using lan_state_ring_wf [OF st i] by (simp_all add: ring_of_def)
  obtain rb where rb: "ring_store (ring_of s i) data = Some rb" "ring_wf rb" "maxSize rb = maxSize (ring_of s i)"
      "ring_wf (MoveWritePos rb (int (length data)))"
      "ring_bytes (MoveWritePos rb (int (length data))) = ring_bytes (ring_of s i) @ data"
    using ring_store_wf [OF wf(1)] c by (auto simp: completion_ok_def)
  let ?s = "(with_ring rb i s)\<lparr>iocp := remove1 (i, ty) (iocp s)\<rparr>"
  have "kernel_complete i ty data s = Some ?s"
    using io i rb(1) by (simp add: kernel_complete_def with_ring_def ring_of_def)
  moreover note k = kernel_slot [OF inv io i rb(2)] 
  moreover have fr: "lan_frame i s ?s"
    using i pending_remove(2) [OF io, of ?s] by (simp add: lan_frame_def with_ring_def)
  moreover have "lan_state app_refs app_ok leak (if ty = RECV then {i} else {}) (if ty = SEND then {i} else {}) {#i#} H ?s"
    using k(2) rb(3) wf(2) ok_mono [OF ok lan_frame_used [OF fr]] by (simp add: lan_state_def with_ring_def)
  ultimately show thesis using i rb wf(2) by (intro that) simp_all
qed

text \<open>A failed or empty completion closes the session and gives the operation's reference back.\<close>

lemma io_completion_failed:
  assumes st: "lan_state app_refs app_ok leak {} {} {#} H s" and c: "completion_ok ok bytes i ty data s"
    and f: "\<not> ok \<or> bytes = 0" and leak: "ty = SEND \<Longrightarrow> leak"
  shows "wp (io_completion v e ok bytes i ty data s) (\<lambda>s'. lan_state app_refs app_ok leak {} {} {#} H s' \<and>
     lan_frame i s s' \<and> closeFlag (sessions s' ! i) \<noteq> 0 \<and> outbox s' = outbox s \<and>
     log s' = log s @ (if closeFlag (sessions s ! i) = 0 then [Left (sID (sessions s ! i))] else []))"
proof -
  obtain rb s1 where k: "kernel_complete i ty data s = Some s1" "i < length (sessions s)"
    "s1 = (with_ring rb i s)\<lparr>iocp := remove1 (i, ty) (iocp s)\<rparr>"
    "lan_state app_refs app_ok leak (if ty = RECV then {i} else {}) (if ty = SEND then {i} else {}) {#i#} H s1"
    "lan_frame i s s1"
    using kernel_complete_ok [OF st c] by metis
  have run: "io_completion v e ok bytes i ty data s = do { s \<leftarrow> CloseSession v i s1; IORelease i s }"
    using k(1) f by (auto simp: io_completion_def WorkerThread_turn_def)
  have D: "leak \<or> i \<notin> (if ty = SEND then {i} else {})" using leak by simp
  have s1: "closeFlag (sessions s1 ! i) = closeFlag (sessions s ! i)" "sID (sessions s1 ! i) = sID (sessions s ! i)"
      "log s1 = log s" "outbox s1 = outbox s" "length (sessions s1) = length (sessions s)"
    using k(2,3) by (simp_all add: with_ring_def)
  show ?thesis unfolding run
  proof (rule wp_mono [OF CloseSession_IORelease [OF k(4) D]])
    fix s'
    assume s': "lan_state app_refs app_ok leak (if ty = RECV then {i} else {}) (if ty = SEND then {i} else {}) {#} H s' \<and>
       lan_frame i s1 s' \<and> closeFlag (sessions s' ! i) \<noteq> 0 \<and> pkt_data (store s') = pkt_data (store s1) \<and> app_refs (CLanServer.more s') = app_refs (CLanServer.more s1) \<and>
       iocp s' = iocp s1 \<and> outbox s' = outbox s1 \<and> wsa_calls s' = wsa_calls s1 \<and>
       recvBuffer (sessions s' ! i) = recvBuffer (sessions s1 ! i) \<and>
       log s' = log s1 @ (if closeFlag (sessions s1 ! i) = 0 then [Left (sID (sessions s1 ! i))] else [])"
    then have i': "i < length (sessions s')" using lan_frame_length [of i s1 s'] k(2) s1(5) by simp
    have "lan_state app_refs app_ok leak {} {} {#} H s'"
      using s' lan_state_settle [OF conjunct1 [OF s'] i'] leak by (cases ty) auto
    with s' s1 lan_frame_trans [OF k(5)] show "lan_state app_refs app_ok leak {} {} {#} H s' \<and>
       lan_frame i s s' \<and> closeFlag (sessions s' ! i) \<noteq> 0 \<and> outbox s' = outbox s \<and>
       log s' = log s @ (if closeFlag (sessions s ! i) = 0 then [Left (sID (sessions s ! i))] else [])"
      by auto
  qed
qed

text \<open>A receive completion delivers the messages the extended stream contains.\<close>

lemma io_completion_recv:
  assumes st: "lan_state app_refs app_ok leak {} {} {#} H s" and c: "completion_ok True bytes i RECV data s"
    and ne: "data \<noteq> []" and E: "ossl_ok (crypto e)"
    and p: "parse (crypto e) (ring_bytes (ring_of s i) @ data) = (ms, en, r)"
    and closes: "closes \<longleftrightarrow> en \<noteq> NeedMore \<or> length r = 4095 \<or> \<not> wsa_ok e (wsa_calls s)"
  shows "wp (io_completion v e True bytes i RECV data s) (\<lambda>s'. lan_state app_refs app_ok leak {} {} {#} H s' \<and>
     lan_frame i s s' \<and> outbox s' = outbox s \<and> pending s' i SEND = pending s i SEND \<and> ring_bytes (ring_of s' i) = r \<and>
     (closeFlag (sessions s' ! i) \<noteq> 0 \<longleftrightarrow> closes \<or> closeFlag (sessions s ! i) \<noteq> 0) \<and>
     log s' = log s @ map (Received (sID (sessions s ! i))) ms @
       (if closes \<and> closeFlag (sessions s ! i) = 0 then [Left (sID (sessions s ! i))] else []))"
proof -
  have bytes: "bytes = int (length data)" using c by (simp add: completion_ok_def)
  obtain rb s1 where k: "kernel_complete i RECV data s = Some s1" "i < length (sessions s)" "i \<notin> set (indexPool s)"
    "s1 = (with_ring rb i s)\<lparr>iocp := remove1 (i, RECV) (iocp s)\<rparr>"
    "lan_state app_refs app_ok leak {i} {} {#i#} H s1" "lan_frame i s s1"
    and ring: "ring_wf (MoveWritePos rb bytes)" "maxSize rb = 4096"
    "ring_bytes (MoveWritePos rb bytes) = ring_bytes (ring_of s i) @ data"
    by (rule kernel_complete_ok [OF st c]) (rule that, simp_all add: bytes)
  have s1: "closeFlag (sessions s1 ! i) = closeFlag (sessions s ! i)" "sID (sessions s1 ! i) = sID (sessions s ! i)"
      "log s1 = log s" "outbox s1 = outbox s" "ring_of s1 i = rb" "i < length (sessions s1)"
      "i \<notin> set (indexPool s1)" "wsa_calls s1 = wsa_calls s"
    using k(2-4) by (simp_all add: with_ring_def ring_of_def)
  have pd1: "pending s1 i SEND = pending s i SEND" using k(4) by (simp add: pending_def with_ring_def)
  have run: "io_completion v e True bytes i RECV data s =
      do { s \<leftarrow> OnRecvComplete v e i bytes s1; IORelease i s }"
    using k(1) ne bytes by (simp add: io_completion_def WorkerThread_turn_def)
  have mx: "maxSize (MoveWritePos rb bytes) = 4096" using ring(2) by simp
  have p1: "parse (crypto e) (ring_bytes (MoveWritePos rb bytes)) = (ms, en, r)" using p ring(3) by simp
  have cl1: "closes \<longleftrightarrow> en \<noteq> NeedMore \<or> length r = 4095 \<or> \<not> wsa_ok e (wsa_calls s1)" using closes s1(8) by simp
  obtain s2 where s2: "OnRecvComplete v e i bytes s1 = Some s2" "lan_state app_refs app_ok leak {} {} {#i#} H s2"
      "lan_frame i s1 s2" "outbox s2 = outbox s1" "ring_bytes (ring_of s2 i) = r"
      "closeFlag (sessions s2 ! i) \<noteq> 0 \<longleftrightarrow> closes \<or> closeFlag (sessions s1 ! i) \<noteq> 0"
      "log s2 = log s1 @ map (Received (sID (sessions s1 ! i))) ms @
        (if closes \<and> closeFlag (sessions s1 ! i) = 0 then [Left (sID (sessions s1 ! i))] else [])"
      "pending s2 i SEND = pending s1 i SEND"
    using OnRecvComplete_ok [OF k(5) s1(6,7) _ _ E _ ring(1) mx p1 cl1, of bytes] s1(5) by (auto simp: wp_iff)
  have i2: "i < length (sessions s2)" using lan_frame_length [OF s2(3)] s1(6) by simp
  have fr: "lan_frame i s s2" using lan_frame_trans [OF k(6) s2(3)] .
  show ?thesis unfolding run s2(1) Option.bind.bind_lunit
    by (rule wp_mono [OF IORelease_state [OF s2(2) _ ok_mono]])
      (use s2(4-8) s1 pd1 i2 lan_frame_trans [OF fr] in \<open>auto simp: ring_of_def\<close>)
qed

text \<open>A send completion releases what was sent and sends what was queued meanwhile.\<close>

lemma io_completion_send:
  assumes st: "lan_state app_refs app_ok leak {} {} {#} H s" and c: "completion_ok True bytes i SEND data s"
    and b: "bytes \<noteq> 0"
  shows "wp (io_completion v e True bytes i SEND data s) (\<lambda>s'. lan_state app_refs app_ok leak {} {} {#} H s' \<and>
     lan_frame i s s' \<and> pkt_data (store s') = pkt_data (store s) \<and>
     (closeFlag (sessions s' ! i) = 0 \<longrightarrow> conn_stream s' i = conn_stream s i \<and> log s' = log s))"
proof -
  have data: "data = []" using c by (simp add: completion_ok_def)
  obtain rb s1 where k: "kernel_complete i SEND data s = Some s1" "i < length (sessions s)" "i \<notin> set (indexPool s)"
    "s1 = (with_ring rb i s)\<lparr>iocp := remove1 (i, SEND) (iocp s)\<rparr>"
    "lan_state app_refs app_ok leak {} {i} {#i#} H s1" "lan_frame i s s1"
    by (rule kernel_complete_ok [OF st c]) (rule that, simp_all)
  have s1: "log s1 = log s" "conn_stream s1 i = conn_stream s i" "store s1 = store s" "i < length (sessions s1)"
      "i \<notin> set (indexPool s1)"
    using k(2-4) by (simp_all add: with_ring_def conn_stream_def out_to_def sq_items_def)
  have run: "io_completion v e True bytes i SEND data s = do { s \<leftarrow> OnSendComplete v e i s1; IORelease i s }"
    using k(1) b by (simp add: io_completion_def WorkerThread_turn_def)
  obtain s2 where s2: "OnSendComplete v e i s1 = Some s2" "lan_state app_refs app_ok leak {} {} {#i#} H s2"
      "lan_frame i s1 s2" "pkt_data (store s2) = pkt_data (store s1)"
      "closeFlag (sessions s2 ! i) = 0 \<longrightarrow> conn_stream s2 i = conn_stream s1 i \<and> log s2 = log s1"
    using OnSendComplete_ok [OF k(5) s1(4,5), of e] by (auto simp: wp_iff)
  have i2: "i < length (sessions s2)" using lan_frame_length [OF s2(3)] s1(4) by simp
  have fr: "lan_frame i s s2" using lan_frame_trans [OF k(6) s2(3)] .
  show ?thesis unfolding run s2(1) Option.bind.bind_lunit
    by (rule wp_mono [OF IORelease_state [OF s2(2) _ ok_mono]])
      (use s2(4,5) s1 i2 lan_frame_trans [OF fr] in \<open>auto simp: conn_stream_def out_to_def sq_items_def\<close>)
qed

end

section \<open>Accepting connections\<close>

text \<open>
  What a turn of the accept thread does: \<open>lg\<close> is the event log. A refused or surplus connection
  changes nothing; otherwise the slot on top of the pool gets a fresh identifier and is announced,
  and it is announced as gone again when it cannot be attached to the port or cannot receive.
\<close>

definition accept_post ::
    "('a CLanServer_scheme \<Rightarrow> lan_event list) \<Rightarrow> bool \<Rightarrow> bool \<Rightarrow> bool \<Rightarrow> SOCKET \<Rightarrow>
     'a CLanServer_scheme \<Rightarrow> 'a CLanServer_scheme \<Rightarrow> bool" where
  "accept_post lg requested associated receiving sk s s' \<longleftrightarrow>
     (if \<not> requested \<or> indexPool s = [] then s' = s
      else let i = hd (indexPool s); sid = make_sid i (generation (sessions s ! i) + 1) in
        (\<forall>j. j \<noteq> i \<longrightarrow> sessions s' ! j = sessions s ! j \<and> (j \<in> set (indexPool s') \<longleftrightarrow> j \<in> set (indexPool s))) \<and>
        length (sessions s') = length (sessions s) \<and> outbox s' = outbox s \<and>
        generation (sessions s' ! i) = generation (sessions s ! i) + 1 \<and>
        (if associated \<and> receiving
         then lg s' = lg s @ [Joined sid] \<and> closeFlag (sessions s' ! i) = 0 \<and> sock (sessions s' ! i) = sk \<and>
           ring_bytes (ring_of s' i) = [] \<and> i \<notin> set (indexPool s')
         else lg s' = lg s @ (if associated then [Joined sid] else []) @ [Left sid] \<and>
           closeFlag (sessions s' ! i) \<noteq> 0))"

context lan_app
begin

text \<open>The slot an accepted connection gets, and the two ways it goes on.\<close>

lemma accept_alloc:
  assumes st: "lan_state app_refs app_ok leak {} {} {#} H s" and ne: "indexPool s \<noteq> []" and i: "i = hd (indexPool s)"
  obtains s1 where "AllocSession sk s = Some (Some i, s1)" "lan_state app_refs app_ok leak {i} {} {#} H s1"
    "i < length (sessions s1)" "i \<notin> set (indexPool s1)" "used_sids s \<subseteq> used_sids s1" "length (sessions s1) = length (sessions s)"
    "sID (sessions s1 ! i) = make_sid i (generation (sessions s ! i) + 1)" "closeFlag (sessions s1 ! i) = 0"
    "sock (sessions s1 ! i) = sk" "ring_bytes (ring_of s1 i) = []" "generation (sessions s1 ! i) = generation (sessions s ! i) + 1"
    "\<forall>j. j \<noteq> i \<longrightarrow> sessions s1 ! j = sessions s ! j \<and> (j \<in> set (indexPool s1) \<longleftrightarrow> j \<in> set (indexPool s))"
    "log s1 = log s" "wsa_calls s1 = wsa_calls s" "outbox s1 = outbox s"
proof -
  obtain ps where ps: "indexPool s = i # ps" using ne i by (cases "indexPool s") auto
  have inv: "lan_inv leak {} {} {#} (H + app_refs (CLanServer.more s)) s" and ok: "app_ok (used_sids s) (CLanServer.more s)"
    using st by (simp_all add: lan_state_def)
  obtain s1 where s1: "AllocSession sk s = Some (Some i, s1)"
      "lan_inv leak {i} {} {#} (H + app_refs (CLanServer.more s)) s1" "i \<notin> set (indexPool s1)" "i < length (sessions s1)"
      "used_sids s \<subseteq> used_sids s1" "indexPool s = i # indexPool s1"
      "s1 = set_session i (InitSession i sk (sessions s ! i)) (s\<lparr>indexPool := indexPool s1\<rparr>)"
    using AllocSession_ok [OF inv, of sk] ps by (auto simp: wp_iff split: option.splits)
  have f1: "CLanServer.more s1 = CLanServer.more s" "store s1 = store s" "wsa_calls s1 = wsa_calls s" "outbox s1 = outbox s"
      "sessions s1 = (sessions s)[i := InitSession i sk (sessions s ! i)]"
    by (subst s1(7), simp)+
  then have n: "sessions s1 ! i = InitSession i sk (sessions s ! i)" using s1(4) by simp
  have "lan_state app_refs app_ok leak {i} {} {#} H s1"
    using s1(2) ok_mono [OF ok s1(5)] f1(1) by (simp add: lan_state_def)
  moreover have "log s1 = log s" using f1 by simp
  moreover have "ring_bytes (ring_of s1 i) = []" unfolding ring_of_def n by (simp add: InitSession_def Let_def)
  ultimately show ?thesis
    using s1(1,3-6) f1(3-5) n by (intro that [of s1]) (simp_all add: InitSession_def Let_def)
qed

text \<open>The connection is announced, and then the first receive is posted.\<close>

lemma accept_join:
  assumes st1: "lan_state app_refs app_ok leak {i} {} {#} H s1" and i: "i < length (sessions s1)" "i \<notin> set (indexPool s1)"
    and al: "AllocSession sk s = Some (Some i, s1)" and rq: "v_OnConnectionRequest v ip port"
  obtains s3 where "AcceptThread_turn v e sk ip port True s = PostRecv v e i s3"
    "lan_state app_refs app_ok leak {i} {} {#} H s3" "sessions s3 = sessions s1" "indexPool s3 = indexPool s1"
    "wsa_calls s3 = wsa_calls s1" "outbox s3 = outbox s1" "used_sids s3 = used_sids s1"
    "log s3 = log s1 @ [Joined (sID (sessions s1 ! i))]"
proof -
  let ?sid = "sID (sessions s1 ! i)"
  define s2 where "s2 = s1\<lparr>totalAccept := totalAccept s1 + 1, acceptCount := acceptCount s1 + 1\<rparr>"
  have st2: "lan_state app_refs app_ok leak {i} {} {#} H s2" using st1 by (simp add: s2_def)
  then have ok2: "app_ok (used_sids s2) (CLanServer.more s2)" by (simp add: lan_state_def)
  have u2: "used_sids s2 = used_sids s1" by (simp add: s2_def used_sids_def used_slot_def)
  have sid2: "?sid \<in> used_sids s2" using lan_state_sid(2) [OF st1 i] u2 by simp
  obtain a where a: "v_OnClientJoin v ?sid s2 = Some (CLanServer.more_update (\<lambda>_. a) s2)"
      "app_ok (used_sids s2) a" "app_refs a = app_refs (CLanServer.more s2)"
      "\<And>f. app_log a f = app_log (CLanServer.more s2) f @ [Joined ?sid]"
    using join_ok [OF ok2 sid2] by (auto simp: wp_iff)
  define s3 where "s3 = CLanServer.more_update (\<lambda>_. a) s2"
  have "AcceptThread_turn v e sk ip port True s = PostRecv v e i s3"
    using rq al i a(1) by (simp add: AcceptThread_turn_def Let_def s3_def) (simp add: s2_def)
  moreover have "lan_state app_refs app_ok leak {i} {} {#} H s3" using st2 a(2,3) by (simp add: lan_state_def s3_def)
  moreover have "used_sids s3 = used_sids s1" by (simp add: s3_def s2_def used_sids_def used_slot_def)
  ultimately show ?thesis using a(4) by (intro that [of s3]) (simp_all add: s3_def s2_def)
qed

text \<open>Whatever happens to the new slot, the others stay as they were.\<close>

lemma accept_others:
  assumes "\<forall>j. j \<noteq> i \<longrightarrow> sessions s1 ! j = sessions s ! j \<and> (j \<in> set (indexPool s1) \<longleftrightarrow> j \<in> set (indexPool s))"
    and "length (sessions s1) = length (sessions s)" and "generation (sessions s1 ! i) = g" and "used_sids s \<subseteq> used_sids s1"
    and "sessions s3 = sessions s1" "indexPool s3 = indexPool s1" "used_sids s3 = used_sids s1" and "lan_frame i s3 s'"
  shows "\<forall>j. j \<noteq> i \<longrightarrow> sessions s' ! j = sessions s ! j \<and> (j \<in> set (indexPool s') \<longleftrightarrow> j \<in> set (indexPool s))"
    and "length (sessions s') = length (sessions s)" and "generation (sessions s' ! i) = g" and "used_sids s \<subseteq> used_sids s'"
  using assms lan_frame_used [OF assms(8)] by (auto simp: lan_frame_def)

lemma AcceptThread_ok:
  assumes st: "lan_state app_refs app_ok leak {} {} {#} H s"
  shows "wp (AcceptThread_turn v e sk ip port associated s) (\<lambda>s'.
     lan_state app_refs app_ok leak {} {} {#} H s' \<and> used_sids s \<subseteq> used_sids s' \<and>
     accept_post log (v_OnConnectionRequest v ip port) associated (wsa_ok e (wsa_calls s)) sk s s')"
proof (cases "\<not> v_OnConnectionRequest v ip port \<or> indexPool s = []")
  case True
  have "AcceptThread_turn v e sk ip port associated s = Some s"
    using True by (auto simp: AcceptThread_turn_def AllocSession_def stack_pop_def)
  with True st show ?thesis by (simp add: accept_post_def)
next
  case False
  define i where "i = hd (indexPool s)"
  let ?sid = "make_sid i (generation (sessions s ! i) + 1)"
  obtain s1 where al: "AllocSession sk s = Some (Some i, s1)" and st1: "lan_state app_refs app_ok leak {i} {} {#} H s1"
    and i: "i < length (sessions s1)" "i \<notin> set (indexPool s1)" and u1: "used_sids s \<subseteq> used_sids s1" "length (sessions s1) = length (sessions s)"
    and f: "sID (sessions s1 ! i) = ?sid" "closeFlag (sessions s1 ! i) = 0" "sock (sessions s1 ! i) = sk"
      "ring_bytes (ring_of s1 i) = []" "generation (sessions s1 ! i) = generation (sessions s ! i) + 1"
    and o1: "\<forall>j. j \<noteq> i \<longrightarrow> sessions s1 ! j = sessions s ! j \<and> (j \<in> set (indexPool s1) \<longleftrightarrow> j \<in> set (indexPool s))"
    and v1: "log s1 = log s" "wsa_calls s1 = wsa_calls s" "outbox s1 = outbox s"
    using accept_alloc [OF st _ i_def] False by blast
  note others = accept_others [OF o1 u1(2) f(5) u1(1)]
  show ?thesis
  proof (cases associated)
    case assoc: False
    have run: "AcceptThread_turn v e sk ip port associated s = CloseSession v i s1"
      using False assoc al by (simp add: AcceptThread_turn_def)
    have u: "used_slot s1 i" using i by (simp add: used_slot_def)
    show ?thesis unfolding run
    proof (rule wp_mono [OF close_settled [OF st1 i(1) u]], simp)
      fix s'
      assume s': "lan_state app_refs app_ok leak ({i} - {i}) {} {#} H s' \<and> lan_frame i s1 s' \<and>
         closeFlag (sessions s' ! i) \<noteq> 0 \<and> pkt_data (store s') = pkt_data (store s1) \<and>
         iocp s' = iocp s1 \<and> outbox s' = outbox s1 \<and> recvBuffer (sessions s' ! i) = recvBuffer (sessions s1 ! i) \<and>
         log s' = log s1 @ (if closeFlag (sessions s1 ! i) = 0 then [Left (sID (sessions s1 ! i))] else [])"
      then show "lan_state app_refs app_ok leak {} {} {#} H s' \<and> used_sids s \<subseteq> used_sids s' \<and>
         accept_post log (v_OnConnectionRequest v ip port) associated (wsa_ok e (wsa_calls s)) sk s s'"
        using False assoc v1 f(1,2) others [OF refl refl refl, of s'] by (simp add: accept_post_def Let_def flip: i_def)
    qed
  next
    case assoc: True
    obtain s3 where run: "AcceptThread_turn v e sk ip port True s = PostRecv v e i s3"
      and st3: "lan_state app_refs app_ok leak {i} {} {#} H s3" and s3: "sessions s3 = sessions s1" "indexPool s3 = indexPool s1"
        "wsa_calls s3 = wsa_calls s1" "outbox s3 = outbox s1" "used_sids s3 = used_sids s1" "log s3 = log s1 @ [Joined ?sid]"
      using accept_join [OF st1 i al] False f(1) by metis
    have i3: "i < length (sessions s3)" "i \<notin> set (indexPool s3)" "i \<in> {i}" "leak \<or> i \<notin> {}" using i s3(1,2) by simp_all
    have T: "associated = True" using assoc by simp
    show ?thesis unfolding T run
    proof (rule wp_mono [OF PostRecv_ok [OF st3 i3]])
      fix s'
      assume s': "lan_state app_refs app_ok leak ({i} - {i}) {} {#} H s' \<and> lan_frame i s3 s' \<and>
         pkt_data (store s') = pkt_data (store s3) \<and> outbox s' = outbox s3 \<and> ring_of s' i = ring_of s3 i \<and>
         (if wsa_ok e (wsa_calls s3)
          then closeFlag (sessions s' ! i) = closeFlag (sessions s3 ! i) \<and> iocp s' = (i, RECV) # iocp s3 \<and>
            sock (sessions s' ! i) = sock (sessions s3 ! i) \<and> log s' = log s3
          else closeFlag (sessions s' ! i) \<noteq> 0 \<and> iocp s' = iocp s3 \<and>
            log s' = log s3 @ (if closeFlag (sessions s3 ! i) = 0 then [Left (sID (sessions s3 ! i))] else []))"
      moreover have "i \<notin> set (indexPool s')" if "closeFlag (sessions s' ! i) = 0"
        using s' that i3(2) by (auto simp: lan_frame_def)
      ultimately show "lan_state app_refs app_ok leak {} {} {#} H s' \<and> used_sids s \<subseteq> used_sids s' \<and>
         accept_post log (v_OnConnectionRequest v ip port) True (wsa_ok e (wsa_calls s)) sk s s'"
        using False s3 v1 f others [OF s3(1,2,5), of s'] by (auto simp: accept_post_def Let_def ring_of_def simp flip: i_def)
    qed
  qed
qed

end

end
