(* ===== verification/Room.thy ===== *)
theory Room
  imports Strings
begin

text \<open>
  \<open>CPlayer\<close>, \<open>CRoom\<close> and \<open>CRoomManager\<close>: who is connected, in which state, and who sits in which
  room. A \<open>CPlayer*\<close> is the position of the object in the list of all objects ever created.
\<close>

section \<open>Players\<close>

datatype PlayerState = PS_NOT_LOGIN | PS_LOGGED_IN | PS_IN_ROOM

record CPlayer =
  pl_sid :: SessionID
  userNo :: LONG
  nickname :: bytes
  pl_roomNo :: WORD
  pl_state :: PlayerState

text \<open>\<open>new CPlayer(s)\<close>; only the first byte of the 32 of \<open>nickname\<close> is initialised.\<close>

definition CPlayer_new :: "bytes \<Rightarrow> SessionID \<Rightarrow> CPlayer" where
  "CPlayer_new mem s = \<lparr>pl_sid = s, userNo = 0, nickname = mem[0 := 0],
     pl_roomNo = INVALID_ROOM_NO, pl_state = PS_NOT_LOGIN\<rparr>"

definition CPlayer_default :: "bytes \<Rightarrow> CPlayer" where
  "CPlayer_default mem = \<lparr>pl_sid = 0, userNo = 0, nickname = mem[0 := 0],
     pl_roomNo = INVALID_ROOM_NO, pl_state = PS_NOT_LOGIN\<rparr>"

definition GetSid :: "CPlayer \<Rightarrow> SessionID" where "GetSid p = pl_sid p"
definition GetUserNo :: "CPlayer \<Rightarrow> LONG" where "GetUserNo p = userNo p"
definition GetNickname :: "CPlayer \<Rightarrow> bytes" where "GetNickname p = nickname p"
definition GetRoomNo :: "CPlayer \<Rightarrow> WORD" where "GetRoomNo p = pl_roomNo p"
definition GetState :: "CPlayer \<Rightarrow> PlayerState" where "GetState p = pl_state p"

definition SetNickname :: "CPlayer \<Rightarrow> bytes \<Rightarrow> CPlayer option" where
  "SetNickname p name = do {
     n \<leftarrow> strcpy_s (nickname p) name;
     Some (p\<lparr>nickname := n, pl_state := PS_LOGGED_IN\<rparr>) }"

definition SetUserNo :: "CPlayer \<Rightarrow> LONG \<Rightarrow> CPlayer" where
  "SetUserNo p no = p\<lparr>userNo := no\<rparr>"

definition SetLoggedIn :: "CPlayer \<Rightarrow> CPlayer" where
  "SetLoggedIn p = p\<lparr>pl_state := PS_LOGGED_IN\<rparr>"

definition player_EnterRoom :: "CPlayer \<Rightarrow> WORD \<Rightarrow> bool \<times> CPlayer" where
  "player_EnterRoom p no =
     (if pl_state p = PS_IN_ROOM then (False, p)
      else (True, p\<lparr>pl_roomNo := no, pl_state := PS_IN_ROOM\<rparr>))"

definition player_LeaveRoom :: "CPlayer \<Rightarrow> bool \<times> CPlayer" where
  "player_LeaveRoom p =
     (if pl_state p \<noteq> PS_IN_ROOM then (False, p)
      else (True, p\<lparr>pl_roomNo := INVALID_ROOM_NO, pl_state := PS_LOGGED_IN\<rparr>))"

section \<open>Rooms\<close>

definition MAX_LIMIT_PERSON :: nat where "MAX_LIMIT_PERSON = 50"

record CRoom =
  room_no :: WORD
  users :: "(SessionID, nat) umap"

definition CRoom_new :: "WORD \<Rightarrow> CRoom" where
  "CRoom_new no = \<lparr>room_no = no, users = []\<rparr>"

definition room_EnterRoom :: "CRoom \<Rightarrow> SessionID \<Rightarrow> nat \<Rightarrow> bool \<times> CRoom" where
  "room_EnterRoom r sid player =
     (if length (users r) < MAX_LIMIT_PERSON then
        if map_of (users r) sid \<noteq> None then (False, r)
        else (True, r\<lparr>users := umap_insert sid player (users r)\<rparr>)
      else (False, r))"

definition room_LeaveRoom :: "CRoom \<Rightarrow> SessionID \<Rightarrow> bool \<times> CRoom" where
  "room_LeaveRoom r sid = (let (us, n) = umap_erase sid (users r) in
     (n \<noteq> 0, r\<lparr>users := us\<rparr>))"

definition GetUsers :: "CRoom \<Rightarrow> (SessionID, nat) umap" where "GetUsers r = users r"
definition GetUserCount :: "CRoom \<Rightarrow> int" where "GetUserCount r = int (length (users r))"

section \<open>The room manager\<close>

definition CRoomManager_new :: "CRoom list" where
  "CRoomManager_new = map (\<lambda>i. CRoom_new (of_nat (i + 1))) [0..<nat MAX_ROOM_COUNT]"

text \<open>The index of the room in the array, if the number is valid.\<close>

definition GetRoom :: "WORD \<Rightarrow> nat option" where
  "GetRoom No = (if 0 < uint No \<and> uint No \<le> MAX_ROOM_COUNT then Some (nat (uint No - 1)) else None)"

definition GetRoomCount :: int where "GetRoomCount = MAX_ROOM_COUNT"

definition GetActiveRoomcount :: "CRoom list \<Rightarrow> int" where
  "GetActiveRoomcount rooms = int (length (filter (\<lambda>r. GetUserCount r > 0) rooms))"

section \<open>Invariants\<close>

definition room_wf :: "CRoom \<Rightarrow> bool" where
  "room_wf r \<longleftrightarrow> umap_wf (users r) \<and> length (users r) \<le> MAX_LIMIT_PERSON"

definition rooms_wf :: "CRoom list \<Rightarrow> bool" where
  "rooms_wf rs \<longleftrightarrow> length rs = 5 \<and> (\<forall>r \<in> set rs. room_wf r) \<and> (\<forall>i < 5. room_no (rs ! i) = of_nat (i + 1))"

lemma rooms_wf_new: "rooms_wf CRoomManager_new"
  by (auto simp: rooms_wf_def CRoomManager_new_def CRoom_new_def room_wf_def umap_wf_def)

lemma GetRoom_less: "GetRoom no = Some k \<Longrightarrow> k < 5"
  by (auto simp: GetRoom_def split: if_splits)

text \<open>The room a number names is the one that carries it.\<close>

lemma GetRoom_no:
  assumes "rooms_wf rs" and "GetRoom no = Some k"
  shows "room_no (rs ! k) = no"
proof -
  have k: "k = nat (uint no - 1)" "0 < uint no" "uint no \<le> 5" using assms(2) by (auto simp: GetRoom_def split: if_splits)
  then have "room_no (rs ! k) = of_nat (k + 1)" using assms by (auto simp: rooms_wf_def)
  also have "k + 1 = nat (uint no)" using k by linarith
  finally show ?thesis by simp
qed

lemma room_EnterRoom_ok:
  assumes "room_wf r" and "room_EnterRoom r sid p = (b, r')"
  shows "room_wf r'" and "room_no r' = room_no r"
    and "b \<longleftrightarrow> length (users r) < 50 \<and> sid \<notin> fst ` set (users r)"
    and "b \<Longrightarrow> users r' = users r @ [(sid, p)]" and "\<not> b \<Longrightarrow> r' = r"
proof -
  have ins: "umap_insert sid p (users r) = users r @ [(sid, p)]" if "sid \<notin> fst ` set (users r)"
    using that unfolding umap_insert_def by (metis option.simps(4) umap_find_None)
  show "room_wf r'"
    using assms by (auto simp: room_EnterRoom_def room_wf_def MAX_LIMIT_PERSON_def umap_wf_def ins split: if_splits)
  show "room_no r' = room_no r" "b \<longleftrightarrow> length (users r) < 50 \<and> sid \<notin> fst ` set (users r)" "\<not> b \<Longrightarrow> r' = r"
    using assms(2) by (auto simp: room_EnterRoom_def MAX_LIMIT_PERSON_def split: if_splits)
  show "users r' = users r @ [(sid, p)]" if b
    using assms(2) that ins by (auto simp: room_EnterRoom_def split: if_splits)
qed

lemma room_LeaveRoom_ok:
  assumes "room_wf r" and "room_LeaveRoom r sid = (b, r')"
  shows "room_wf r'" and "room_no r' = room_no r" and "b \<longleftrightarrow> sid \<in> fst ` set (users r)"
    and "users r' = filter (\<lambda>e. fst e \<noteq> sid) (users r)"
proof -
  have r': "r' = r\<lparr>users := fst (umap_erase sid (users r))\<rparr>" "b = (snd (umap_erase sid (users r)) \<noteq> 0)"
    using assms(2) by (auto simp: room_LeaveRoom_def split_beta)
  show "users r' = filter (\<lambda>e. fst e \<noteq> sid) (users r)" using r' by (simp add: umap_erase_def Let_def)
  then have "length (users r') \<le> length (users r)" by (simp add: length_filter_le)
  with assms(1) r' show "room_wf r'" "room_no r' = room_no r" by (auto simp: room_wf_def umap_wf_erase)
  show "b \<longleftrightarrow> sid \<in> fst ` set (users r)" using r'(2) umap_erase_count [of sid "users r"] by simp
qed

lemma rooms_wf_update:
  "rooms_wf rs \<Longrightarrow> k < 5 \<Longrightarrow> room_wf r \<Longrightarrow> room_no r = room_no (rs ! k) \<Longrightarrow> rooms_wf (rs[k := r])"
  by (auto simp: rooms_wf_def nth_list_update dest: set_update_subset_insert [THEN subsetD])

lemma rooms_wf_nth: "rooms_wf rs \<Longrightarrow> k < 5 \<Longrightarrow> room_wf (rs ! k)"
  by (auto simp: rooms_wf_def)

end
