(* ===== verification/ContentQueue.thy ===== *)
theory ContentQueue
  imports Interfaces
begin

text \<open>
  \<open>CContentQueue\<close>: the queue that carries session events from the network threads to the update
  thread. Each operation holds \<open>csMsg\<close> and is one step.
\<close>

datatype MessageType = MSG_INIT | MSG_JOIN | MSG_LEAVE | MSG_RECV

record Message =
  msg_type :: MessageType
  msg_sid :: SessionID
  msg_pkt :: "nat option"

definition Message_new :: Message where
  "Message_new = \<lparr>msg_type = MSG_INIT, msg_sid = 0, msg_pkt = None\<rparr>"

type_synonym CContentQueue = "Message list"

definition Push :: "Message \<Rightarrow> CContentQueue \<Rightarrow> CContentQueue" where
  "Push m q = q @ [m]"

definition Pop :: "CContentQueue \<Rightarrow> (Message \<times> CContentQueue) option" where
  "Pop q = (case q of [] \<Rightarrow> None | m # ms \<Rightarrow> Some (m, ms))"

definition GetSize :: "CContentQueue \<Rightarrow> int" where
  "GetSize q = int (length q)"

interpretation content_queue: fifo "\<lambda>q. True" "\<lambda>q. q" "\<lambda>q. True" "\<lambda>q. q \<noteq> []"
  "\<lambda>m q. Some (Push m q)" Pop None
  by unfold_locales (auto simp: Push_def Pop_def split: list.splits)

end
