(* ===== verification/Database.thy ===== *)
theory Database
  imports Interfaces Strings
begin

text \<open>
  The database side: the \<open>Users\<close> table with its two stored procedures (\<open>db/01-schema.sql\<close>),
  \<open>CDBConnector\<close> with its ODBC handles, and \<open>CDBWorker\<close> with its two queues. The return code of
  every ODBC call and the server's string comparison (its collation) are parameters; a statement
  whose execution fails is taken not to have run.
\<close>

section \<open>The table and its procedures\<close>

record UserRow =
  UserNo :: LONG
  Account :: wstr
  Password :: wstr
  Nickname :: wstr

record UsersTable =
  rows :: "UserRow list"
  next_id :: LONG          \<comment> \<open>the next \<open>IDENTITY(1, 1)\<close> value\<close>

definition sp_Login :: "(wstr \<Rightarrow> wstr \<Rightarrow> bool) \<Rightarrow> wstr \<Rightarrow> wstr \<Rightarrow> UsersTable \<Rightarrow> int \<times> LONG \<times> wstr" where
  "sp_Login same acc pw t = (case find (\<lambda>r. same (Account r) acc) (rows t) of
       None \<Rightarrow> (1, 0, [])
     | Some r \<Rightarrow> if UserNo r = 0 then (1, 0, [])
                 else if \<not> same (Password r) pw then (2, 0, [])
                 else (0, UserNo r, Nickname r))"

definition sp_SignUp ::
    "(wstr \<Rightarrow> wstr \<Rightarrow> bool) \<Rightarrow> wstr \<Rightarrow> wstr \<Rightarrow> wstr \<Rightarrow> UsersTable \<Rightarrow> (int \<times> LONG) \<times> UsersTable" where
  "sp_SignUp same acc pw nick t =
     (if \<exists>r \<in> set (rows t). same (Account r) acc then ((1, 0), t)
      else if \<exists>r \<in> set (rows t). same (Nickname r) nick then ((2, 0), t)
      else ((0, next_id t),
            t\<lparr>rows := rows t @ [\<lparr>UserNo = next_id t, Account = acc, Password = pw, Nickname = nick\<rparr>],
              next_id := next_id t + 1\<rparr>))"

section \<open>ODBC\<close>

datatype SQLRETURN = SQL_SUCCESS | SQL_SUCCESS_WITH_INFO | SQL_NO_DATA | SQL_ERROR

record odbc =
  sqlret :: "nat \<Rightarrow> SQLRETURN"           \<comment> \<open>what the \<open>n\<close>-th call returns\<close>
  collation :: "wstr \<Rightarrow> wstr \<Rightarrow> bool"

definition sqlOk :: "SQLRETURN \<Rightarrow> bool" where
  "sqlOk r \<longleftrightarrow> r = SQL_SUCCESS \<or> r = SQL_SUCCESS_WITH_INFO"

text \<open>
  The connector: whether each handle is non-null, and, on the side of the driver manager, how many
  handles of each kind are allocated, how many calls were made, and the database.
\<close>

record CDBConnector =
  hEnv :: bool
  hDbc :: bool
  isConnected :: bool
  envs :: int
  dbcs :: int
  stmts :: int
  odbc_calls :: nat
  table :: UsersTable

definition CDBConnector_new :: "UsersTable \<Rightarrow> CDBConnector" where
  "CDBConnector_new t = \<lparr>hEnv = False, hDbc = False, isConnected = False,
     envs = 0, dbcs = 0, stmts = 0, odbc_calls = 0, table = t\<rparr>"

definition odbc_call :: "odbc \<Rightarrow> CDBConnector \<Rightarrow> bool \<times> CDBConnector" where
  "odbc_call o' c = (sqlOk (sqlret o' (odbc_calls c)), c\<lparr>odbc_calls := odbc_calls c + 1\<rparr>)"

definition free_env :: "CDBConnector \<Rightarrow> CDBConnector" where
  "free_env c = c\<lparr>envs := envs c - 1, hEnv := False\<rparr>"

definition free_dbc :: "CDBConnector \<Rightarrow> CDBConnector" where
  "free_dbc c = c\<lparr>dbcs := dbcs c - 1, hDbc := False\<rparr>"

definition Connect :: "odbc \<Rightarrow> CDBConnector \<Rightarrow> bool \<times> CDBConnector" where
  "Connect o' c =
     (if isConnected c then (True, c)
      else let (ok, c) = odbc_call o' c in
      if \<not> ok then (False, c\<lparr>hEnv := False\<rparr>)
      else let c = c\<lparr>hEnv := True, envs := envs c + 1\<rparr>; (ok, c) = odbc_call o' c in
      if \<not> ok then (False, free_env c)
      else let (ok, c) = odbc_call o' c in
      if \<not> ok then (False, free_env (c\<lparr>hDbc := False\<rparr>))
      else let c = c\<lparr>hDbc := True, dbcs := dbcs c + 1\<rparr>; (ok, c) = odbc_call o' c in
      if \<not> ok then (False, free_env (free_dbc c))
      else (True, c\<lparr>isConnected := True\<rparr>))"

definition db_Disconnect :: "CDBConnector \<Rightarrow> CDBConnector" where
  "db_Disconnect c =
     (let c = (if hDbc c then free_dbc c else c);
          c = (if hEnv c then free_env c else c)
      in c\<lparr>isConnected := False\<rparr>)"

text \<open>
  \<open>SQLAllocHandle(SQL_HANDLE_STMT)\<close>, \<open>SQLExecDirectW\<close> and \<open>SQLFetch\<close> around a stored procedure,
  with every early return; the result is None when the caller returns \<open>false\<close>.
\<close>

definition run_proc ::
    "odbc \<Rightarrow> (UsersTable \<Rightarrow> 'r \<times> UsersTable) \<Rightarrow> CDBConnector \<Rightarrow> 'r option \<times> CDBConnector" where
  "run_proc o' proc c =
     (if \<not> isConnected c \<or> \<not> hDbc c then (None, c)
      else let (ok, c) = odbc_call o' c in
      if \<not> ok then (None, c)
      else let c = c\<lparr>stmts := stmts c + 1\<rparr>; (ok, c) = odbc_call o' c in
      if \<not> ok then (None, c\<lparr>stmts := stmts c - 1\<rparr>)
      else let (r, t) = proc (table c); c = c\<lparr>table := t\<rparr>; (ok, c) = odbc_call o' c in
      if \<not> ok then (None, c\<lparr>stmts := stmts c - 1\<rparr>)
      else (Some r, c\<lparr>stmts := stmts c - 1\<rparr>))"

text \<open>
  A fetched \<open>SQL_C_WCHAR\<close> column in the zeroed array \<open>nickname[64]\<close>: what fits, terminated.
\<close>

definition fetched_wchar :: "nat \<Rightarrow> wstr \<Rightarrow> wstr" where
  "fetched_wchar n w = take (n - 1) w @ replicate (n - length (take (n - 1) w)) 0"

text \<open>
  \<open>Login\<close> with \<open>outResult\<close>, \<open>outUserNo\<close> and \<open>outNickname\<close> (an array) as results.
\<close>

definition Login :: "odbc \<Rightarrow> wstr \<Rightarrow> wstr \<Rightarrow> wstr \<Rightarrow> CDBConnector \<Rightarrow>
    ((bool \<times> int \<times> LONG \<times> wstr) \<times> CDBConnector) option" where
  "Login o' account password outNickname c = do {
     acc \<leftarrow> cstr account;
     pw \<leftarrow> cstr password;
     let outNickname = (if outNickname \<noteq> [] then outNickname[0 := 0] else outNickname);
     case run_proc o' (\<lambda>t. (sp_Login (collation o') acc pw t, t)) c of
       (None, c) \<Rightarrow> Some ((False, 1, 0, outNickname), c)
     | (Some (result, no, nick), c) \<Rightarrow> do {
         out \<leftarrow> (if outNickname \<noteq> [] then wcsncpy_trunc outNickname (fetched_wchar 64 nick) else Some outNickname);
         Some ((True, result, no, out), c) } }"

definition SignUp :: "odbc \<Rightarrow> wstr \<Rightarrow> wstr \<Rightarrow> wstr \<Rightarrow> CDBConnector \<Rightarrow>
    ((bool \<times> int \<times> LONG) \<times> CDBConnector) option" where
  "SignUp o' account password nick c = do {
     acc \<leftarrow> cstr account;
     pw \<leftarrow> cstr password;
     nk \<leftarrow> cstr nick;
     case run_proc o' (sp_SignUp (collation o') acc pw nk) c of
       (None, c) \<Rightarrow> Some ((False, 1, 0), c)
     | (Some (result, no), c) \<Rightarrow> Some ((True, result, no), c) }"

section \<open>Jobs and results\<close>

datatype DBJobType = DB_JOB_LOGIN | DB_JOB_SIGNUP

record DBJob =
  job_type :: DBJobType
  job_sid :: SessionID
  job_account :: wstr
  job_password :: wstr
  job_nickname :: wstr

record DBResult =
  res_type :: DBJobType
  res_sid :: SessionID
  res_result :: int
  res_userNo :: LONG
  res_nickname :: wstr

text \<open>The constructors initialise only the first unit of each array.\<close>

definition DBJob_new :: "wstr \<Rightarrow> wstr \<Rightarrow> wstr \<Rightarrow> DBJob" where
  "DBJob_new m1 m2 m3 = \<lparr>job_type = DB_JOB_LOGIN, job_sid = 0, job_account = m1[0 := 0],
     job_password = m2[0 := 0], job_nickname = m3[0 := 0]\<rparr>"

definition DBResult_new :: "wstr \<Rightarrow> DBResult" where
  "DBResult_new m = \<lparr>res_type = DB_JOB_LOGIN, res_sid = 0, res_result = 1, res_userNo = 0,
     res_nickname = m[0 := 0]\<rparr>"

section \<open>The worker\<close>

record CDBWorker =
  hThread :: bool
  db_isRun :: bool
  db :: CDBConnector
  jobs :: "DBJob list"
  results :: "DBResult list"

definition CDBWorker_new :: "UsersTable \<Rightarrow> CDBWorker" where
  "CDBWorker_new t = \<lparr>hThread = False, db_isRun = False, db = CDBConnector_new t, jobs = [], results = []\<rparr>"

text \<open>\<open>started\<close>: whether \<open>_beginthreadex\<close> succeeds.\<close>

definition db_Start :: "odbc \<Rightarrow> bool \<Rightarrow> CDBWorker \<Rightarrow> bool \<times> CDBWorker" where
  "db_Start o' started w = (let (ok, c) = Connect o' (db w); w = w\<lparr>db := c\<rparr> in
     if \<not> ok then (False, w)
     else let w = w\<lparr>db_isRun := True, hThread := started\<rparr> in
     if \<not> started then (False, w\<lparr>db_isRun := False, db := db_Disconnect (db w)\<rparr>)
     else (True, w))"

definition PushJob :: "DBJob \<Rightarrow> CDBWorker \<Rightarrow> CDBWorker" where
  "PushJob job w = w\<lparr>jobs := jobs w @ [job]\<rparr>"

definition popJob :: "CDBWorker \<Rightarrow> (DBJob \<times> CDBWorker) option" where
  "popJob w = (case jobs w of [] \<Rightarrow> None | j # js \<Rightarrow> Some (j, w\<lparr>jobs := js\<rparr>))"

definition pushResult :: "DBResult \<Rightarrow> CDBWorker \<Rightarrow> CDBWorker" where
  "pushResult r w = w\<lparr>results := results w @ [r]\<rparr>"

definition PopResult :: "CDBWorker \<Rightarrow> (DBResult \<times> CDBWorker) option" where
  "PopResult w = (case results w of [] \<Rightarrow> None | r # rs \<Rightarrow> Some (r, w\<lparr>results := rs\<rparr>))"

definition GetJobSize :: "CDBWorker \<Rightarrow> int" where "GetJobSize w = int (length (jobs w))"
definition GetResultSize :: "CDBWorker \<Rightarrow> int" where "GetResultSize w = int (length (results w))"

text \<open>\<open>mem\<close>: the uninitialised array of the local \<open>DBResult r\<close>.\<close>

definition processLogin :: "odbc \<Rightarrow> wstr \<Rightarrow> DBJob \<Rightarrow> CDBWorker \<Rightarrow> CDBWorker option" where
  "processLogin o' mem job w = do {
     let r = (DBResult_new mem)\<lparr>res_type := DB_JOB_LOGIN, res_sid := job_sid job, res_result := 1, res_userNo := 0\<rparr>;
     ((ok, outResult, outUserNo, outNickname), c) \<leftarrow>
        Login o' (job_account job) (job_password job) (replicate 33 0) (db w);
     let w = w\<lparr>db := c\<rparr>;
     if ok then do {
       nick \<leftarrow> wcsncpy_trunc (res_nickname r) outNickname;
       Some (pushResult (r\<lparr>res_result := outResult, res_userNo := outUserNo, res_nickname := nick\<rparr>) w) }
     else Some (pushResult r w) }"

definition processSignUp :: "odbc \<Rightarrow> wstr \<Rightarrow> DBJob \<Rightarrow> CDBWorker \<Rightarrow> CDBWorker option" where
  "processSignUp o' mem job w = do {
     let r = (DBResult_new mem)\<lparr>res_type := DB_JOB_SIGNUP, res_sid := job_sid job, res_result := 1, res_userNo := 0\<rparr>;
     ((ok, outResult, outUserNo), c) \<leftarrow>
        SignUp o' (job_account job) (job_password job) (job_nickname job) (db w);
     let w = w\<lparr>db := c\<rparr>;
     if ok then do {
       nick \<leftarrow> wcsncpy_trunc (res_nickname r) (job_nickname job);
       Some (pushResult (r\<lparr>res_result := outResult, res_userNo := outUserNo, res_nickname := nick\<rparr>) w) }
     else Some (pushResult r w) }"

definition processJob :: "odbc \<Rightarrow> wstr \<Rightarrow> DBJob \<Rightarrow> CDBWorker \<Rightarrow> CDBWorker option" where
  "processJob o' mem job w = (case job_type job of
       DB_JOB_LOGIN \<Rightarrow> processLogin o' mem job w
     | DB_JOB_SIGNUP \<Rightarrow> processSignUp o' mem job w)"

text \<open>One turn of \<open>while (isRun)\<close> in \<open>WorkerLoop\<close>, and the loop that empties the queue at the end.\<close>

definition WorkerLoop_turn :: "odbc \<Rightarrow> wstr \<Rightarrow> CDBWorker \<Rightarrow> CDBWorker option" where
  "WorkerLoop_turn o' mem w = (case popJob w of
       None \<Rightarrow> Some w
     | Some (job, w) \<Rightarrow> processJob o' mem job w)"

partial_function (option) WorkerLoop_drain :: "odbc \<Rightarrow> wstr \<Rightarrow> CDBWorker \<Rightarrow> CDBWorker option" where
  "WorkerLoop_drain o' mem w = (case popJob w of
       None \<Rightarrow> Some w
     | Some (job, w) \<Rightarrow> do { w \<leftarrow> processJob o' mem job w; WorkerLoop_drain o' mem w })"

text \<open>\<open>Stop\<close>: the thread leaves its loop, empties the queue and is joined, then the connection goes.\<close>

definition db_Stop :: "odbc \<Rightarrow> wstr \<Rightarrow> CDBWorker \<Rightarrow> CDBWorker option" where
  "db_Stop o' mem w =
     (if \<not> db_isRun w then Some w
      else do {
        let w = w\<lparr>db_isRun := False\<rparr>;
        w \<leftarrow> (if hThread w then do { w \<leftarrow> WorkerLoop_drain o' mem w; Some (w\<lparr>hThread := False\<rparr>) } else Some w);
        Some (w\<lparr>db := db_Disconnect (db w)\<rparr>) })"

end
