(* ===== verification/DatabaseProps.thy ===== *)
theory DatabaseProps
  imports Database
begin

text \<open>
  What the database side promises: queues in order, one result per job, balanced ODBC handles,
  unique accounts and nicknames, and that an account that was signed up can be logged in.
\<close>

section \<open>Queues\<close>

interpretation job_queue: fifo "\<lambda>w. True" jobs "\<lambda>w. True" "\<lambda>w. jobs w \<noteq> []"
  "\<lambda>j w. Some (PushJob j w)" popJob None
  by unfold_locales (auto simp: PushJob_def popJob_def split: list.splits)

interpretation result_queue: fifo "\<lambda>w. True" results "\<lambda>w. True" "\<lambda>w. results w \<noteq> []"
  "\<lambda>r w. Some (pushResult r w)" PopResult None
  by unfold_locales (auto simp: pushResult_def PopResult_def split: list.splits)

section \<open>Handles\<close>

definition conn_ok :: "CDBConnector \<Rightarrow> bool" where
  "conn_ok c \<longleftrightarrow> (hEnv c \<longleftrightarrow> isConnected c) \<and> (hDbc c \<longleftrightarrow> isConnected c) \<and>
     envs c = (if isConnected c then 1 else 0) \<and> dbcs c = (if isConnected c then 1 else 0) \<and> stmts c = 0"

lemma conn_ok_new: "conn_ok (CDBConnector_new t)"
  by (simp add: conn_ok_def CDBConnector_new_def)

lemma Connect_ok:
  assumes "conn_ok c" and "Connect o' c = (ok, c')"
  shows "conn_ok c'" and "ok = isConnected c'" and "table c' = table c"
proof -
  let ?ok = "\<lambda>k. sqlOk (sqlret o' (odbc_calls c + k))"
  have "conn_ok c' \<and> ok = isConnected c' \<and> table c' = table c"
  proof (cases "isConnected c")
    case True
    with assms show ?thesis by (simp add: Connect_def)
  next
    case False
    with assms show ?thesis
      by (cases "?ok 0"; cases "?ok 1"; cases "?ok 2"; cases "?ok 3";
          simp add: Connect_def odbc_call_def conn_ok_def free_env_def free_dbc_def Let_def numeral_eq_Suc) auto
  qed
  then show "conn_ok c'" "ok = isConnected c'" "table c' = table c" by auto
qed

lemma db_Disconnect_ok:
  assumes "conn_ok c"
  shows "conn_ok (db_Disconnect c)" and "envs (db_Disconnect c) = 0" and "dbcs (db_Disconnect c) = 0"
    and "table (db_Disconnect c) = table c"
  using assms by (cases "isConnected c"; simp add: db_Disconnect_def conn_ok_def free_env_def free_dbc_def Let_def)+

text \<open>The procedure runs at most once, its statement handle is always freed.\<close>

lemma run_proc_ok:
  assumes "conn_ok c" and "run_proc o' proc c = (r, c')"
  shows "conn_ok c'" and "isConnected c' = isConnected c"
    and "table c' = table c \<or> table c' = snd (proc (table c))"
    and "r = Some x \<Longrightarrow> (x, table c') = proc (table c)"
proof -
  let ?ok = "\<lambda>k. sqlOk (sqlret o' (odbc_calls c + k))"
  obtain y t where y: "proc (table c) = (y, t)" by fastforce
  have "conn_ok c' \<and> isConnected c' = isConnected c \<and> (table c' = table c \<or> table c' = snd (proc (table c))) \<and>
      (\<forall>x. r = Some x \<longrightarrow> (x, table c') = proc (table c))"
  proof (cases "isConnected c")
    case True
    with assms y show ?thesis
      by (cases "?ok 0"; cases "?ok 1"; cases "?ok 2";
          simp add: run_proc_def odbc_call_def conn_ok_def Let_def numeral_eq_Suc) auto
  next
    case False
    with assms show ?thesis by (simp add: run_proc_def)
  qed
  then show "conn_ok c'" "isConnected c' = isConnected c" "table c' = table c \<or> table c' = snd (proc (table c))"
      "r = Some x \<Longrightarrow> (x, table c') = proc (table c)" by auto
qed

lemma run_proc_success:
  assumes "conn_ok c" and "isConnected c" and "\<forall>n. sqlOk (sqlret o' n)" and "proc (table c) = (x, t)"
  shows "\<exists>c'. run_proc o' proc c = (Some x, c') \<and> conn_ok c' \<and> isConnected c' \<and> table c' = t"
  using assms by (auto simp: run_proc_def odbc_call_def conn_ok_def Let_def)

section \<open>Jobs\<close>

definition job_ok :: "DBJob \<Rightarrow> bool" where
  "job_ok j \<longleftrightarrow> 0 \<in> set (job_account j) \<and> 0 \<in> set (job_password j) \<and> 0 \<in> set (job_nickname j)"

definition result_ok :: "DBResult \<Rightarrow> bool" where
  "result_ok r \<longleftrightarrow> length (res_nickname r) = 33 \<and> 0 \<in> set (res_nickname r)"

definition worker_ok :: "CDBWorker \<Rightarrow> bool" where
  "worker_ok w \<longleftrightarrow> conn_ok (db w) \<and> (\<forall>j \<in> set (jobs w). job_ok j) \<and> (\<forall>r \<in> set (results w). result_ok r)"

text \<open>The answer a result gives, and to whom.\<close>

definition answer :: "DBResult \<Rightarrow> DBJobType \<times> SessionID" where
  "answer r = (res_type r, res_sid r)"

definition request :: "DBJob \<Rightarrow> DBJobType \<times> SessionID" where
  "request j = (job_type j, job_sid j)"

lemma cstr_terminated: "0 \<in> set xs \<Longrightarrow> \<exists>t. cstr xs = Some t"
  by (simp add: cstr_def)

lemma fetched_wchar_cstr:
  assumes "0 \<notin> set w" and "0 < n"
  shows "cstr (fetched_wchar n w) = Some (take (n - 1) w)"
proof -
  obtain k where k: "n - length (take (n - 1) w) = Suc k" using assms(2) by (cases "n - length (take (n - 1) w)") auto
  have "0 \<notin> set (take (n - 1) w)" using assms(1) by (meson in_set_takeD)
  then show ?thesis unfolding fetched_wchar_def k by (simp add: cstr_append_0)
qed

lemma fetched_wchar_terminated: "0 < n \<Longrightarrow> 0 \<in> set (fetched_wchar n w)"
  by (auto simp: fetched_wchar_def)

lemma Login_ok:
  assumes c: "conn_ok c" and j: "0 \<in> set acc" "0 \<in> set pw" and out: "out \<noteq> []"
  shows "wp (Login o' acc pw out c) (\<lambda>((ok, res, no, nick), c'). conn_ok c' \<and>
     length nick = length out \<and> 0 \<in> set nick \<and> table c' = table c \<and>
     (\<not> ok \<longrightarrow> res = 1 \<and> no = 0))"
proof -
  obtain a p where ap: "cstr acc = Some a" "cstr pw = Some p" using j cstr_terminated by blast
  obtain r c' where run: "run_proc o' (\<lambda>t. (sp_Login (collation o') a p t, t)) c = (r, c')" by fastforce
  note rp = run_proc_ok [OF c run]
  have out0: "out[0 := 0] \<noteq> []" "0 \<in> set (out[0 := 0])" using out by (auto simp: set_update_memI)
  show ?thesis
  proof (cases r)
    case None
    then have "Login o' acc pw out c = Some ((False, 1, 0, out[0 := 0]), c')"
      using ap run out by (simp add: Login_def Let_def)
    moreover have "table c' = table c" using rp(3) by auto
    ultimately show ?thesis using rp(1) out0 by simp
  next
    case (Some x)
    obtain res no nick where x: "x = (res, no, nick)" by (cases x)
    obtain f where f: "cstr (fetched_wchar 64 nick) = Some f"
      using cstr_terminated fetched_wchar_terminated by (metis zero_less_numeral)
    obtain d where d: "wcsncpy_trunc (out[0 := 0]) (fetched_wchar 64 nick) = Some d" "length d = length out"
        "cstr d = Some (take (length (out[0 := 0]) - 1) f)"
      using wcsncpy_trunc_ok [OF f out0(1)] by auto
    have "0 \<in> set d" using d(3) by (auto simp: cstr_def split: if_splits)
    moreover have "Login o' acc pw out c = Some ((True, res, no, d), c')"
      using Some x ap run out d(1) by (simp add: Login_def Let_def)
    moreover have "table c' = table c" using rp(3) by auto
    ultimately show ?thesis using rp(1) d(2) by simp
  qed
qed

lemma SignUp_ok:
  assumes c: "conn_ok c" and j: "0 \<in> set acc" "0 \<in> set pw" "0 \<in> set nick"
  shows "wp (SignUp o' acc pw nick c) (\<lambda>((ok, res, no), c'). conn_ok c' \<and> (\<not> ok \<longrightarrow> res = 1 \<and> no = 0))"
proof -
  obtain a p n where apn: "cstr acc = Some a" "cstr pw = Some p" "cstr nick = Some n"
    using j cstr_terminated by metis
  obtain r c' where run: "run_proc o' (sp_SignUp (collation o') a p n) c = (r, c')" by fastforce
  then show ?thesis using run_proc_ok [OF c run] apn
    by (cases r) (auto simp: SignUp_def Let_def)
qed

text \<open>Every job leaves exactly one result for its session.\<close>

lemma processJob_ok:
  assumes w: "worker_ok w" and j: "job_ok job" and m: "length mem = 33"
  shows "wp (processJob o' mem job w) (\<lambda>w'. worker_ok w' \<and> jobs w' = jobs w \<and>
     db_isRun w' = db_isRun w \<and> hThread w' = hThread w \<and>
     (\<exists>r. results w' = results w @ [r] \<and> answer r = request job))"
proof -
  have c: "conn_ok (db w)" using w by (simp add: worker_ok_def)
  have mem: "mem[0 := 0] \<noteq> []" "length (mem[0 := 0]) = 33" "0 \<in> set (mem[0 := 0])"
    using m by (auto simp: set_update_memI)
  have copy: "\<exists>d. wcsncpy_trunc (mem[0 := 0]) src = Some d \<and> length d = 33 \<and> 0 \<in> set d" if s: "0 \<in> set src" for src
  proof -
    obtain t where t: "cstr src = Some t" using cstr_terminated [OF s] by blast
    obtain d where "wcsncpy_trunc (mem[0 := 0]) src = Some d" "length d = length (mem[0 := 0])"
        "cstr d = Some (take (length (mem[0 := 0]) - 1) t)"
      using wcsncpy_trunc_ok [OF t mem(1)] by blast
    then show ?thesis using mem(2) by (auto simp: cstr_def split: if_splits)
  qed
  show ?thesis
  proof (cases "job_type job")
    case DB_JOB_LOGIN
    obtain ok res no nick c' where l: "Login o' (job_account job) (job_password job) (replicate 33 0) (db w) =
        Some ((ok, res, no, nick), c')" "conn_ok c'" "0 \<in> set nick"
      using Login_ok [OF c, of "job_account job" "job_password job" "replicate 33 0" o'] j
      by (auto simp: wp_iff job_ok_def)
    with copy [OF l(3)] DB_JOB_LOGIN w mem show ?thesis
      by (auto simp: processJob_def processLogin_def DBResult_new_def pushResult_def Let_def worker_ok_def
          result_ok_def answer_def request_def)
  next
    case DB_JOB_SIGNUP
    obtain ok res no c' where l: "SignUp o' (job_account job) (job_password job) (job_nickname job) (db w) =
        Some ((ok, res, no), c')" "conn_ok c'"
      using SignUp_ok [OF c, of "job_account job" "job_password job" "job_nickname job" o'] j
      by (auto simp: wp_iff job_ok_def)
    have "0 \<in> set (job_nickname job)" using j by (simp add: job_ok_def)
    with l copy [OF this] DB_JOB_SIGNUP w mem show ?thesis
      by (auto simp: processJob_def processSignUp_def DBResult_new_def pushResult_def Let_def worker_ok_def
          result_ok_def answer_def request_def)
  qed
qed

section \<open>The worker as a whole\<close>

lemma WorkerLoop_drain_ok:
  assumes "worker_ok w" and m: "length mem = 33"
  shows "wp (WorkerLoop_drain o' mem w) (\<lambda>w'. worker_ok w' \<and> jobs w' = [] \<and> db_isRun w' = db_isRun w \<and>
     map answer (results w') = map answer (results w) @ map request (jobs w))"
  using assms(1)
proof (induction "jobs w" arbitrary: w)
  case Nil
  then show ?case by (subst WorkerLoop_drain.simps) (simp add: popJob_def Nil.hyps [symmetric])
next
  case (Cons j js)
  let ?w = "w\<lparr>jobs := js\<rparr>"
  have js: "jobs w = j # js" using Cons.hyps(2) by simp
  have w: "worker_ok ?w" "job_ok j" using Cons.prems js by (auto simp: worker_ok_def)
  obtain w' r where p: "processJob o' mem j ?w = Some w'" "worker_ok w'" "jobs w' = js" "db_isRun w' = db_isRun w"
      "results w' = results w @ [r]" "answer r = request j"
    using processJob_ok [OF w m, of o'] by (auto simp: wp_iff)
  have "WorkerLoop_drain o' mem w = WorkerLoop_drain o' mem w'"
    using js p(1) by (subst WorkerLoop_drain.simps) (simp add: popJob_def)
  with Cons.hyps(1) [of w'] p js show ?case by simp
qed

text \<open>
  C37: the loop that empties the job queue at shutdown returns, and afterwards every job has been
  answered by exactly one result of its kind for its session, in the order of the jobs.
\<close>

theorem worker_drain_answers:
  assumes "worker_ok w" and "length mem = 33"
  shows "wp (WorkerLoop_drain o' mem w) (\<lambda>w'. worker_ok w' \<and> jobs w' = [] \<and>
     map answer (results w') = map answer (results w) @ map request (jobs w))"
  by (rule wp_mono [OF WorkerLoop_drain_ok [OF assms]]) auto

definition sample_job :: DBJob where
  "sample_job = \<lparr>job_type = DB_JOB_LOGIN, job_sid = 7, job_account = [97, 0], job_password = [98, 0], job_nickname = [0]\<rparr>"

definition sample_worker :: CDBWorker where
  "sample_worker = (CDBWorker_new \<lparr>rows = [], next_id = 1\<rparr>)\<lparr>jobs := [sample_job]\<rparr>"

lemma sample_worker_ok: "worker_ok sample_worker"
  by (simp add: worker_ok_def sample_worker_def sample_job_def CDBWorker_new_def conn_ok_new job_ok_def)

theorem worker_drain_answers_witness:
  "wp (WorkerLoop_drain \<lparr>sqlret = (\<lambda>n. SQL_SUCCESS), collation = (=)\<rparr> (replicate 33 0) sample_worker)
     (\<lambda>w'. worker_ok w' \<and> jobs w' = [] \<and> map answer (results w') = [(DB_JOB_LOGIN, 7)])"
  using worker_drain_answers [OF sample_worker_ok, of "replicate 33 0" "\<lparr>sqlret = (\<lambda>n. SQL_SUCCESS), collation = (=)\<rparr>"]
  by (simp add: sample_worker_def CDBWorker_new_def sample_job_def request_def)

text \<open>
  C38: stopping a running database worker empties its job queue, frees every ODBC handle it
  allocated and leaves it disconnected, whatever the driver answered before.
\<close>

theorem db_stop_releases_handles:
  assumes "worker_ok w" and "length mem = 33" and "db_isRun w" and "hThread w"
  shows "wp (db_Stop o' mem w) (\<lambda>w'. jobs w' = [] \<and> \<not> db_isRun w' \<and> \<not> hThread w' \<and>
     envs (db w') = 0 \<and> dbcs (db w') = 0 \<and> stmts (db w') = 0 \<and> \<not> isConnected (db w'))"
proof -
  let ?w = "w\<lparr>db_isRun := False\<rparr>"
  have "worker_ok ?w" using assms(1) by (simp add: worker_ok_def)
  from WorkerLoop_drain_ok [OF this assms(2), of o'] obtain w1 where w1:
      "WorkerLoop_drain o' mem ?w = Some w1" "worker_ok w1" "jobs w1 = []" "\<not> db_isRun w1"
    by (auto simp: wp_iff)
  then have "conn_ok (db w1)" by (simp add: worker_ok_def)
  note d = db_Disconnect_ok [OF this]
  have "\<not> isConnected (db_Disconnect (db w1))" by (simp add: db_Disconnect_def Let_def)
  moreover have "stmts (db_Disconnect (db w1)) = 0" using d(1) by (simp add: conn_ok_def)
  ultimately show ?thesis using assms(3,4) w1 d by (simp add: db_Stop_def)
qed

theorem db_stop_releases_handles_witness:
  "wp (db_Stop \<lparr>sqlret = (\<lambda>n. SQL_SUCCESS), collation = (=)\<rparr> (replicate 33 0)
       (sample_worker\<lparr>db_isRun := True, hThread := True\<rparr>)) (\<lambda>w'. jobs w' = [] \<and> envs (db w') = 0)"
proof -
  have "worker_ok (sample_worker\<lparr>db_isRun := True, hThread := True\<rparr>)"
    using sample_worker_ok by (simp add: worker_ok_def)
  from db_stop_releases_handles [OF this, of "replicate 33 0"] show ?thesis
    by (simp add: wp_iff) blast
qed

section \<open>Accounts\<close>

text \<open>No two rows share an account or a nickname, up to the collation.\<close>

definition table_unique :: "(wstr \<Rightarrow> wstr \<Rightarrow> bool) \<Rightarrow> UsersTable \<Rightarrow> bool" where
  "table_unique same t \<longleftrightarrow> (\<forall>i j. i < j \<and> j < length (rows t) \<longrightarrow>
     \<not> same (Account (rows t ! i)) (Account (rows t ! j)) \<and> \<not> same (Nickname (rows t ! i)) (Nickname (rows t ! j)))"

text \<open>
  C39: signing up never creates a second row for an account or a nickname that is already taken:
  the uniqueness of both columns is kept by every call of \<open>sp_SignUp\<close>, and a call that reports a
  duplicate leaves the table as it was.
\<close>

theorem signup_keeps_unique:
  assumes "table_unique same t"
  shows "table_unique same (snd (sp_SignUp same acc pw nick t)) \<and>
     (fst (fst (sp_SignUp same acc pw nick t)) \<noteq> 0 \<longrightarrow> snd (sp_SignUp same acc pw nick t) = t)"
proof (cases "\<exists>r \<in> set (rows t). same (Account r) acc \<or> same (Nickname r) nick")
  case True
  with assms show ?thesis by (auto simp: sp_SignUp_def)
next
  case False
  have "\<not> same (Account (rows t ! i)) acc \<and> \<not> same (Nickname (rows t ! i)) nick" if "i < length (rows t)" for i
    using False that by auto
  moreover have "\<not> (\<exists>r \<in> set (rows t). same (Account r) acc)" "\<not> (\<exists>r \<in> set (rows t). same (Nickname r) nick)"
    using False by auto
  ultimately show ?thesis using assms
    by (auto simp: sp_SignUp_def table_unique_def nth_append less_Suc_eq)
qed

theorem signup_keeps_unique_witness:
  "table_unique (=) (snd (sp_SignUp (=) [97] [98] [99] \<lparr>rows = [], next_id = 1\<rparr>))"
  using signup_keeps_unique [of "(=)" "\<lparr>rows = [], next_id = 1\<rparr>" "[97]" "[98]" "[99]"]
  by (simp add: table_unique_def)

lemma find_new_row:
  "\<not> (\<exists>r \<in> set xs. P r) \<Longrightarrow> P y \<Longrightarrow> find P (xs @ [y]) = Some y"
  by (induction xs) auto

text \<open>
  C40: an account that \<open>SignUp\<close> creates can be logged in at once with the same password: \<open>Login\<close>
  reports success with the user number \<open>SignUp\<close> reported and the nickname that was registered,
  provided the ODBC calls succeed and the collation is reflexive.
\<close>

theorem signup_then_login:
  assumes conn: "conn_ok c" "isConnected c" and calls: "\<forall>n. sqlOk (sqlret o' n)"
    and refl: "\<forall>x. collation o' x x"
    and s: "cstr acc = Some a" "cstr pw = Some p" "cstr nick = Some n" "length n \<le> 32"
    and free: "\<not> (\<exists>r \<in> set (rows (table c)). collation o' (Account r) a \<or> collation o' (Nickname r) n)"
    and id: "next_id (table c) \<noteq> 0"
  shows "wp (SignUp o' acc pw nick c) (\<lambda>((ok, res, no), c'). ok \<and> res = 0 \<and> no = next_id (table c) \<and>
     wp (Login o' acc pw (replicate 33 0) c') (\<lambda>((ok', res', no', nick'), c'').
       ok' \<and> res' = 0 \<and> no' = no \<and> cstr nick' = Some n))"
proof -
  let ?t = "table c"
  let ?row = "\<lparr>UserNo = next_id ?t, Account = a, Password = p, Nickname = n\<rparr>"
  let ?t' = "?t\<lparr>rows := rows ?t @ [?row], next_id := next_id ?t + 1\<rparr>"
  have free2: "\<not> (\<exists>r \<in> set (rows ?t). collation o' (Account r) a)" "\<not> (\<exists>r \<in> set (rows ?t). collation o' (Nickname r) n)"
    using free by auto
  then have sp: "sp_SignUp (collation o') a p n ?t = ((0, next_id ?t), ?t')" by (auto simp: sp_SignUp_def)
  obtain c1 where c1: "run_proc o' (sp_SignUp (collation o') a p n) c = (Some (0, next_id ?t), c1)"
      "conn_ok c1" "isConnected c1" "table c1 = ?t'"
    using run_proc_success [where proc = "sp_SignUp (collation o') a p n", OF conn calls sp] by blast
  have "find (\<lambda>r. collation o' (Account r) a) (rows ?t') = Some ?row"
    using free2(1) refl by (simp add: find_new_row)
  then have lg: "sp_Login (collation o') a p ?t' = (0, next_id ?t, n)"
    using refl id by (simp add: sp_Login_def)
  obtain c2 where c2: "run_proc o' (\<lambda>t. (sp_Login (collation o') a p t, t)) c1 = (Some (0, next_id ?t, n), c2)"
    using run_proc_success [where proc = "\<lambda>t. (sp_Login (collation o') a p t, t)", OF c1(2,3) calls] c1(4) lg by auto
  have "0 \<notin> set n" using cstr_SomeD [OF s(3)] by simp
  then have f: "cstr (fetched_wchar 64 n) = Some n" using fetched_wchar_cstr [of n 64] s(4) by simp
  have r33: "(replicate 33 (0 :: WORD))[0 := 0] = replicate 33 0" "replicate 33 (0 :: WORD) \<noteq> []"
    by (simp_all add: numeral_eq_Suc)
  obtain d where d: "wcsncpy_trunc (replicate 33 0) (fetched_wchar 64 n) = Some d" "cstr d = Some n"
    using wcsncpy_trunc_ok [OF f r33(2)] s(4) by auto
  have "Login o' acc pw (replicate 33 0) c1 = Some ((True, 0, next_id ?t, d), c2)"
    using s(1,2) c2 d(1) r33 by (simp add: Login_def Let_def)
  moreover have "SignUp o' acc pw nick c = Some ((True, 0, next_id ?t), c1)"
    using s c1(1) by (simp add: SignUp_def)
  ultimately show ?thesis using d(2) by simp
qed

theorem signup_then_login_witness:
  "let o' = \<lparr>sqlret = (\<lambda>n. SQL_SUCCESS), collation = (=)\<rparr>;
       c = (CDBConnector_new \<lparr>rows = [], next_id = 1\<rparr>)\<lparr>hEnv := True, hDbc := True, isConnected := True, envs := 1, dbcs := 1\<rparr>
   in wp (SignUp o' [97, 0] [98, 0] [99, 0] c) (\<lambda>((ok, res, no), c'). ok \<and> res = 0 \<and> no = 1 \<and>
     wp (Login o' [97, 0] [98, 0] (replicate 33 0) c') (\<lambda>((ok', res', no', nick'), c'').
       ok' \<and> res' = 0 \<and> no' = no \<and> cstr nick' = Some [99]))"
proof -
  let ?o = "\<lparr>sqlret = (\<lambda>n. SQL_SUCCESS), collation = (=)\<rparr>"
  let ?c = "(CDBConnector_new \<lparr>rows = [], next_id = 1\<rparr>)\<lparr>hEnv := True, hDbc := True, isConnected := True, envs := 1, dbcs := 1\<rparr>"
  show ?thesis
    using signup_then_login [of ?c ?o "[97, 0]" "[97]" "[98, 0]" "[98]" "[99, 0]" "[99]"]
    by (simp add: conn_ok_def CDBConnector_new_def sqlOk_def cstr_def)
qed

text \<open>
  When the database cannot be reached, a login job is still answered, but its answer carries
  the code of an unknown account: the client cannot tell a database failure from a wrong account.
\<close>

lemma db_failure_reads_as_invalid_account:
  assumes "\<not> isConnected (db w)" and "0 \<in> set (job_account job)" and "0 \<in> set (job_password job)"
  shows "\<exists>r w'. processLogin o' mem job w = Some w' \<and> results w' = results w @ [r] \<and>
     res_sid r = job_sid job \<and> MapLoginResult (res_result r) = RESULT_INVALID_ACCOUNT"
proof -
  obtain a p where "cstr (job_account job) = Some a" "cstr (job_password job) = Some p"
    using assms(2,3) cstr_terminated by blast
  with assms(1) show ?thesis
    by (simp add: processLogin_def Login_def run_proc_def Let_def pushResult_def DBResult_new_def MapLoginResult_def)
qed

end
