(* ===== verification/ChatServer.thy ===== *)
theory ChatServer
  imports LanTurns Room ContentQueue DatabaseProps
begin

text \<open>
  \<open>CChatServer\<close>: the content layer of \<open>CChatServer.h\<close> and \<open>CChatServer.cpp\<close>. The class extends
  \<open>CLanServer\<close>, and so does the record. The virtual functions run on network threads and only put
  messages into the content queue; the handlers run on the update thread.

  Memory the code does not initialise is a parameter: \<open>junk n\<close> are the bytes of the \<open>n\<close>-th
  uninitialised object.
\<close>

section \<open>State\<close>

record CChatServer = CLanServer +
  roomManager :: "CRoom list"
  players :: "(SessionID, nat) umap"
  objects :: "CPlayer option list"     \<comment> \<open>every \<open>CPlayer\<close> ever created; None once deleted\<close>
  contentQ :: CContentQueue
  dbWorker :: CDBWorker
  chat_isRun :: bool
  loginOkTotal :: LONG
  loginFailTotal :: LONG
  signupOkTotal :: LONG
  signupFailTotal :: LONG
  joinCnt :: LONG
  leaveCnt :: LONG
  handleLeaveCnt :: LONG
  lastStatTick :: LONG
  lastStats :: "LONG \<times> LONG \<times> LONG"  \<comment> \<open>the static locals of \<open>PrintChatStat\<close>\<close>
  rand_calls :: nat
  junk_objs :: nat

text \<open>
  The environment of the content layer: Winsock and OpenSSL, ODBC, uninitialised memory and
  \<open>WideCharToMultiByte\<close> (the 32 bytes it leaves in a zeroed array).
\<close>

record chatenv =
  sys :: sysenv
  sql :: odbc
  junk :: "nat \<Rightarrow> nat \<Rightarrow> byte"
  wc2mb :: "wstr \<Rightarrow> bytes"

definition chatenv_ok :: "chatenv \<Rightarrow> bool" where
  "chatenv_ok e \<longleftrightarrow> ossl_ok (crypto (sys e)) \<and> (\<forall>n. length (rand (sys e) n) = 12) \<and>
     (\<forall>w. length (wc2mb e w) = 32)"

text \<open>An uninitialised object of \<open>k\<close> bytes.\<close>

definition fresh_mem :: "chatenv \<Rightarrow> nat \<Rightarrow> CChatServer \<Rightarrow> bytes \<times> CChatServer" where
  "fresh_mem e k s = (map (junk e (junk_objs s)) [0..<k], s\<lparr>junk_objs := junk_objs s + 1\<rparr>)"

section \<open>Construction\<close>

definition CChatServer_new :: "UsersTable \<Rightarrow> CChatServer" where
  "CChatServer_new t = \<lparr>sessions = [], indexPool = [], nagle = False, maxSession = 0, isrun = False,
     acceptCount = 0, recvCount = 0, sendCount = 0, totalAccept = 0, totalDisconn = 0,
     checksumMismatchCount = 0, store = \<lparr>packets = [], pool = []\<rparr>, iocp = [], outbox = [], wsa_calls = 0,
     roomManager = CRoomManager_new, players = [], objects = [], contentQ = [], dbWorker = CDBWorker_new t,
     chat_isRun = False, loginOkTotal = 0, loginFailTotal = 0, signupOkTotal = 0, signupFailTotal = 0,
     joinCnt = 0, leaveCnt = 0, handleLeaveCnt = 0, lastStatTick = 0, lastStats = (0, 0, 0),
     rand_calls = 0, junk_objs = 0\<rparr>"

definition StartContent :: "chatenv \<Rightarrow> bool \<Rightarrow> CChatServer \<Rightarrow> CChatServer" where
  "StartContent e started s = (let (ok, w) = db_Start (sql e) started (dbWorker s) in
     s\<lparr>dbWorker := w, chat_isRun := True\<rparr>)"

text \<open>\<open>StopContent\<close> after the update thread was joined.\<close>

definition StopContent :: "chatenv \<Rightarrow> CChatServer \<Rightarrow> CChatServer option" where
  "StopContent e s = do {
     let s = s\<lparr>chat_isRun := False\<rparr>;
     let (mem, s) = fresh_mem e 66 s;
     w \<leftarrow> db_Stop (sql e) (bwords mem) (dbWorker s);
     Some (s\<lparr>dbWorker := w\<rparr>) }"

section \<open>Virtual functions\<close>

definition OnClientJoin :: "SessionID \<Rightarrow> CChatServer \<Rightarrow> CChatServer option" where
  "OnClientJoin sid s = (let s = s\<lparr>joinCnt := joinCnt s + 1\<rparr>;
       msg = Message_new\<lparr>msg_sid := sid, msg_pkt := None, msg_type := MSG_JOIN\<rparr>
     in Some (s\<lparr>contentQ := Push msg (contentQ s)\<rparr>))"

definition OnClientLeave :: "SessionID \<Rightarrow> CChatServer \<Rightarrow> CChatServer option" where
  "OnClientLeave sid s = (let s = s\<lparr>leaveCnt := leaveCnt s + 1\<rparr>;
       msg = Message_new\<lparr>msg_sid := sid, msg_pkt := None, msg_type := MSG_LEAVE\<rparr>
     in Some (s\<lparr>contentQ := Push msg (contentQ s)\<rparr>))"

definition OnRecv :: "SessionID \<Rightarrow> nat \<Rightarrow> CChatServer \<Rightarrow> CChatServer option" where
  "OnRecv sid packet s = do {
     st \<leftarrow> AddRef packet (store s);
     let s = s\<lparr>store := st\<rparr>;
     let msg = Message_new\<lparr>msg_sid := sid, msg_pkt := Some packet, msg_type := MSG_RECV\<rparr>;
     Some (s\<lparr>contentQ := Push msg (contentQ s)\<rparr>) }"

definition OnConnectionRequest :: "bytes \<Rightarrow> int \<Rightarrow> bool" where
  "OnConnectionRequest ip port = True"

definition chat_vtbl :: "unit CChatServer_ext vtbl" where
  "chat_vtbl = \<lparr>v_OnClientJoin = OnClientJoin, v_OnClientLeave = OnClientLeave, v_OnRecv = OnRecv,
     v_OnConnectionRequest = OnConnectionRequest\<rparr>"

section \<open>Building and sending packets\<close>

text \<open>\<open>*res << v\<close> and \<open>res->WritePacket(v, len)\<close>, then \<open>SetHeader\<close>, on a packet of the pool.\<close>

definition on_pkt :: "nat \<Rightarrow> (CPacket \<Rightarrow> CPacket option) \<Rightarrow> CChatServer \<Rightarrow> CChatServer option" where
  "on_pkt p f s = do { st \<leftarrow> on_packet p f (store s); Some (s\<lparr>store := st\<rparr>) }"

definition put :: "nat \<Rightarrow> bytes \<Rightarrow> CChatServer \<Rightarrow> CChatServer option" where
  "put p v = on_pkt p (\<lambda>q. op_put q v)"

definition write_pkt :: "nat \<Rightarrow> bytes \<Rightarrow> int \<Rightarrow> CChatServer \<Rightarrow> CChatServer option" where
  "write_pkt p src len = on_pkt p (\<lambda>q. WritePacket q src len)"

definition set_header :: "chatenv \<Rightarrow> nat \<Rightarrow> CChatServer \<Rightarrow> CChatServer option" where
  "set_header e p s = do {
     let s' = s\<lparr>rand_calls := rand_calls s + 1\<rparr>;
     on_pkt p (SetHeader (crypto (sys e)) (rand (sys e) (rand_calls s))) s' }"

definition alloc_pkt :: "CChatServer \<Rightarrow> nat \<times> CChatServer" where
  "alloc_pkt s = (let (p, st) = Alloc (store s) in (p, s\<lparr>store := st\<rparr>))"

definition release_pkt :: "nat \<Rightarrow> CChatServer \<Rightarrow> CChatServer option" where
  "release_pkt p s = do { st \<leftarrow> Release p (store s); Some (s\<lparr>store := st\<rparr>) }"

definition chat_send :: "chatenv \<Rightarrow> SessionID \<Rightarrow> nat \<Rightarrow> CChatServer \<Rightarrow> CChatServer option" where
  "chat_send e sid p s = do { (r, s) \<leftarrow> SendPacket chat_vtbl (sys e) sid p s; Some s }"

text \<open>The loops \<open>for (const auto& pair : room->GetUsers()) SendPacket(pair.first, res)\<close>.\<close>

definition send_each :: "chatenv \<Rightarrow> SessionID list \<Rightarrow> nat \<Rightarrow> CChatServer \<Rightarrow> CChatServer option" where
  "send_each e sids p s = foldM (\<lambda>sid. chat_send e sid p) sids s"

section \<open>Reading packets\<close>

definition get :: "nat \<Rightarrow> bytes \<Rightarrow> CChatServer \<Rightarrow> (bytes \<times> CChatServer) option" where
  "get p v s = do {
     q \<leftarrow> nth_opt (packets (store s)) (int p);
     (q, v) \<leftarrow> op_get q v;
     Some (v, s\<lparr>store := (store s)\<lparr>packets := (packets (store s))[p := q]\<rparr>\<rparr>) }"

definition read_pkt :: "nat \<Rightarrow> bytes \<Rightarrow> int \<Rightarrow> CChatServer \<Rightarrow> (bytes \<times> CChatServer) option" where
  "read_pkt p dest len s = do {
     q \<leftarrow> nth_opt (packets (store s)) (int p);
     (q, d) \<leftarrow> ReadPacket q dest len;
     Some (d, s\<lparr>store := (store s)\<lparr>packets := (packets (store s))[p := q]\<rparr>\<rparr>) }"

text \<open>\<open>WORD x; *pkt >> x;\<close>\<close>

definition get_WORD :: "chatenv \<Rightarrow> nat \<Rightarrow> CChatServer \<Rightarrow> (WORD \<times> CChatServer) option" where
  "get_WORD e p s = do {
     let (mem, s) = fresh_mem e 2 s;
     (v, s) \<leftarrow> get p mem s;
     Some (le_to_word v, s) }"

text \<open>Dereferencing a \<open>CPlayer*\<close>.\<close>

definition player :: "CChatServer \<Rightarrow> nat \<Rightarrow> CPlayer option" where
  "player s ptr = (if ptr < length (objects s) then objects s ! ptr else None)"

definition set_player :: "nat \<Rightarrow> CPlayer \<Rightarrow> CChatServer \<Rightarrow> CChatServer" where
  "set_player ptr pl s = s\<lparr>objects := (objects s)[ptr := Some pl]\<rparr>"

text \<open>Dereferencing the \<open>CRoom*\<close> that \<open>GetRoom\<close> returned.\<close>

definition room :: "CChatServer \<Rightarrow> nat option \<Rightarrow> (nat \<times> CRoom) option" where
  "room s r = do { k \<leftarrow> r; x \<leftarrow> nth_opt (roomManager s) (int k); Some (k, x) }"

definition set_room :: "nat \<Rightarrow> CRoom \<Rightarrow> CChatServer \<Rightarrow> CChatServer" where
  "set_room k r s = s\<lparr>roomManager := (roomManager s)[k := r]\<rparr>"

section \<open>Handlers\<close>

definition Handle_Join :: "chatenv \<Rightarrow> SessionID \<Rightarrow> CChatServer \<Rightarrow> CChatServer" where
  "Handle_Join e sid s =
     (if map_of (players s) sid = None then
        let (mem, s) = fresh_mem e 32 s; ptr = length (objects s) in
        s\<lparr>objects := objects s @ [Some (CPlayer_new mem sid)], players := umap_set sid ptr (players s)\<rparr>
      else s)"

definition Handle_Leave :: "SessionID \<Rightarrow> CChatServer \<Rightarrow> CChatServer option" where
  "Handle_Leave sid s = (let s = s\<lparr>handleLeaveCnt := handleLeaveCnt s + 1\<rparr> in
     case map_of (players s) sid of
       None \<Rightarrow> Some s
     | Some ptr \<Rightarrow> do {
         pl \<leftarrow> player s ptr;
         s \<leftarrow> (if GetState pl = PS_IN_ROOM then do {
                (k, r) \<leftarrow> room s (GetRoom (GetRoomNo pl));
                Some (set_room k (snd (room_LeaveRoom r sid)) s) }
              else Some s);
         Some (s\<lparr>players := fst (umap_erase sid (players s)), objects := (objects s)[ptr := None]\<rparr>) })"

definition Handle_Login :: "chatenv \<Rightarrow> SessionID \<Rightarrow> nat \<Rightarrow> CChatServer \<Rightarrow> CChatServer option" where
  "Handle_Login e sid pkt s =
     (if map_of (players s) sid = None then Some s
      else do {
        let (m1, s) = fresh_mem e 66 s;
        let (m2, s) = fresh_mem e 130 s;
        let (m3, s) = fresh_mem e 66 s;
        let job = (DBJob_new (bwords m1) (bwords m2) (bwords m3))\<lparr>job_type := DB_JOB_LOGIN, job_sid := sid\<rparr>;
        (a, s) \<leftarrow> read_pkt pkt (wbytes (job_account job)) (2 * MAX_ACCOUNT_LEN) s;
        (p, s) \<leftarrow> read_pkt pkt (wbytes (job_password job)) (2 * MAX_PASSWORD_LEN) s;
        acc \<leftarrow> upd_opt (bwords a) (MAX_ACCOUNT_LEN - 1) 0;
        pw \<leftarrow> upd_opt (bwords p) (MAX_PASSWORD_LEN - 1) 0;
        let job = job\<lparr>job_account := acc, job_password := pw\<rparr>;
        Some (s\<lparr>dbWorker := PushJob job (dbWorker s)\<rparr>) })"

definition Handle_SignUp :: "chatenv \<Rightarrow> SessionID \<Rightarrow> nat \<Rightarrow> CChatServer \<Rightarrow> CChatServer option" where
  "Handle_SignUp e sid pkt s =
     (if map_of (players s) sid = None then Some s
      else do {
        let (m1, s) = fresh_mem e 66 s;
        let (m2, s) = fresh_mem e 130 s;
        let (m3, s) = fresh_mem e 66 s;
        let job = (DBJob_new (bwords m1) (bwords m2) (bwords m3))\<lparr>job_type := DB_JOB_SIGNUP, job_sid := sid\<rparr>;
        (a, s) \<leftarrow> read_pkt pkt (wbytes (job_account job)) (2 * MAX_ACCOUNT_LEN) s;
        (p, s) \<leftarrow> read_pkt pkt (wbytes (job_password job)) (2 * MAX_PASSWORD_LEN) s;
        (n, s) \<leftarrow> read_pkt pkt (wbytes (job_nickname job)) (2 * MAX_NICKNAME_LEN) s;
        acc \<leftarrow> upd_opt (bwords a) (MAX_ACCOUNT_LEN - 1) 0;
        pw \<leftarrow> upd_opt (bwords p) (MAX_PASSWORD_LEN - 1) 0;
        nk \<leftarrow> upd_opt (bwords n) (MAX_NICKNAME_LEN - 1) 0;
        let job = job\<lparr>job_account := acc, job_password := pw, job_nickname := nk\<rparr>;
        Some (s\<lparr>dbWorker := PushJob job (dbWorker s)\<rparr>) })"

definition WORD_bytes :: "WORD \<Rightarrow> bytes" where "WORD_bytes w = word_to_le 2 w"
definition BYTE_bytes :: "byte \<Rightarrow> bytes" where "BYTE_bytes b = word_to_le 1 b"
definition int_bytes :: "LONG \<Rightarrow> bytes" where "int_bytes n = word_to_le 4 n"

definition Handle_DbResult :: "chatenv \<Rightarrow> DBResult \<Rightarrow> CChatServer \<Rightarrow> CChatServer option" where
  "Handle_DbResult e r s = (case map_of (players s) (res_sid r) of
       None \<Rightarrow> Some s
     | Some ptr \<Rightarrow> (case res_type r of
         DB_JOB_LOGIN \<Rightarrow> do {
           let rc = MapLoginResult (res_result r);
           let s = (if rc = RESULT_SUCCESS then s\<lparr>loginOkTotal := loginOkTotal s + 1\<rparr>
                    else s\<lparr>loginFailTotal := loginFailTotal s + 1\<rparr>);
           s \<leftarrow> (if rc = RESULT_SUCCESS then do {
                  nick \<leftarrow> upd_opt (wc2mb e (res_nickname r)) (MAX_NICKNAME_LEN - 1) 0;
                  pl \<leftarrow> player s ptr;
                  pl \<leftarrow> SetNickname (SetUserNo pl (res_userNo r)) nick;
                  Some (set_player ptr pl s) }
                else Some s);
           let (res, s) = alloc_pkt s;
           s \<leftarrow> put res (WORD_bytes (type_val SC_LOGIN_RES)) s;
           s \<leftarrow> put res (BYTE_bytes (result_val rc)) s;
           s \<leftarrow> put res (int_bytes (res_userNo r)) s;
           s \<leftarrow> write_pkt res (wbytes (res_nickname r)) (2 * MAX_NICKNAME_LEN) s;
           s \<leftarrow> set_header e res s;
           s \<leftarrow> chat_send e (res_sid r) res s;
           release_pkt res s }
       | DB_JOB_SIGNUP \<Rightarrow> do {
           let rc = MapSignUpResult (res_result r);
           let s = (if rc = RESULT_SUCCESS then s\<lparr>signupOkTotal := signupOkTotal s + 1\<rparr>
                    else s\<lparr>signupFailTotal := signupFailTotal s + 1\<rparr>);
           let (res, s) = alloc_pkt s;
           s \<leftarrow> put res (WORD_bytes (type_val SC_SIGNUP_RES)) s;
           s \<leftarrow> put res (BYTE_bytes (result_val rc)) s;
           s \<leftarrow> put res (int_bytes (res_userNo r)) s;
           s \<leftarrow> set_header e res s;
           s \<leftarrow> chat_send e (res_sid r) res s;
           release_pkt res s }))"

definition HandleRoomEnter :: "chatenv \<Rightarrow> SessionID \<Rightarrow> nat \<Rightarrow> CChatServer \<Rightarrow> CChatServer option" where
  "HandleRoomEnter e sid pkt s = do {
     (no, s) \<leftarrow> get_WORD e pkt s;
     case map_of (players s) sid of
       None \<Rightarrow> Some s
     | Some ptr \<Rightarrow> (case GetRoom no of
         None \<Rightarrow> Some s
       | Some k \<Rightarrow> do {
           (k, r) \<leftarrow> room s (Some k);
           let (entered, r) = room_EnterRoom r sid ptr;
           let s = set_room k r s;
           if \<not> entered then Some s
           else do {
             pl \<leftarrow> player s ptr;
             let (moved, pl) = player_EnterRoom pl no;
             let s = set_player ptr pl s;
             if \<not> moved then Some s
             else do {
               let (res, s) = alloc_pkt s;
               s \<leftarrow> put res (WORD_bytes (type_val SC_ROOM_ENTER_RES)) s;
               s \<leftarrow> put res (BYTE_bytes (result_val RESULT_SUCCESS)) s;
               s \<leftarrow> put res (WORD_bytes no) s;
               s \<leftarrow> set_header e res s;
               s \<leftarrow> chat_send e sid res s;
               s \<leftarrow> release_pkt res s;
               let (notice, s) = alloc_pkt s;
               s \<leftarrow> put notice (WORD_bytes (type_val SC_USER_JOIN)) s;
               pl \<leftarrow> player s ptr;
               s \<leftarrow> write_pkt notice (GetNickname pl) MAX_NICKNAME_LEN s;
               s \<leftarrow> set_header e notice s;
               (k, r) \<leftarrow> room s (Some k);
               s \<leftarrow> send_each e (filter (\<lambda>x. x \<noteq> sid) (map fst (GetUsers r))) notice s;
               release_pkt notice s } } }) }"

definition HandleRoomLeave :: "chatenv \<Rightarrow> SessionID \<Rightarrow> nat \<Rightarrow> CChatServer \<Rightarrow> CChatServer option" where
  "HandleRoomLeave e sid pkt s = (case map_of (players s) sid of
       None \<Rightarrow> Some s
     | Some ptr \<Rightarrow> do {
         pl \<leftarrow> player s ptr;
         if GetState pl \<noteq> PS_IN_ROOM then Some s
         else do {
           (k, r) \<leftarrow> room s (GetRoom (GetRoomNo pl));
           let s = set_room k (snd (room_LeaveRoom r sid)) s;
           let s = set_player ptr (snd (player_LeaveRoom pl)) s;
           let (res, s) = alloc_pkt s;
           s \<leftarrow> put res (WORD_bytes (type_val SC_USER_LEAVE)) s;
           pl \<leftarrow> player s ptr;
           s \<leftarrow> write_pkt res (GetNickname pl) MAX_NICKNAME_LEN s;
           s \<leftarrow> set_header e res s;
           (k, r) \<leftarrow> room s (Some k);
           s \<leftarrow> send_each e (map fst (GetUsers r)) res s;
           release_pkt res s } })"

definition HandleChat :: "chatenv \<Rightarrow> SessionID \<Rightarrow> nat \<Rightarrow> CChatServer \<Rightarrow> CChatServer option" where
  "HandleChat e sid pkt s = do {
     (chatLen, s) \<leftarrow> get_WORD e pkt s;
     if uint chatLen > MAX_CHAT_LEN then Some s
     else do {
       let (mem, s) = fresh_mem e (nat MAX_CHAT_LEN) s;
       (chat, s) \<leftarrow> read_pkt pkt mem (uint chatLen) s;
       case map_of (players s) sid of
         None \<Rightarrow> Some s
       | Some ptr \<Rightarrow> do {
           pl \<leftarrow> player s ptr;
           if GetState pl \<noteq> PS_IN_ROOM then Some s
           else do {
             (k, r) \<leftarrow> room s (GetRoom (GetRoomNo pl));
             let (res, s) = alloc_pkt s;
             s \<leftarrow> put res (WORD_bytes (type_val SC_CHAT_RES)) s;
             s \<leftarrow> write_pkt res (GetNickname pl) MAX_NICKNAME_LEN s;
             s \<leftarrow> put res (WORD_bytes chatLen) s;
             s \<leftarrow> write_pkt res chat (uint chatLen) s;
             s \<leftarrow> set_header e res s;
             s \<leftarrow> send_each e (map fst (GetUsers r)) res s;
             release_pkt res s } } } }"

definition Handle_Recv :: "chatenv \<Rightarrow> SessionID \<Rightarrow> nat \<Rightarrow> CChatServer \<Rightarrow> CChatServer option" where
  "Handle_Recv e sid pkt s = do {
     (ty, s) \<leftarrow> get_WORD e pkt s;
     if ty = type_val CS_LOGIN_REQ then Handle_Login e sid pkt s
     else if ty = type_val CS_SIGNUP_REQ then Handle_SignUp e sid pkt s
     else if ty = type_val CS_ROOM_ENTER_REQ then HandleRoomEnter e sid pkt s
     else if ty = type_val CS_ROOM_LEAVE_REQ then HandleRoomLeave e sid pkt s
     else if ty = type_val CS_CHAT_REQ then HandleChat e sid pkt s
     else Some s }"

section \<open>The update thread\<close>

definition handle_msg :: "chatenv \<Rightarrow> Message \<Rightarrow> CChatServer \<Rightarrow> CChatServer option" where
  "handle_msg e msg s = (case msg_type msg of
       MSG_JOIN \<Rightarrow> Some (Handle_Join e (msg_sid msg) s)
     | MSG_LEAVE \<Rightarrow> Handle_Leave (msg_sid msg) s
     | MSG_RECV \<Rightarrow> do {
         p \<leftarrow> msg_pkt msg;
         s \<leftarrow> Handle_Recv e (msg_sid msg) p s;
         release_pkt p s }
     | MSG_INIT \<Rightarrow> Some s)"

partial_function (option) db_results :: "chatenv \<Rightarrow> CChatServer \<Rightarrow> CChatServer option" where
  "db_results e s = (case PopResult (dbWorker s) of
       None \<Rightarrow> Some s
     | Some (r, w) \<Rightarrow> do {
         s \<leftarrow> Handle_DbResult e r (s\<lparr>dbWorker := w\<rparr>);
         db_results e s })"

text \<open>What \<open>PrintChatStat\<close> computes: the counters with their differences, and the sizes.\<close>

record ChatStat =
  counters :: "LONG list"
  roomCounts :: "int list"
  activeRooms :: int
  totalInRoom :: int
  playerCount :: int
  dbJobSize :: int
  dbResSize :: int
  contentQSize :: int

definition stat_room :: "CRoom list \<Rightarrow> WORD \<Rightarrow> ChatStat \<Rightarrow> ChatStat option" where
  "stat_room rs r st = (case GetRoom r of
       None \<Rightarrow> Some st
     | Some k \<Rightarrow> do {
         rm \<leftarrow> nth_opt rs (int k);
         let c = GetUserCount rm;
         counts \<leftarrow> upd_opt (roomCounts st) (uint r) c;
         Some (st\<lparr>roomCounts := counts, totalInRoom := totalInRoom st + c,
           activeRooms := (if c > 0 then activeRooms st + 1 else activeRooms st)\<rparr>) })"

definition PrintChatStat :: "CChatServer \<Rightarrow> (ChatStat \<times> CChatServer) option" where
  "PrintChatStat s = (let j = joinCnt s; l = leaveCnt s; h = handleLeaveCnt s; (lj, ll, lh) = lastStats s;
       s = s\<lparr>lastStats := (j, l, h)\<rparr>;
       st = \<lparr>counters = [j, j - lj, l, l - ll, h, h - lh, j - l],
         roomCounts = replicate (nat MAX_ROOM_COUNT + 1) 0, activeRooms = 0, totalInRoom = 0,
         playerCount = 0, dbJobSize = 0, dbResSize = 0, contentQSize = 0\<rparr>
     in do {
       st \<leftarrow> foldM (stat_room (roomManager s)) (map word_of_nat [1..<nat MAX_ROOM_COUNT + 1]) st;
       Some (st\<lparr>playerCount := int (length (players s)), dbJobSize := GetJobSize (dbWorker s),
         dbResSize := GetResultSize (dbWorker s), contentQSize := GetSize (contentQ s)\<rparr>, s) })"

text \<open>\<open>UpdateLoop\<close> starts by reading the clock.\<close>

definition UpdateLoop_enter :: "LONG \<Rightarrow> CChatServer \<Rightarrow> CChatServer" where
  "UpdateLoop_enter now s = s\<lparr>lastStatTick := now\<rparr>"

text \<open>One turn of \<open>UpdateLoop\<close>; \<open>now\<close> is what \<open>GetTickCount\<close> returns.\<close>

definition UpdateLoop_turn :: "chatenv \<Rightarrow> LONG \<Rightarrow> CChatServer \<Rightarrow> CChatServer option" where
  "UpdateLoop_turn e now s = do {
     s \<leftarrow> (case Pop (contentQ s) of
             Some (msg, q) \<Rightarrow> handle_msg e msg (s\<lparr>contentQ := q\<rparr>)
           | None \<Rightarrow> Some s);
     s \<leftarrow> db_results e s;
     if now - lastStatTick s \<ge> 5000 then do { (st, s) \<leftarrow> PrintChatStat s; Some (s\<lparr>lastStatTick := now\<rparr>) }
     else Some s }"

text \<open>The database thread works on its queues while the update thread runs.\<close>

definition db_turn :: "chatenv \<Rightarrow> CChatServer \<Rightarrow> CChatServer option" where
  "db_turn e s = do {
     let (mem, s) = fresh_mem e 66 s;
     w \<leftarrow> WorkerLoop_turn (sql e) (bwords mem) (dbWorker s);
     Some (s\<lparr>dbWorker := w\<rparr>) }"

end
