(* ===== verification/ChatInv.thy ===== *)
theory ChatInv
  imports ChatServer
begin

text \<open>
  The invariant of the content layer and the proof that \<open>CChatServer\<close> keeps the contract
  \<open>CLanServer\<close> relies on: the interpretation of \<open>lan_app\<close> on the virtual functions of
  \<open>CChatServer\<close>. With it every lemma on the network engine holds for the chat server.
\<close>

section \<open>The part of the state the derived class adds\<close>

definition chat_of :: "unit CChatServer_ext \<Rightarrow> CChatServer" where
  "chat_of a = CLanServer.more_update (\<lambda>_. a) (CChatServer_new \<lparr>rows = [], next_id = 1\<rparr>)"

lemma chat_of_sel [simp]:
  "roomManager (chat_of (CLanServer.more s)) = roomManager s"
  "players (chat_of (CLanServer.more s)) = players s"
  "objects (chat_of (CLanServer.more s)) = objects s"
  "contentQ (chat_of (CLanServer.more s)) = contentQ s"
  "dbWorker (chat_of (CLanServer.more s)) = dbWorker s"
  for s :: CChatServer
  by (cases s, simp add: chat_of_def CChatServer_new_def)+

lemma chat_of_more_update [simp]:
  "CLanServer.more (CLanServer.more_update (\<lambda>_. a) s) = a"
  by (cases s) simp

text \<open>The part of that state only the update thread changes.\<close>

definition chat_rest :: "CChatServer \<Rightarrow> unit CChatServer_ext" where
  "chat_rest s = CLanServer.more (s\<lparr>contentQ := [], joinCnt := 0, leaveCnt := 0\<rparr>)"

lemma chat_rest_more: "chat_rest (chat_of (CLanServer.more s)) = chat_rest s" for s :: CChatServer
  by (cases s) (simp add: chat_of_def CChatServer_new_def chat_rest_def)

lemma chat_rest_upd [simp]:
  "chat_rest (s\<lparr>contentQ := q\<rparr>) = chat_rest s" "chat_rest (s\<lparr>joinCnt := n\<rparr>) = chat_rest s"
  "chat_rest (s\<lparr>leaveCnt := n\<rparr>) = chat_rest s" "chat_rest (s\<lparr>store := st\<rparr>) = chat_rest s"
  by (cases s, simp add: chat_rest_def)+

lemma chat_rest_eqD:
  assumes "chat_rest s' = chat_rest s"
  shows "roomManager s' = roomManager s" and "players s' = players s" and "objects s' = objects s"
    and "dbWorker s' = dbWorker s" and "chat_isRun s' = chat_isRun s" and "rand_calls s' = rand_calls s"
    and "junk_objs s' = junk_objs s" and "handleLeaveCnt s' = handleLeaveCnt s"
    and "loginOkTotal s' = loginOkTotal s" and "loginFailTotal s' = loginFailTotal s"
    and "signupOkTotal s' = signupOkTotal s" and "signupFailTotal s' = signupFailTotal s"
    and "lastStatTick s' = lastStatTick s" and "lastStats s' = lastStats s"
  using assms by (cases s; cases s'; simp add: chat_rest_def)+

section \<open>Messages\<close>

definition msg_ok :: "SessionID set \<Rightarrow> Message \<Rightarrow> bool" where
  "msg_ok U m \<longleftrightarrow> msg_sid m \<in> U \<and> msg_type m \<noteq> MSG_INIT \<and> (msg_pkt m \<noteq> None \<longleftrightarrow> msg_type m = MSG_RECV)"

definition msg_event :: "(nat \<Rightarrow> bytes) \<Rightarrow> Message \<Rightarrow> lan_event" where
  "msg_event f m = (case msg_type m of
       MSG_JOIN \<Rightarrow> Joined (msg_sid m)
     | MSG_LEAVE \<Rightarrow> Left (msg_sid m)
     | _ \<Rightarrow> Received (msg_sid m) (case msg_pkt m of None \<Rightarrow> [] | Some p \<Rightarrow> f p))"

definition msg_pkts :: "Message list \<Rightarrow> nat list" where
  "msg_pkts q = List.map_filter msg_pkt q"

lemma msg_pkts_simps [simp]:
  "msg_pkts [] = []" "msg_pkts (m # q) = (case msg_pkt m of None \<Rightarrow> [] | Some p \<Rightarrow> [p]) @ msg_pkts q"
  "msg_pkts (q @ q') = msg_pkts q @ msg_pkts q'"
  by (auto simp: msg_pkts_def map_filter_simps map_filter_def split: option.splits)

lemma msg_pkts_mem: "m \<in> set q \<Longrightarrow> msg_pkt m = Some p \<Longrightarrow> p \<in> set (msg_pkts q)"
  by (induction q) (auto split: option.splits)

section \<open>The invariant\<close>

text \<open>
  A live player belongs to the session it is filed under, carries a full name array, and when it is
  in a room then the room exists and lists it.
\<close>

definition player_ok :: "CRoom list \<Rightarrow> SessionID \<Rightarrow> CPlayer \<Rightarrow> bool" where
  "player_ok rs sid pl \<longleftrightarrow> pl_sid pl = sid \<and> length (nickname pl) = 32 \<and>
     (pl_state pl = PS_IN_ROOM \<longrightarrow> (\<exists>k. GetRoom (pl_roomNo pl) = Some k \<and> sid \<in> fst ` set (users (rs ! k))))"

definition players_ok :: "SessionID set \<Rightarrow> CChatServer \<Rightarrow> bool" where
  "players_ok U s \<longleftrightarrow> umap_wf (players s) \<and>
     (\<forall>(sid, ptr) \<in> set (players s). sid \<in> U \<and> ptr < length (objects s) \<and>
        (\<exists>pl. objects s ! ptr = Some pl \<and> player_ok (roomManager s) sid pl)) \<and>
     (\<forall>ptr < length (objects s). objects s ! ptr \<noteq> None \<longrightarrow> ptr \<in> snd ` set (players s))"

definition rooms_ok :: "SessionID set \<Rightarrow> CRoom list \<Rightarrow> bool" where
  "rooms_ok U rs \<longleftrightarrow> rooms_wf rs \<and> (\<forall>r \<in> set rs. fst ` set (users r) \<subseteq> U)"

definition chat_ok :: "SessionID set \<Rightarrow> CChatServer \<Rightarrow> bool" where
  "chat_ok U s \<longleftrightarrow> players_ok U s \<and> rooms_ok U (roomManager s) \<and> worker_ok (dbWorker s) \<and>
     (\<forall>m \<in> set (contentQ s). msg_ok U m) \<and> distinct (msg_pkts (contentQ s))"

definition app_refs :: "unit CChatServer_ext \<Rightarrow> nat multiset" where
  "app_refs a = mset (msg_pkts (contentQ (chat_of a)))"

text \<open>Callbacks keep the invariant and the part \<open>r\<close> of the update thread.\<close>

definition app_ok :: "unit CChatServer_ext \<Rightarrow> SessionID set \<Rightarrow> unit CChatServer_ext \<Rightarrow> bool" where
  "app_ok r U a \<longleftrightarrow> chat_ok U (chat_of a) \<and> chat_rest (chat_of a) = r"

definition app_log :: "unit CChatServer_ext \<Rightarrow> (nat \<Rightarrow> bytes) \<Rightarrow> lan_event list" where
  "app_log a f = map (msg_event f) (contentQ (chat_of a))"

lemma app_refs_more [simp]: "app_refs (CLanServer.more s) = mset (msg_pkts (contentQ s))" for s :: CChatServer
  by (simp add: app_refs_def)

lemma app_log_more [simp]: "app_log (CLanServer.more s) f = map (msg_event f) (contentQ s)" for s :: CChatServer
  by (simp add: app_log_def)

lemma app_ok_more [simp]: "app_ok r U (CLanServer.more s) \<longleftrightarrow> chat_ok U s \<and> chat_rest s = r" for s :: CChatServer
  by (simp add: app_ok_def chat_ok_def players_ok_def chat_rest_more)

lemma chat_ok_mono: "chat_ok U s \<Longrightarrow> U \<subseteq> U' \<Longrightarrow> chat_ok U' s"
  by (force simp: chat_ok_def players_ok_def rooms_ok_def msg_ok_def split_beta)

lemma chat_ok_contentQ:
  "chat_ok U (s\<lparr>contentQ := q\<rparr>) \<longleftrightarrow> players_ok U s \<and> rooms_ok U (roomManager s) \<and> worker_ok (dbWorker s) \<and>
     (\<forall>m \<in> set q. msg_ok U m) \<and> distinct (msg_pkts q)"
  by (simp add: chat_ok_def players_ok_def)

lemma chat_ok_counters [simp]:
  "chat_ok U (s\<lparr>joinCnt := n\<rparr>) = chat_ok U s" "chat_ok U (s\<lparr>leaveCnt := n\<rparr>) = chat_ok U s"
  by (simp_all add: chat_ok_def players_ok_def)

section \<open>The contract of the virtual functions\<close>

lemma more_contentQ:
  "s\<lparr>contentQ := q\<rparr> = CLanServer.more_update (\<lambda>_. CLanServer.more (s\<lparr>contentQ := q\<rparr>)) s"
  "(s\<lparr>joinCnt := n\<rparr>)\<lparr>contentQ := q\<rparr> =
     CLanServer.more_update (\<lambda>_. CLanServer.more ((s\<lparr>joinCnt := n\<rparr>)\<lparr>contentQ := q\<rparr>)) s"
  "(s\<lparr>leaveCnt := n\<rparr>)\<lparr>contentQ := q\<rparr> =
     CLanServer.more_update (\<lambda>_. CLanServer.more ((s\<lparr>leaveCnt := n\<rparr>)\<lparr>contentQ := q\<rparr>)) s"
  for s :: CChatServer
  by (cases s, simp)+

lemma join_contract:
  assumes "chat_ok U s" and "sid \<in> U"
  shows "wp (OnClientJoin sid s) (\<lambda>s'. s' = CLanServer.more_update (\<lambda>_. CLanServer.more s') s \<and> chat_ok U s' \<and>
     chat_rest s' = chat_rest s \<and> msg_pkts (contentQ s') = msg_pkts (contentQ s) \<and>
     (\<forall>f. map (msg_event f) (contentQ s') = map (msg_event f) (contentQ s) @ [Joined sid]))"
  using assms more_contentQ(2)
  by (auto simp: OnClientJoin_def Let_def Push_def chat_ok_contentQ chat_ok_def msg_ok_def msg_event_def
      Message_new_def players_ok_def)

lemma leave_contract:
  assumes "chat_ok U s" and "sid \<in> U"
  shows "wp (OnClientLeave sid s) (\<lambda>s'. s' = CLanServer.more_update (\<lambda>_. CLanServer.more s') s \<and> chat_ok U s' \<and>
     chat_rest s' = chat_rest s \<and> msg_pkts (contentQ s') = msg_pkts (contentQ s) \<and>
     (\<forall>f. map (msg_event f) (contentQ s') = map (msg_event f) (contentQ s) @ [Left sid]))"
  using assms more_contentQ(3)
  by (auto simp: OnClientLeave_def Let_def Push_def chat_ok_contentQ chat_ok_def msg_ok_def msg_event_def
      Message_new_def players_ok_def)

lemma recv_contract:
  assumes ok: "chat_ok U s" and sid: "sid \<in> U" and p: "p \<in># h" and new: "p \<notin> set (msg_pkts (contentQ s))"
    and pk: "pkt_ok leak (h + mset (msg_pkts (contentQ s))) (store s)"
  shows "wp (OnRecv sid p s) (\<lambda>s'. s' = CLanServer.more_update (\<lambda>_. CLanServer.more s') (s\<lparr>store := store s'\<rparr>) \<and>
     chat_ok U s' \<and> chat_rest s' = chat_rest s \<and> pkt_ok leak (h + mset (msg_pkts (contentQ s'))) (store s') \<and>
     pkt_data (store s') = pkt_data (store s) \<and>
     (\<forall>f. map (msg_event f) (contentQ s') = map (msg_event f) (contentQ s) @ [Received sid (f p)]))"
proof -
  let ?q = "contentQ s @ [Message_new\<lparr>msg_sid := sid, msg_pkt := Some p, msg_type := MSG_RECV\<rparr>]"
  have p': "p \<in># h + mset (msg_pkts (contentQ s))" using p by simp
  obtain st where st: "AddRef p (store s) = Some st"
      "pkt_ok leak (add_mset p (h + mset (msg_pkts (contentQ s)))) st" "pkt_data st = pkt_data (store s)"
    using AddRef_full [OF pk p'] by (auto simp: wp_iff)
  have "OnRecv sid p s = Some ((s\<lparr>store := st\<rparr>)\<lparr>contentQ := ?q\<rparr>)"
    using st(1) by (simp add: OnRecv_def Push_def Let_def)
  with st(2,3) ok sid new more_contentQ(1) [where s = "s\<lparr>store := st\<rparr>" and q = ?q] show ?thesis
    by (auto simp: chat_ok_contentQ chat_ok_def msg_ok_def msg_event_def Message_new_def players_ok_def)
qed

lemma chat_lan_app: "lan_app chat_vtbl app_refs (app_ok r) app_log"
proof
  fix U :: "SessionID set" and s :: CChatServer and sid
  assume ok: "app_ok r U (CLanServer.more s)" and sid: "sid \<in> U"
  then have ok': "chat_ok U s" and r: "chat_rest s = r" by simp_all
  show "wp (v_OnClientJoin chat_vtbl sid s) (\<lambda>s'. \<exists>a. s' = CLanServer.more_update (\<lambda>_. a) s \<and> app_ok r U a \<and>
      app_refs a = app_refs (CLanServer.more s) \<and>
      (\<forall>f. app_log a f = app_log (CLanServer.more s) f @ [Joined sid]))"
    unfolding chat_vtbl_def vtbl.simps
    by (rule wp_mono [OF join_contract [OF ok' sid]], rule exI, (erule conjE)+, rule conjI, assumption) (simp add: r)
  show "wp (v_OnClientLeave chat_vtbl sid s) (\<lambda>s'. \<exists>a. s' = CLanServer.more_update (\<lambda>_. a) s \<and> app_ok r U a \<and>
      app_refs a = app_refs (CLanServer.more s) \<and>
      (\<forall>f. app_log a f = app_log (CLanServer.more s) f @ [Left sid]))"
    unfolding chat_vtbl_def vtbl.simps
    by (rule wp_mono [OF leave_contract [OF ok' sid]], rule exI, (erule conjE)+, rule conjI, assumption) (simp add: r)
next
  fix U :: "SessionID set" and s :: CChatServer and sid p h leak
  assume ok: "app_ok r U (CLanServer.more s)" and sid: "sid \<in> U" and p: "p \<in># h"
    and new: "p \<notin># app_refs (CLanServer.more s)" and pk: "pkt_ok leak (h + app_refs (CLanServer.more s)) (store s)"
  have r: "chat_rest s = r" and a: "chat_ok U s" "p \<notin> set (msg_pkts (contentQ s))" "pkt_ok leak (h + mset (msg_pkts (contentQ s))) (store s)"
    using ok new pk by simp_all
  show "wp (v_OnRecv chat_vtbl sid p s) (\<lambda>s'. \<exists>a st. s' = CLanServer.more_update (\<lambda>_. a) (s\<lparr>store := st\<rparr>) \<and>
      app_ok r U a \<and> pkt_ok leak (h + app_refs a) st \<and> pkt_data st = pkt_data (store s) \<and>
      (\<forall>f. app_log a f = app_log (CLanServer.more s) f @ [Received sid (f p)]))"
    unfolding chat_vtbl_def vtbl.simps
    by (rule wp_mono [OF recv_contract [OF a(1) sid p a(2,3)]], rule exI, rule exI, (erule conjE)+, rule conjI, assumption) (simp add: r)
next
  fix U U' :: "SessionID set" and a
  assume "app_ok r U a" "U \<subseteq> U'"
  then show "app_ok r U' a" by (auto simp: app_ok_def intro: chat_ok_mono)
next
  fix a and f g :: "nat \<Rightarrow> bytes"
  assume "\<And>p. p \<in># app_refs a \<Longrightarrow> f p = g p"
  then show "app_log a f = app_log a g"
    by (auto simp: app_log_def app_refs_def msg_event_def msg_pkts_mem split: MessageType.splits option.splits)
qed

interpretation chat: lan_app chat_vtbl app_refs "app_ok r" app_log
  by (rule chat_lan_app)

end
