(* ===== verification/ChatOps.thy ===== *)
theory ChatOps
  imports ChatInv
begin

text \<open>
  The operations every handler of \<open>CChatServer\<close> is built from, proved against the invariant:
  reading a received packet, building a packet and sending it to one session or to a room.
\<close>

section \<open>The state between two operations of the update thread\<close>

definition chat_state :: "bool \<Rightarrow> nat multiset \<Rightarrow> CChatServer \<Rightarrow> bool" where
  "chat_state leak H s \<longleftrightarrow>
     lan_inv leak {} {} {#} (H + mset (msg_pkts (contentQ s))) s \<and> chat_ok (used_sids s) s"

definition events :: "CChatServer \<Rightarrow> lan_event list" where
  "events s = map (msg_event (unread_of (store s))) (contentQ s)"

lemma chat_state_lan:
  "lan_state app_refs (app_ok r) leak {} {} {#} H s \<longleftrightarrow> chat_state leak H s \<and> chat_rest s = r"
  by (auto simp: lan_state_def chat_state_def)

lemma chat_stateD:
  assumes "chat_state leak H s"
  shows "lan_state app_refs (app_ok (chat_rest s)) leak {} {} {#} H s"
  using assms by (simp add: chat_state_lan)

lemma log_events [simp]: "app_log (CLanServer.more s) (unread_of (store s)) = events s" for s :: CChatServer
  by (simp add: events_def)

text \<open>Changes of the content layer's own fields.\<close>

lemma lan_inv_chat [simp]:
  "lan_inv leak R D L H (s\<lparr>roomManager := rm\<rparr>) = lan_inv leak R D L H s"
  "lan_inv leak R D L H (s\<lparr>players := pm\<rparr>) = lan_inv leak R D L H s"
  "lan_inv leak R D L H (s\<lparr>objects := ob\<rparr>) = lan_inv leak R D L H s"
  "lan_inv leak R D L H (s\<lparr>contentQ := q\<rparr>) = lan_inv leak R D L H s"
  "lan_inv leak R D L H (s\<lparr>dbWorker := w\<rparr>) = lan_inv leak R D L H s"
  "lan_inv leak R D L H (s\<lparr>junk_objs := n\<rparr>) = lan_inv leak R D L H s"
  "lan_inv leak R D L H (s\<lparr>rand_calls := n\<rparr>) = lan_inv leak R D L H s"
  "lan_inv leak R D L H (s\<lparr>handleLeaveCnt := c\<rparr>) = lan_inv leak R D L H s"
  "lan_inv leak R D L H (s\<lparr>loginOkTotal := c\<rparr>) = lan_inv leak R D L H s"
  "lan_inv leak R D L H (s\<lparr>loginFailTotal := c\<rparr>) = lan_inv leak R D L H s"
  "lan_inv leak R D L H (s\<lparr>signupOkTotal := c\<rparr>) = lan_inv leak R D L H s"
  "lan_inv leak R D L H (s\<lparr>signupFailTotal := c\<rparr>) = lan_inv leak R D L H s"
  "lan_inv leak R D L H (s\<lparr>lastStatTick := c\<rparr>) = lan_inv leak R D L H s"
  "lan_inv leak R D L H (s\<lparr>lastStats := ls\<rparr>) = lan_inv leak R D L H s"
  "lan_inv leak R D L H (s\<lparr>chat_isRun := b\<rparr>) = lan_inv leak R D L H s"
  by (rule lan_inv_cong; simp)+

lemma used_sids_chat [simp]:
  "used_sids (s\<lparr>roomManager := rm\<rparr>) = used_sids s" "used_sids (s\<lparr>players := pm\<rparr>) = used_sids s"
  "used_sids (s\<lparr>objects := ob\<rparr>) = used_sids s" "used_sids (s\<lparr>contentQ := q\<rparr>) = used_sids s"
  "used_sids (s\<lparr>dbWorker := w\<rparr>) = used_sids s" "used_sids (s\<lparr>junk_objs := n\<rparr>) = used_sids s"
  "used_sids (s\<lparr>rand_calls := n\<rparr>) = used_sids s" "used_sids (s\<lparr>handleLeaveCnt := c\<rparr>) = used_sids s"
  "used_sids (s\<lparr>loginOkTotal := c\<rparr>) = used_sids s" "used_sids (s\<lparr>loginFailTotal := c\<rparr>) = used_sids s"
  "used_sids (s\<lparr>signupOkTotal := c\<rparr>) = used_sids s" "used_sids (s\<lparr>signupFailTotal := c\<rparr>) = used_sids s"
  "used_sids (s\<lparr>lastStatTick := c\<rparr>) = used_sids s" "used_sids (s\<lparr>lastStats := ls\<rparr>) = used_sids s"
  "used_sids (s\<lparr>chat_isRun := b\<rparr>) = used_sids s"
  by (rule used_sids_cong; simp)+

lemma chat_ok_fields [simp]:
  "chat_ok U (s\<lparr>junk_objs := n\<rparr>) = chat_ok U s" "chat_ok U (s\<lparr>rand_calls := n\<rparr>) = chat_ok U s"
  "chat_ok U (s\<lparr>handleLeaveCnt := c\<rparr>) = chat_ok U s" "chat_ok U (s\<lparr>loginOkTotal := c\<rparr>) = chat_ok U s"
  "chat_ok U (s\<lparr>loginFailTotal := c\<rparr>) = chat_ok U s" "chat_ok U (s\<lparr>signupOkTotal := c\<rparr>) = chat_ok U s"
  "chat_ok U (s\<lparr>signupFailTotal := c\<rparr>) = chat_ok U s" "chat_ok U (s\<lparr>lastStatTick := c\<rparr>) = chat_ok U s"
  "chat_ok U (s\<lparr>lastStats := ls\<rparr>) = chat_ok U s" "chat_ok U (s\<lparr>chat_isRun := b\<rparr>) = chat_ok U s"
  "chat_ok U (s\<lparr>store := st\<rparr>) = chat_ok U s"
  by (simp_all add: chat_ok_def players_ok_def)

lemma chat_state_fields [simp]:
  "chat_state leak H (s\<lparr>junk_objs := n\<rparr>) = chat_state leak H s" "chat_state leak H (s\<lparr>rand_calls := n\<rparr>) = chat_state leak H s"
  "chat_state leak H (s\<lparr>handleLeaveCnt := c\<rparr>) = chat_state leak H s" "chat_state leak H (s\<lparr>loginOkTotal := c\<rparr>) = chat_state leak H s"
  "chat_state leak H (s\<lparr>loginFailTotal := c\<rparr>) = chat_state leak H s" "chat_state leak H (s\<lparr>signupOkTotal := c\<rparr>) = chat_state leak H s"
  "chat_state leak H (s\<lparr>signupFailTotal := c\<rparr>) = chat_state leak H s" "chat_state leak H (s\<lparr>lastStatTick := c\<rparr>) = chat_state leak H s"
  "chat_state leak H (s\<lparr>lastStats := ls\<rparr>) = chat_state leak H s" "chat_state leak H (s\<lparr>chat_isRun := b\<rparr>) = chat_state leak H s"
  by (simp_all add: chat_state_def)

lemma chat_state_worker:
  "chat_state leak H s \<Longrightarrow> worker_ok w \<Longrightarrow> chat_state leak H (s\<lparr>dbWorker := w\<rparr>)"
  by (simp add: chat_state_def chat_ok_def players_ok_def)

lemma events_fields [simp]:
  "events (s\<lparr>roomManager := rm\<rparr>) = events s" "events (s\<lparr>players := pm\<rparr>) = events s"
  "events (s\<lparr>objects := ob\<rparr>) = events s" "events (s\<lparr>dbWorker := w\<rparr>) = events s"
  "events (s\<lparr>junk_objs := n\<rparr>) = events s" "events (s\<lparr>rand_calls := n\<rparr>) = events s"
  "events (s\<lparr>handleLeaveCnt := c\<rparr>) = events s" "events (s\<lparr>loginOkTotal := c\<rparr>) = events s"
  "events (s\<lparr>loginFailTotal := c\<rparr>) = events s" "events (s\<lparr>signupOkTotal := c\<rparr>) = events s"
  "events (s\<lparr>signupFailTotal := c\<rparr>) = events s" "events (s\<lparr>lastStatTick := c\<rparr>) = events s"
  "events (s\<lparr>lastStats := ls\<rparr>) = events s" "events (s\<lparr>chat_isRun := b\<rparr>) = events s"
  by (simp_all add: events_def)

lemma length_value_bytes [simp]:
  "length (WORD_bytes w) = 2" "length (BYTE_bytes b) = 1" "length (int_bytes n) = 4"
  by (simp_all add: WORD_bytes_def BYTE_bytes_def int_bytes_def)

section \<open>Running operations in sequence\<close>

lemma wp_seq: "wp m P \<Longrightarrow> (\<And>x. P x \<Longrightarrow> wp (f x) Q) \<Longrightarrow> wp (Option.bind m f) Q"
  by (cases m) simp_all

section \<open>Steps on packets only\<close>

text \<open>
  Reading and building packets leaves the sessions, the streams of all connections, the waiting
  events and the players, rooms and database queues alone.
\<close>

definition pkt_step :: "CChatServer \<Rightarrow> CChatServer \<Rightarrow> bool" where
  "pkt_step s s' \<longleftrightarrow> sessions s' = sessions s \<and> indexPool s' = indexPool s \<and> outbox s' = outbox s \<and>
     contentQ s' = contentQ s \<and> players s' = players s \<and> objects s' = objects s \<and>
     roomManager s' = roomManager s \<and> dbWorker s' = dbWorker s \<and> events s' = events s \<and>
     (\<forall>i < length (sessions s). conn_stream s' i = conn_stream s i)"

lemma pkt_step_refl [simp]: "pkt_step s s"
  by (simp add: pkt_step_def)

lemma pkt_step_trans: "pkt_step s t \<Longrightarrow> pkt_step t u \<Longrightarrow> pkt_step s u"
  by (simp add: pkt_step_def)

lemma pkt_step_fields [simp]:
  "pkt_step s (s'\<lparr>junk_objs := n\<rparr>) = pkt_step s s'" "pkt_step s (s'\<lparr>rand_calls := n\<rparr>) = pkt_step s s'"
  by (simp_all add: pkt_step_def conn_stream_def out_to_def)

lemma lan_refs_chat [simp]: "lan_refs (s\<lparr>junk_objs := n\<rparr>) = lan_refs s" "lan_refs (s\<lparr>rand_calls := n\<rparr>) = lan_refs s"
  by (simp_all add: lan_refs_def)

lemma fresh_mem_eq: "fresh_mem e k s = (map (junk e (junk_objs s)) [0..<k], s\<lparr>junk_objs := junk_objs s + 1\<rparr>)"
  by (simp add: fresh_mem_def)

text \<open>The packets that are queued for sending.\<close>

lemma queued_in_lan_refs:
  assumes "i < length (sessions s)" and "None \<notin> set (sq_items (sessions s ! i))" and "x \<in> set (sq_items (sessions s ! i))"
  shows "the x \<in># lan_refs s"
  using assms by (auto simp: lan_refs_split [of i s] se_refs_def)

lemma chat_state_queue:
  "chat_state leak H s \<Longrightarrow> i < length (sessions s) \<Longrightarrow> None \<notin> set (sq_items (sessions s ! i))"
  using lan_inv_slot [of leak "{}" "{}" "{#}" _ s i] by (auto simp: chat_state_def slot_ok_def session_wf_def)

lemma conn_stream_store:
  assumes "chat_state leak H s" and "i < length (sessions s)"
    and w: "\<And>p. p \<in># lan_refs s \<Longrightarrow> wire (packets st ! p) = wire (packets (store s) ! p)"
  shows "conn_stream (s\<lparr>store := st\<rparr>) i = conn_stream s i"
  using queued_in_lan_refs [OF assms(2) chat_state_queue [OF assms(1,2)]] w
  by (auto simp: conn_stream_def out_to_def intro!: arg_cong [where f = concat])

lemma chat_pkts: "chat_state leak H s \<Longrightarrow> pkt_ok leak (H + lan_refs s + mset (msg_pkts (contentQ s))) (store s)"
  using chat.state_pkts [OF chat_stateD] by simp

lemma chat_held:
  assumes "chat_state leak H s" and "p \<in># H"
  shows "p < length (packets (store s))" and "packet_wf (packets (store s) ! p)"
proof -
  have p: "p \<in># H + lan_refs s + mset (msg_pkts (contentQ s))" using assms(2) by simp
  note inv = pkt_ok_inv [OF chat_pkts [OF assms(1)]]
  show "p < length (packets (store s))" using pkt_inv_bound [OF inv p] .
  then show "packet_wf (packets (store s) ! p)" using pkt_inv_wf [OF inv] by simp
qed

section \<open>Reading a received packet\<close>

definition held :: "nat \<Rightarrow> CChatServer \<Rightarrow> bool" where
  "held p s \<longleftrightarrow> p \<notin> set (msg_pkts (contentQ s))"

lemma held_step: "pkt_step s s' \<Longrightarrow> held p s' = held p s"
  by (simp add: pkt_step_def held_def)

lemma pkt_change:
  assumes st: "chat_state leak H s" and p: "p \<in># H" "held p s"
    and q: "packet_wf q" "refCount q = refCount (packets (store s) ! p)"
    and w: "p \<notin># lan_refs s \<or> wire q = wire (packets (store s) ! p)"
    and s': "s' = s\<lparr>store := (store s)\<lparr>packets := (packets (store s))[p := q]\<rparr>\<rparr>"
  shows "chat_state leak H s'" and "pkt_step s s'"
proof -
  have b: "p < length (packets (store s))" using chat_held(1) [OF st p(1)] .
  have on: "on_packet p (\<lambda>_. Some q) (store s) = Some ((store s)\<lparr>packets := (packets (store s))[p := q]\<rparr>)"
    using b by (simp add: on_packet_def)
  have np: "p \<notin># app_refs (CLanServer.more s)" using p(2) by (simp add: held_def)
  have c: "chat_state leak H s' \<and> events s' = events s"
    using chat.on_packet_state [where f = "\<lambda>_. Some q" and Q = "\<lambda>_. True", OF chat_stateD [OF st] p(1) np] q
    by (simp add: on chat_state_lan s' events_def)
  then show "chat_state leak H s'" by simp
  have "conn_stream s' i = conn_stream s i" if "i < length (sessions s)" for i
    unfolding s' by (rule conn_stream_store [OF st that]) (use w in \<open>auto simp: nth_list_update b\<close>)
  with c show "pkt_step s s'" by (simp add: pkt_step_def s')
qed

lemma get_ok:
  assumes st: "chat_state leak H s" and p: "p \<in># H" "held p s"
  shows "wp (get p v s) (\<lambda>(d, s'). chat_state leak H s' \<and> pkt_step s s' \<and> rand_calls s' = rand_calls s \<and>
     length d = length v \<and>
     (if length v \<le> length (unread_of (store s) p)
      then d = take (length v) (unread_of (store s) p) \<and> unread_of (store s') p = drop (length v) (unread_of (store s) p)
      else d = v \<and> unread_of (store s') p = unread_of (store s) p))"
proof -
  note b = chat_held [OF st p(1)]
  let ?q = "packets (store s) ! p"
  let ?q' = "if length v \<le> length (unread ?q) then ?q\<lparr>readPos := readPos ?q + int (length v)\<rparr> else ?q"
  have q': "packet_wf ?q'" "refCount ?q' = refCount ?q" "wire ?q' = wire ?q"
    using b(2) unread_seg(3) [OF b(2), of "length v"] length_unread [OF b(2)] by (auto simp: wire_def)
  have u: "unread ?q' = (if length v \<le> length (unread ?q) then drop (length v) (unread ?q) else unread ?q)"
    using unread_seg(2) [OF b(2), of "length v"] length_unread [OF b(2)] by auto
  have eq: "get p v s = Some (if length v \<le> length (unread ?q) then take (length v) (unread ?q) else v,
      s\<lparr>store := (store s)\<lparr>packets := (packets (store s))[p := ?q']\<rparr>\<rparr>)"
    using b(1) op_get_eq [OF b(2), of v] by (simp add: get_def nth_opt_def)
  note pc = pkt_change [OF st p q'(1,2) disjI2 [OF q'(3)] refl]
  show ?thesis unfolding eq wp_Some prod.case using pc u b(1) by (auto simp: unread_of_def)
qed

lemma read_pkt_ok:
  assumes st: "chat_state leak H s" and p: "p \<in># H" "held p s" and n: "n \<le> length v"
  shows "wp (read_pkt p v (int n) s) (\<lambda>(d, s'). chat_state leak H s' \<and> pkt_step s s' \<and>
     rand_calls s' = rand_calls s \<and> length d = length v \<and>
     (if n \<le> length (unread_of (store s) p)
      then d = take n (unread_of (store s) p) @ drop n v \<and> unread_of (store s') p = drop n (unread_of (store s) p)
      else d = v \<and> unread_of (store s') p = unread_of (store s) p))"
proof -
  note b = chat_held [OF st p(1)]
  let ?q = "packets (store s) ! p"
  let ?q' = "if n \<le> length (unread ?q) then ?q\<lparr>readPos := readPos ?q + int n\<rparr> else ?q"
  have q': "packet_wf ?q'" "refCount ?q' = refCount ?q" "wire ?q' = wire ?q"
    using b(2) unread_seg(3) [OF b(2), of n] length_unread [OF b(2)] by (auto simp: wire_def)
  have u: "unread ?q' = (if n \<le> length (unread ?q) then drop n (unread ?q) else unread ?q)"
    using unread_seg(2) [OF b(2), of n] length_unread [OF b(2)] by auto
  have eq: "read_pkt p v (int n) s = Some (if n \<le> length (unread ?q) then take n (unread ?q) @ drop n v else v,
      s\<lparr>store := (store s)\<lparr>packets := (packets (store s))[p := ?q']\<rparr>\<rparr>)"
    using b(1) ReadPacket_eq [OF b(2) n] by (simp add: read_pkt_def nth_opt_def)
  note pc = pkt_change [OF st p q'(1,2) disjI2 [OF q'(3)] refl]
  show ?thesis unfolding eq wp_Some prod.case using pc u b(1) n by (auto simp: unread_of_def)
qed

lemma get_WORD_ok:
  assumes st: "chat_state leak H s" and p: "p \<in># H" "held p s"
  shows "wp (get_WORD e p s) (\<lambda>(w, s'). chat_state leak H s' \<and> pkt_step s s' \<and> rand_calls s' = rand_calls s \<and>
     (2 \<le> length (unread_of (store s) p) \<longrightarrow> w = le_to_word (take 2 (unread_of (store s) p)) \<and>
        unread_of (store s') p = drop 2 (unread_of (store s) p)))"
proof -
  let ?s = "s\<lparr>junk_objs := junk_objs s + 1\<rparr>" and ?m = "map (junk e (junk_objs s)) [0..<2]"
  have "chat_state leak H ?s" "held p ?s" using st p by (simp_all add: held_def)
  from get_ok [OF this(1) p(1) this(2), of ?m] have "wp (get p ?m ?s) (\<lambda>(d, s'). chat_state leak H s' \<and> pkt_step s s' \<and>
     rand_calls s' = rand_calls s \<and> (2 \<le> length (unread_of (store s) p) \<longrightarrow> d = take 2 (unread_of (store s) p) \<and>
        unread_of (store s') p = drop 2 (unread_of (store s) p)))"
    by (rule wp_mono) (auto intro: pkt_step_trans [of s ?s] split: if_splits)
  then show ?thesis
    by (auto simp: get_WORD_def fresh_mem_eq wp_iff)
qed

section \<open>Building a packet\<close>

text \<open>The packet \<open>p\<close> belongs to the handler alone and carries the payload \<open>bs\<close> so far.\<close>

definition building :: "bool \<Rightarrow> nat multiset \<Rightarrow> nat \<Rightarrow> bytes \<Rightarrow> CChatServer \<Rightarrow> bool" where
  "building leak H p bs s \<longleftrightarrow> chat_state leak (add_mset p H) s \<and> held p s \<and> p \<notin># lan_refs s \<and>
     payload (packets (store s) ! p) = bs"

lemma alloc_pkt_ok:
  assumes st: "chat_state leak H s" and al: "alloc_pkt s = (p, s')"
  shows "building leak H p [] s'" and "pkt_step s s'" and "rand_calls s' = rand_calls s"
    and "p \<notin># H" and "unread_of (store s') q = unread_of (store s) q \<or> q \<notin># H"
proof -
  obtain st' where a: "Alloc (store s) = (p, st')" and s': "s' = s\<lparr>store := st'\<rparr>"
    using al by (auto simp: alloc_pkt_def split: prod.splits)
  note A = chat.alloc_state [OF chat_stateD [OF st] a]
  note inv = pkt_ok_inv [OF chat_pkts [OF st]]
  have new: "p \<notin># H + lan_refs s + mset (msg_pkts (contentQ s))" using Alloc_ok(1) [OF inv a] .
  then show "p \<notin># H" by simp
  have c: "chat_state leak (add_mset p H) s'" "events s' = events s"
    using A(1,2) by (simp_all add: chat_state_lan s' events_def)
  then show "building leak H p [] s'" using new A(6) by (simp add: building_def held_def s')
  have old: "packets st' ! q = packets (store s) ! q" if "q \<in># H + lan_refs s + mset (msg_pkts (contentQ s))" for q
    using Alloc_ok(4) [OF inv a, of q] pkt_inv_bound [OF inv that] new that by auto
  have "conn_stream s' i = conn_stream s i" if "i < length (sessions s)" for i
    unfolding s' by (rule conn_stream_store [OF st that]) (simp add: old)
  with c show "pkt_step s s'" by (simp add: pkt_step_def s')
  show "rand_calls s' = rand_calls s" by (simp add: s')
  show "unread_of (store s') q = unread_of (store s) q \<or> q \<notin># H" using old [of q] by (auto simp: unread_of_def s')
qed

lemma building_change:
  assumes b: "building leak H p bs s" and q: "packet_wf q" "refCount q = refCount (packets (store s) ! p)"
  defines "s' \<equiv> s\<lparr>store := (store s)\<lparr>packets := (packets (store s))[p := q]\<rparr>\<rparr>"
  shows "building leak H p (payload q) s'" and "pkt_step s s'"
proof -
  have st: "chat_state leak (add_mset p H) s" and h: "held p s" and l: "p \<notin># lan_refs s"
    using b by (simp_all add: building_def)
  have bd: "p < length (packets (store s))" using chat_held(1) [OF st] by simp
  have "p \<in># add_mset p H" by simp
  note pc = pkt_change [OF st this h q disjI1 [OF l] refl]
  then show "building leak H p (payload q) s'" "pkt_step s s'"
    using h l bd by (simp_all add: building_def held_def s'_def)
qed

lemma building_packet:
  assumes "building leak H p bs s"
  shows "p < length (packets (store s))" and "packet_wf (packets (store s) ! p)"
    and "writePos (packets (store s) ! p) = 30 + int (length bs)"
proof -
  have "chat_state leak (add_mset p H) s" "p \<in># add_mset p H" using assms by (simp_all add: building_def)
  note h = chat_held [OF this]
  then show "p < length (packets (store s))" "packet_wf (packets (store s) ! p)" .
  show "writePos (packets (store s) ! p) = 30 + int (length bs)"
    using length_payload [OF h(2)] assms by (simp add: building_def)
qed

lemma on_pkt_ok:
  assumes b: "building leak H p bs s"
    and f: "wp (f (packets (store s) ! p)) (\<lambda>q. packet_wf q \<and> refCount q = refCount (packets (store s) ! p) \<and> Q q)"
  shows "wp (on_pkt p f s) (\<lambda>s'. building leak H p (payload (packets (store s') ! p)) s' \<and> Q (packets (store s') ! p) \<and>
     pkt_step s s' \<and> rand_calls s' = rand_calls s)"
proof -
  obtain q where q: "f (packets (store s) ! p) = Some q" "packet_wf q"
      "refCount q = refCount (packets (store s) ! p)" "Q q"
    using f by (auto simp: wp_iff)
  then show ?thesis using building_change [OF b q(2,3)] building_packet(1) [OF b]
    by (simp add: on_pkt_def on_packet_def)
qed

lemma put_bytes_building:
  assumes "building leak H p bs s" and "length bs + length v \<le> 4066"
  shows "packet_wf (put_bytes (packets (store s) ! p) v)"
    and "payload (put_bytes (packets (store s) ! p) v) = bs @ v"
    and "refCount (put_bytes (packets (store s) ! p) v) = refCount (packets (store s) ! p)"
    and "writePos (packets (store s) ! p) + int (length v) \<le> 4096"
  using assms put_bytes_ok [of "packets (store s) ! p" v] building_packet [OF assms(1)]
  by (simp_all add: building_def)

lemma put_ok:
  assumes b: "building leak H p bs s" and n: "length bs + length v \<le> 4066"
  shows "wp (put p v s) (\<lambda>s'. building leak H p (bs @ v) s' \<and> pkt_step s s' \<and> rand_calls s' = rand_calls s)"
proof -
  note pb = put_bytes_building [OF b n]
  have "wp (op_put (packets (store s) ! p) v) (\<lambda>q. packet_wf q \<and> refCount q = refCount (packets (store s) ! p) \<and>
      payload q = bs @ v)"
    using op_put_eq [OF building_packet(2) [OF b] pb(4)] pb by simp
  from on_pkt_ok [where f = "\<lambda>q. op_put q v", OF b this] show ?thesis unfolding put_def by (rule wp_mono) auto
qed

lemma write_pkt_ok:
  assumes b: "building leak H p bs s" and n: "length bs + k \<le> 4066" and k: "k \<le> length src"
  shows "wp (write_pkt p src (int k) s) (\<lambda>s'. building leak H p (bs @ take k src) s' \<and> pkt_step s s' \<and>
     rand_calls s' = rand_calls s)"
proof -
  have n': "length bs + length (take k src) \<le> 4066" using n k by simp
  note pb = put_bytes_building [OF b n']
  have "wp (WritePacket (packets (store s) ! p) src (int k)) (\<lambda>q. packet_wf q \<and>
      refCount q = refCount (packets (store s) ! p) \<and> payload q = bs @ take k src)"
    using WritePacket_eq [OF building_packet(2) [OF b] _ k] pb k by simp
  from on_pkt_ok [where f = "\<lambda>q. WritePacket q src (int k)", OF b this] show ?thesis unfolding write_pkt_def by (rule wp_mono) auto
qed

text \<open>\<open>SetHeader\<close>: the packet is complete, \<open>w\<close> is what will go on the wire.\<close>

definition sealed :: "bool \<Rightarrow> nat multiset \<Rightarrow> nat \<Rightarrow> bytes \<Rightarrow> CChatServer \<Rightarrow> bool" where
  "sealed leak H p w s \<longleftrightarrow> chat_state leak (add_mset p H) s \<and> held p s \<and> wire (packets (store s) ! p) = w"

definition sealing :: "chatenv \<Rightarrow> CChatServer \<Rightarrow> bytes \<Rightarrow> bytes" where
  "sealing e s bs = frame (crypto (sys e)) (rand (sys e) (rand_calls s)) bs"

lemma set_header_ok:
  assumes b: "building leak H p bs s" and e: "chatenv_ok e"
  shows "wp (set_header e p s) (\<lambda>s'. sealed leak H p (sealing e s bs) s' \<and> pkt_step s s' \<and>
     rand_calls s' = rand_calls s + 1)"
proof -
  let ?s = "s\<lparr>rand_calls := rand_calls s + 1\<rparr>"
  have b': "building leak H p bs ?s" using b by (simp add: building_def held_def)
  have E: "ossl_ok (crypto (sys e))" "length (rand (sys e) (rand_calls s)) = 12"
    using e by (simp_all add: chatenv_ok_def)
  obtain q where q: "SetHeader (crypto (sys e)) (rand (sys e) (rand_calls s)) (packets (store s) ! p) = Some q"
      "packet_wf q" "wire q = sealing e s bs" "refCount q = refCount (packets (store s) ! p)"
    using SetHeader_ok [OF E building_packet(2) [OF b]] b by (auto simp: building_def sealing_def)
  have "wp (SetHeader (crypto (sys e)) (rand (sys e) (rand_calls s)) (packets (store ?s) ! p)) (\<lambda>q. packet_wf q \<and>
      refCount q = refCount (packets (store ?s) ! p) \<and> wire q = sealing e s bs)"
    using q by simp
  from on_pkt_ok [where f = "SetHeader (crypto (sys e)) (rand (sys e) (rand_calls s))", OF b' this] show ?thesis unfolding set_header_def Let_def
    by (rule wp_mono) (auto simp: sealed_def building_def intro: pkt_step_trans [of s ?s])
qed

section \<open>Sending\<close>

definition open_slot :: "'a CLanServer_scheme \<Rightarrow> nat \<Rightarrow> bool" where
  "open_slot s i \<longleftrightarrow> i < length (sessions s) \<and> i \<notin> set (indexPool s) \<and> closeFlag (sessions s ! i) = 0"

text \<open>Winsock never gives one socket to two connections at a time.\<close>

definition socks_ok :: "'a CLanServer_scheme \<Rightarrow> bool" where
  "socks_ok s \<longleftrightarrow> (\<forall>i j. open_slot s i \<and> open_slot s j \<and> sock (sessions s ! i) = sock (sessions s ! j) \<longrightarrow> i = j)"

text \<open>The slots the identifiers in a list name.\<close>

definition slots_of :: "SessionID list \<Rightarrow> 'a CLanServer_scheme \<Rightarrow> nat set" where
  "slots_of sids s = {i. i < length (sessions s) \<and>
     (\<exists>sid \<in> set sids. sid_index sid = i \<and> sid_gen sid = generation (sessions s ! i))}"

text \<open>
  Every connection that is still open afterwards was open before, on the same socket; those of the
  slots in \<open>T\<close> were given the bytes \<open>w\<close> behind everything given to them before, the others nothing.
\<close>

definition delivers :: "bool \<Rightarrow> nat set \<Rightarrow> bytes \<Rightarrow> CChatServer \<Rightarrow> CChatServer \<Rightarrow> bool" where
  "delivers ok T w s s' \<longleftrightarrow> length (sessions s') = length (sessions s) \<and>
     (\<forall>i < length (sessions s). generation (sessions s' ! i) = generation (sessions s ! i)) \<and>
     (\<forall>i. open_slot s' i \<longrightarrow> open_slot s i \<and> sock (sessions s' ! i) = sock (sessions s ! i) \<and>
        conn_stream s' i = conn_stream s i @ (if i \<in> T then w else [])) \<and>
     (\<forall>i. open_slot s i \<and> (i \<notin> T \<or> ok \<and> sqCount (sessions s ! i) < Qsize) \<longrightarrow> open_slot s' i) \<and>
     (\<forall>i. i \<notin> T \<longrightarrow> sqCount (sessions s' ! i) = sqCount (sessions s ! i))"

text \<open>Winsock accepts every overlapped call.\<close>

abbreviation wsa_all :: "chatenv \<Rightarrow> bool" where
  "wsa_all e \<equiv> \<forall>n. wsa_ok (sys e) n"

lemma delivers_socks: "delivers ok T w s s' \<Longrightarrow> socks_ok s \<Longrightarrow> socks_ok s'"
  unfolding delivers_def socks_ok_def by (elim conjE) metis

lemma deliversD:
  assumes "delivers ok T w s s'"
  shows "length (sessions s') = length (sessions s)"
    and "i < length (sessions s) \<Longrightarrow> generation (sessions s' ! i) = generation (sessions s ! i)"
    and "open_slot s' i \<Longrightarrow> open_slot s i \<and> sock (sessions s' ! i) = sock (sessions s ! i) \<and>
      conn_stream s' i = conn_stream s i @ (if i \<in> T then w else [])"
    and "open_slot s i \<Longrightarrow> i \<notin> T \<or> ok \<and> sqCount (sessions s ! i) < Qsize \<Longrightarrow> open_slot s' i"
    and "i \<notin> T \<Longrightarrow> sqCount (sessions s' ! i) = sqCount (sessions s ! i)"
  using assms unfolding delivers_def by blast+

lemma delivers_trans:
  assumes d: "delivers ok T w s t" and d': "delivers ok T' w t u" and dis: "T \<inter> T' = {}"
  shows "delivers ok (T \<union> T') w s u"
  unfolding delivers_def
proof (intro conjI allI impI)
  show "length (sessions u) = length (sessions s)" using deliversD(1) [OF d] deliversD(1) [OF d'] by simp
  fix i
  show "generation (sessions u ! i) = generation (sessions s ! i)" if "i < length (sessions s)"
    using that deliversD(1) [OF d] deliversD(2) [OF d, of i] deliversD(2) [OF d', of i] by simp
  show "sqCount (sessions u ! i) = sqCount (sessions s ! i)" if "i \<notin> T \<union> T'"
    using that deliversD(5) [OF d, of i] deliversD(5) [OF d', of i] by simp
  show "open_slot u i" if "open_slot s i \<and> (i \<notin> T \<union> T' \<or> ok \<and> sqCount (sessions s ! i) < Qsize)"
    using that deliversD(4,5) [OF d, of i] deliversD(4) [OF d', of i] dis by (cases "i \<in> T") auto
  assume u: "open_slot u i"
  note b = deliversD(3) [OF d' u]
  note a = deliversD(3) [OF d conjunct1 [OF b]]
  show "open_slot s i" "sock (sessions u ! i) = sock (sessions s ! i)" using a b by simp_all
  show "conn_stream u i = conn_stream s i @ (if i \<in> T \<union> T' then w else [])"
    using a b dis by (cases "i \<in> T"; cases "i \<in> T'") auto
qed

lemma pkt_step_open: "pkt_step s t \<Longrightarrow> open_slot t i = open_slot s i"
  by (simp add: pkt_step_def open_slot_def)

lemma pkt_step_stream: "pkt_step s t \<Longrightarrow> open_slot s i \<Longrightarrow> conn_stream t i = conn_stream s i"
  by (simp add: pkt_step_def open_slot_def)

lemma pkt_step_sessions: "pkt_step s t \<Longrightarrow> sessions t = sessions s"
  by (simp add: pkt_step_def)

lemma delivers_step:
  assumes p: "pkt_step s t" and d: "delivers ok T w t u"
  shows "delivers ok T w s u"
  unfolding delivers_def
proof (intro conjI allI impI)
  note eq = pkt_step_sessions [OF p] pkt_step_open [OF p]
  show "length (sessions u) = length (sessions s)" using deliversD(1) [OF d] eq by simp
  fix i
  show "generation (sessions u ! i) = generation (sessions s ! i)" if "i < length (sessions s)"
    using that deliversD(2) [OF d, of i] eq by simp
  show "sqCount (sessions u ! i) = sqCount (sessions s ! i)" if "i \<notin> T"
    using that deliversD(5) [OF d, of i] eq by simp
  show "open_slot u i" if "open_slot s i \<and> (i \<notin> T \<or> ok \<and> sqCount (sessions s ! i) < Qsize)"
    using that deliversD(4) [OF d, of i] eq by simp
  assume u: "open_slot u i"
  note a = deliversD(3) [OF d u]
  show o: "open_slot s i" and "sock (sessions u ! i) = sock (sessions s ! i)" using a eq by simp_all
  show "conn_stream u i = conn_stream s i @ (if i \<in> T then w else [])" using a pkt_step_stream [OF p o] by simp
qed

lemma delivers_then_step:
  assumes d: "delivers ok T w s t" and p: "pkt_step t u"
  shows "delivers ok T w s u"
  unfolding delivers_def
proof (intro conjI allI impI)
  note eq = pkt_step_sessions [OF p] pkt_step_open [OF p]
  show "length (sessions u) = length (sessions s)" using deliversD(1) [OF d] eq by simp
  fix i
  show "generation (sessions u ! i) = generation (sessions s ! i)" if "i < length (sessions s)"
    using that deliversD(2) [OF d, of i] eq by simp
  show "sqCount (sessions u ! i) = sqCount (sessions s ! i)" if "i \<notin> T"
    using that deliversD(5) [OF d, of i] eq by simp
  show "open_slot u i" if "open_slot s i \<and> (i \<notin> T \<or> ok \<and> sqCount (sessions s ! i) < Qsize)"
    using that deliversD(4) [OF d, of i] eq by simp
  assume "open_slot u i"
  then have o: "open_slot t i" using eq by simp
  note a = deliversD(3) [OF d o]
  show "open_slot s i" "sock (sessions u ! i) = sock (sessions s ! i)" using a eq by simp_all
  show "conn_stream u i = conn_stream s i @ (if i \<in> T then w else [])" using a pkt_step_stream [OF p o] by simp
qed

text \<open>What sending leaves of the content layer: only departures are announced.\<close>

definition send_step :: "CChatServer \<Rightarrow> CChatServer \<Rightarrow> bool" where
  "send_step s s' \<longleftrightarrow> players s' = players s \<and> objects s' = objects s \<and> roomManager s' = roomManager s \<and>
     dbWorker s' = dbWorker s \<and> used_sids s \<subseteq> used_sids s' \<and>
     mset (msg_pkts (contentQ s')) = mset (msg_pkts (contentQ s)) \<and> (\<exists>ls. events s' = events s @ map Left ls)"

lemma send_step_refl [simp]: "send_step s s"
  by (auto simp: send_step_def intro: exI [of _ "[]"])

lemma send_step_trans:
  assumes "send_step s t" and "send_step t u"
  shows "send_step s u"
proof -
  obtain ls ls' where "events t = events s @ map Left ls" "events u = events t @ map Left ls'"
    using assms by (auto simp: send_step_def)
  then have "events u = events s @ map Left (ls @ ls')" by simp
  then show ?thesis using assms unfolding send_step_def by (metis subset_trans)
qed

lemma pkt_step_send: "pkt_step s s' \<Longrightarrow> send_step s s'"
  by (auto simp: pkt_step_def send_step_def used_sids_def used_slot_def intro: exI [of _ "[]"])

lemma send_step_held: "send_step s s' \<Longrightarrow> held p s' = held p s"
  unfolding send_step_def held_def by (metis set_mset_mset)

lemma wire_queue:
  assumes st: "chat_state leak H s" and i: "i < length (sessions s)" and pd: "pkt_data st = pkt_data (store s)"
  shows "concat (map (\<lambda>p. wire (packets st ! the p)) (sq_items (sessions s ! i))) =
     concat (map (\<lambda>p. wire (packets (store s) ! the p)) (sq_items (sessions s ! i)))"
proof -
  have "wire (packets st ! the x) = wire (packets (store s) ! the x)" if "x \<in> set (sq_items (sessions s ! i))" for x
  proof -
    have "the x \<in># H + lan_refs s + mset (msg_pkts (contentQ s))"
      using queued_in_lan_refs [OF i chat_state_queue [OF st i] that] by simp
    then have "the x < length (packets (store s))" using pkt_inv_bound [OF pkt_ok_inv [OF chat_pkts [OF st]]] by simp
    then show ?thesis using pkt_data_views(2) [OF pd] by simp
  qed
  then show ?thesis by (auto intro!: arg_cong [where f = concat])
qed

lemma send_delivers:
  assumes st: "chat_state leak H s" and sid: "sid \<in> used_sids s" and i: "i = sid_index sid"
    and fr: "lan_frame i s s'" and pd: "pkt_data (store s') = pkt_data (store s)"
    and out: "\<forall>k. k \<noteq> sock (sessions s ! i) \<longrightarrow> out_to k s' = out_to k s"
    and acc: "if accepts sid s then (ok \<longrightarrow> closeFlag (sessions s' ! i) = 0) \<and> (closeFlag (sessions s' ! i) = 0 \<longrightarrow>
          sock (sessions s' ! i) = sock (sessions s ! i) \<and> conn_stream s' i = conn_stream s i @ w)
        else s' = s \<and> \<not> names sid s \<or> names sid s \<and> outbox s' = outbox s \<and> closeFlag (sessions s' ! i) \<noteq> 0"
    and so: "socks_ok s"
  shows "delivers ok (slots_of [sid] s) w s s'"
proof -
  have T: "slots_of [sid] s = (if i < length (sessions s) \<and> sid_gen sid = generation (sessions s ! i) then {i} else {})"
    by (auto simp: slots_of_def i)
  have len: "length (sessions s') = length (sessions s)" using lan_frame_length [OF fr] .
  have gen: "generation (sessions s' ! j) = generation (sessions s ! j)" for j
    using fr by (cases "j = i") (auto simp: lan_frame_def)
  have pooled: "open_slot s i" if "i < length (sessions s)" "closeFlag (sessions s ! i) = 0"
    using that sid by (auto simp: open_slot_def used_sids_def used_slot_def i)
  have "open_slot s j \<and> sock (sessions s' ! j) = sock (sessions s ! j) \<and>
      conn_stream s' j = conn_stream s j @ (if j \<in> slots_of [sid] s then w else [])" if j: "open_slot s' j" for j
  proof (cases "j = i")
    case True
    then have o: "open_slot s i" using j fr len pooled by (auto simp: open_slot_def lan_frame_def)
    then have "accepts sid s \<longrightarrow> sid_gen sid = generation (sessions s ! i)"
        "names sid s \<longleftrightarrow> sid_gen sid = generation (sessions s ! i)"
      by (auto simp: accepts_def names_def i open_slot_def)
    then show ?thesis using acc j o True T by (auto simp: open_slot_def split: if_splits)
  next
    case False
    then have same: "sessions s' ! j = sessions s ! j" "open_slot s j"
      using fr j len by (auto simp: lan_frame_def open_slot_def)
    have "out_to (sock (sessions s ! j)) s' = out_to (sock (sessions s ! j)) s"
    proof (cases "accepts sid s")
      case True
      then have "open_slot s i" using pooled by (auto simp: accepts_def names_def i)
      then have "sock (sessions s ! j) \<noteq> sock (sessions s ! i)" using so same(2) False by (auto simp: socks_ok_def)
      then show ?thesis using out by simp
    next
      case no: False
      then show ?thesis using acc by (auto simp: out_to_def)
    qed
    moreover have "j < length (sessions s)" using same(2) by (simp add: open_slot_def)
    ultimately show ?thesis using same wire_queue [OF st _ pd, of j] False T by (simp add: conn_stream_def)
  qed
  moreover have same: "s' = s" if "i \<notin> slots_of [sid] s"
  proof -
    have "\<not> names sid s" "\<not> accepts sid s" using that T by (auto simp: accepts_def names_def i split: if_splits)
    then show ?thesis using acc by simp
  qed
  moreover have "open_slot s' j" if j: "open_slot s j" "j \<notin> slots_of [sid] s \<or> ok \<and> sqCount (sessions s ! j) < Qsize" for j
  proof (cases "j = i \<and> i \<in> slots_of [sid] s")
    case True
    then have "accepts sid s" "ok" using j T by (auto simp: accepts_def names_def open_slot_def i split: if_splits)
    then have "closeFlag (sessions s' ! i) = 0" using acc by simp
    then show ?thesis using True j(1) fr len by (auto simp: open_slot_def lan_frame_def)
  next
    case False
    then show ?thesis using same j(1) fr len by (cases "j = i") (auto simp: open_slot_def lan_frame_def)
  qed
  moreover have "sqCount (sessions s' ! j) = sqCount (sessions s ! j)" if "j \<notin> slots_of [sid] s" for j
    using same that fr by (cases "j = i") (auto simp: lan_frame_def)
  ultimately show ?thesis using len gen by (simp add: delivers_def)
qed

lemma chat_send_ok:
  assumes st: "chat_state leak H s" and p: "p \<in># H" and sid: "sid \<in> used_sids s"
  shows "wp (chat_send e sid p s) (\<lambda>s'. chat_state leak H s' \<and> send_step s s' \<and>
     pkt_data (store s') = pkt_data (store s) \<and>
     (socks_ok s \<longrightarrow> delivers (wsa_all e) (slots_of [sid] s) (wire (packets (store s) ! p)) s s'))"
proof -
  have D: "sid_index sid \<notin> {}" by simp
  have post: "chat_state leak H s' \<and> send_step s s' \<and> pkt_data (store s') = pkt_data (store s) \<and>
     (socks_ok s \<longrightarrow> delivers (wsa_all e) (slots_of [sid] s) (wire (packets (store s) ! p)) s s')"
    if *: "r = accepts sid s \<and>
       lan_state app_refs (app_ok (chat_rest s)) leak {} {} {#} H s' \<and> lan_frame (sid_index sid) s s' \<and>
       pkt_data (store s') = pkt_data (store s) \<and> app_refs (CLanServer.more s') = app_refs (CLanServer.more s) \<and>
       (app_log (CLanServer.more s') (unread_of (store s')) = app_log (CLanServer.more s) (unread_of (store s)) \<or>
        app_log (CLanServer.more s') (unread_of (store s')) =
          app_log (CLanServer.more s) (unread_of (store s)) @ [Left (sID (sessions s ! sid_index sid))]) \<and>
       (\<forall>k. k \<noteq> sock (sessions s ! sid_index sid) \<longrightarrow> out_to k s' = out_to k s) \<and>
       (if accepts sid s
        then (wsa_all e \<longrightarrow> closeFlag (sessions s' ! sid_index sid) = 0) \<and>
          (closeFlag (sessions s' ! sid_index sid) = 0 \<longrightarrow> (sid_index sid, SEND) \<in> set (iocp s') \<and>
          sock (sessions s' ! sid_index sid) = sock (sessions s ! sid_index sid) \<and>
          conn_stream s' (sid_index sid) = conn_stream s (sid_index sid) @ wire (packets (store s) ! p))
        else s' = s \<and> \<not> names sid s \<or> names sid s \<and> outbox s' = outbox s \<and> closeFlag (sessions s' ! sid_index sid) \<noteq> 0)"
    for r and s' :: CChatServer
  proof -
    have c: "chat_state leak H s'" "chat_rest s' = chat_rest s" using * by (simp_all add: chat_state_lan)
    have "events s' = events s @ map Left [] \<or> events s' = events s @ map Left [sID (sessions s ! sid_index sid)]"
      using * by (simp add: events_def)
    then have "\<exists>ls. events s' = events s @ map Left ls" by blast
    moreover have "used_sids s \<subseteq> used_sids s'" using * lan_frame_used by blast
    ultimately have "send_step s s'"
      using * chat_rest_eqD [OF c(2)] by (simp add: send_step_def)
    moreover have "delivers (wsa_all e) (slots_of [sid] s) (wire (packets (store s) ! p)) s s'" if "socks_ok s"
      by (rule send_delivers [OF st sid refl _ _ _ _ that]) (use * in auto)
    ultimately show ?thesis using c(1) * by simp
  qed
  have "wp (SendPacket chat_vtbl (sys e) sid p s) (\<lambda>(r, s'). chat_state leak H s' \<and> send_step s s' \<and>
     pkt_data (store s') = pkt_data (store s) \<and>
     (socks_ok s \<longrightarrow> delivers (wsa_all e) (slots_of [sid] s) (wire (packets (store s) ! p)) s s'))"
    by (rule wp_mono [OF chat.SendPacket_ok [OF chat_stateD [OF st] sid p D]], clarify) (rule post, blast)
  then show ?thesis by (auto simp: chat_send_def wp_iff split: prod.splits)
qed

lemma slots_of_disjoint:
  assumes "chat_state leak H s" and "insert sid (set sids) \<subseteq> used_sids s" and "sid \<notin> set sids"
  shows "slots_of [sid] s \<inter> slots_of sids s = {}"
proof -
  have len: "length (sessions s) \<le> 65535" using assms(1) by (simp add: chat_state_def lan_inv_def)
  show ?thesis using assms(2,3) used_sid_unique [OF _ _ len] by (fastforce simp: slots_of_def)
qed

lemma slots_of_Cons: "slots_of (sid # sids) s = slots_of [sid] s \<union> slots_of sids s"
  by (auto simp: slots_of_def)

lemma delivers_slots_of: "delivers ok T w s s' \<Longrightarrow> slots_of sids s' = slots_of sids s"
  by (auto simp: slots_of_def delivers_def)

lemma delivers_none: "delivers ok {} w s s"
  by (simp add: delivers_def)

lemma send_each_ok:
  assumes "chat_state leak H s" and "p \<in># H" and "set sids \<subseteq> used_sids s" and "distinct sids"
  shows "wp (send_each e sids p s) (\<lambda>s'. chat_state leak H s' \<and> send_step s s' \<and>
     pkt_data (store s') = pkt_data (store s) \<and>
     (socks_ok s \<longrightarrow> delivers (wsa_all e) (slots_of sids s) (wire (packets (store s) ! p)) s s'))"
  using assms
proof (induction sids arbitrary: s)
  case Nil
  then show ?case by (simp add: send_each_def slots_of_def delivers_none)
next
  case (Cons sid sids)
  let ?w = "wire (packets (store s) ! p)"
  have sid: "sid \<in> used_sids s" using Cons.prems(3) by simp
  obtain s1 where s1: "chat_send e sid p s = Some s1" "chat_state leak H s1" "send_step s s1"
      "pkt_data (store s1) = pkt_data (store s)" "socks_ok s \<longrightarrow> delivers (wsa_all e) (slots_of [sid] s) ?w s s1"
    using chat_send_ok [OF Cons.prems(1,2) sid, of e] by (auto simp: wp_iff)
  have w: "wire (packets (store s1) ! p) = ?w"
    using pkt_data_views(2) [OF s1(4) chat_held(1) [OF Cons.prems(1,2)]] .
  have "wp (send_each e sids p s1) (\<lambda>s'. chat_state leak H s' \<and> send_step s1 s' \<and>
     pkt_data (store s') = pkt_data (store s1) \<and>
     (socks_ok s1 \<longrightarrow> delivers (wsa_all e) (slots_of sids s1) (wire (packets (store s1) ! p)) s1 s'))"
    by (rule Cons.IH) (use Cons.prems s1(2,3) in \<open>auto simp: send_step_def\<close>)
  then obtain s2 where s2: "send_each e sids p s1 = Some s2" "chat_state leak H s2" "send_step s1 s2"
      "pkt_data (store s2) = pkt_data (store s1)" "socks_ok s1 \<longrightarrow> delivers (wsa_all e) (slots_of sids s1) ?w s1 s2"
    unfolding w by (auto simp: wp_iff)
  have "delivers (wsa_all e) (slots_of (sid # sids) s) ?w s s2" if so: "socks_ok s"
  proof -
    have d1: "delivers (wsa_all e) (slots_of [sid] s) ?w s s1" using s1(5) so by simp
    then have d2: "delivers (wsa_all e) (slots_of sids s) ?w s1 s2"
      using s2(5) delivers_socks [OF d1 so] delivers_slots_of [OF d1, of sids] by simp
    have "slots_of [sid] s \<inter> slots_of sids s = {}"
      by (rule slots_of_disjoint [OF Cons.prems(1)]) (use Cons.prems in auto)
    from delivers_trans [OF d1 d2 this] show ?thesis by (simp only: slots_of_Cons [of sid sids])
  qed
  moreover have "send_each e (sid # sids) p s = Some s2" using s1(1) s2(1) by (simp add: send_each_def)
  ultimately show ?case using s1(4) s2(2,4) send_step_trans [OF s1(3) s2(3)] by simp
qed

lemma release_pkt_ok:
  assumes st: "chat_state leak (add_mset p H) s"
  shows "wp (release_pkt p s) (\<lambda>s'. chat_state leak H s' \<and> pkt_step s s' \<and> rand_calls s' = rand_calls s \<and>
     pkt_data (store s') = pkt_data (store s))"
proof -
  obtain st' where st': "Release p (store s) = Some st'" "chat_state leak H (s\<lparr>store := st'\<rparr>)"
      "events (s\<lparr>store := st'\<rparr>) = events s" "pkt_data st' = pkt_data (store s)"
    using chat.release_state [OF chat_stateD [OF st]] by (auto simp: wp_iff chat_state_lan events_def)
  have "conn_stream (s\<lparr>store := st'\<rparr>) i = conn_stream s i" if "i < length (sessions s)" for i
    using wire_queue [OF st that st'(4)] by (simp add: conn_stream_def out_to_def)
  then show ?thesis using st' by (simp add: release_pkt_def pkt_step_def)
qed

text \<open>Completing a packet, sending it to a list of sessions and giving it back.\<close>

lemma chat_send_each: "chat_send e sid p s = send_each e [sid] p s"
  by (cases "chat_send e sid p s") (simp_all add: send_each_def)

lemma send_sealed_ok:
  assumes b: "sealed leak H p w s" and sids: "set sids \<subseteq> used_sids s" "distinct sids"
  shows "wp (do { s \<leftarrow> send_each e sids p s; release_pkt p s }) (\<lambda>s'. chat_state leak H s' \<and> send_step s s' \<and>
     (socks_ok s \<longrightarrow> delivers (wsa_all e) (slots_of sids s) w s s'))"
proof -
  have st: "chat_state leak (add_mset p H) s" and w: "wire (packets (store s) ! p) = w"
    using b by (simp_all add: sealed_def)
  obtain s1 where s1: "send_each e sids p s = Some s1" "chat_state leak (add_mset p H) s1" "send_step s s1"
      "socks_ok s \<longrightarrow> delivers (wsa_all e) (slots_of sids s) w s s1"
    using send_each_ok [OF st _ sids, of p e] w by (auto simp: wp_iff)
  have "wp (release_pkt p s1) (\<lambda>s'. chat_state leak H s' \<and> send_step s s' \<and>
     (socks_ok s \<longrightarrow> delivers (wsa_all e) (slots_of sids s) w s s'))"
  proof (rule wp_mono [OF release_pkt_ok [OF s1(2)]])
    fix s' assume s': "chat_state leak H s' \<and> pkt_step s1 s' \<and> rand_calls s' = rand_calls s1 \<and>
      pkt_data (store s') = pkt_data (store s1)"
    have "delivers (wsa_all e) (slots_of sids s) w s s'" if "socks_ok s"
      using s1(4) that s' delivers_then_step by blast
    then show "chat_state leak H s' \<and> send_step s s' \<and> (socks_ok s \<longrightarrow> delivers (wsa_all e) (slots_of sids s) w s s')"
      using s' send_step_trans [OF s1(3) pkt_step_send] by blast
  qed
  with s1(1) show ?thesis by simp
qed

lemma pkt_step_used: "pkt_step s s' \<Longrightarrow> used_sids s' = used_sids s"
  by (simp add: pkt_step_def used_sids_def used_slot_def)

lemma pkt_step_socks: "pkt_step s s' \<Longrightarrow> socks_ok s' = socks_ok s"
  by (simp add: pkt_step_def socks_ok_def open_slot_def)

lemma pkt_step_slots_of: "pkt_step s s' \<Longrightarrow> slots_of sids s' = slots_of sids s"
  by (simp add: pkt_step_def slots_of_def)

lemma finish_ok:
  assumes b: "building leak H p bs s" and e: "chatenv_ok e" and sids: "set sids \<subseteq> used_sids s" "distinct sids"
  shows "wp (do { s \<leftarrow> set_header e p s; s \<leftarrow> send_each e sids p s; release_pkt p s }) (\<lambda>s'. chat_state leak H s' \<and>
     send_step s s' \<and> (socks_ok s \<longrightarrow> delivers (wsa_all e) (slots_of sids s) (sealing e s bs) s s'))"
proof (rule wp_seq [OF set_header_ok [OF b e]])
  fix s1 assume s1: "sealed leak H p (sealing e s bs) s1 \<and> pkt_step s s1 \<and> rand_calls s1 = rand_calls s + 1"
  then have u: "set sids \<subseteq> used_sids s1" using sids(1) pkt_step_used by blast
  show "wp (do { s \<leftarrow> send_each e sids p s1; release_pkt p s }) (\<lambda>s'. chat_state leak H s' \<and>
     send_step s s' \<and> (socks_ok s \<longrightarrow> delivers (wsa_all e) (slots_of sids s) (sealing e s bs) s s'))"
    by (rule wp_mono [OF send_sealed_ok [OF conjunct1 [OF s1] u sids(2)]])
      (use s1 pkt_step_socks [of s s1] pkt_step_slots_of [of s s1 sids] pkt_step_send [of s s1] delivers_step send_step_trans in auto)
qed

section \<open>Building and sending in one go\<close>

text \<open>A packet is being built since \<open>s0\<close>.\<close>

definition prep :: "bool \<Rightarrow> nat multiset \<Rightarrow> CChatServer \<Rightarrow> nat \<Rightarrow> bytes \<Rightarrow> CChatServer \<Rightarrow> bool" where
  "prep leak H s0 p bs s \<longleftrightarrow> building leak H p bs s \<and> pkt_step s0 s \<and> rand_calls s = rand_calls s0"

text \<open>What one message to the sessions \<open>sids\<close> does.\<close>

definition told :: "bool \<Rightarrow> nat multiset \<Rightarrow> chatenv \<Rightarrow> SessionID list \<Rightarrow> bytes \<Rightarrow> CChatServer \<Rightarrow> CChatServer \<Rightarrow> bool" where
  "told leak H e sids bs s s' \<longleftrightarrow> chat_state leak H s' \<and> send_step s s' \<and>
     (socks_ok s \<longrightarrow> delivers (wsa_all e) (slots_of sids s) (sealing e s bs) s s')"

text \<open>Nothing was sent.\<close>

definition silent :: "bool \<Rightarrow> nat multiset \<Rightarrow> CChatServer \<Rightarrow> CChatServer \<Rightarrow> bool" where
  "silent leak H s s' \<longleftrightarrow> chat_state leak H s' \<and> pkt_step s s' \<and> rand_calls s' = rand_calls s"

lemma alloc_prep:
  assumes "chat_state leak H s" and "pkt_step s0 s" "rand_calls s = rand_calls s0" and "alloc_pkt s = (p, s')"
  shows "prep leak H s0 p [] s'"
  using alloc_pkt_ok(1-3) [OF assms(1,4)] assms(2,3) pkt_step_trans [OF assms(2)] by (simp add: prep_def)

lemma put_prep:
  assumes "prep leak H s0 p bs s" and "length bs + length v \<le> 4066"
  shows "wp (put p v s) (prep leak H s0 p (bs @ v))"
proof -
  have b: "building leak H p bs s" using assms(1) by (simp add: prep_def)
  show ?thesis by (rule wp_mono [OF put_ok [OF b assms(2)]])
    (use assms(1) pkt_step_trans in \<open>auto simp: prep_def\<close>)
qed

lemma write_prep:
  assumes "prep leak H s0 p bs s" and "length bs + k \<le> 4066" and "k \<le> length src"
  shows "wp (write_pkt p src (int k) s) (prep leak H s0 p (bs @ take k src))"
proof -
  have b: "building leak H p bs s" using assms(1) by (simp add: prep_def)
  show ?thesis by (rule wp_mono [OF write_pkt_ok [OF b assms(2,3)]])
    (use assms(1) pkt_step_trans in \<open>auto simp: prep_def\<close>)
qed

text \<open>The same with the length written as the code writes it.\<close>

lemma write_prep_int:
  assumes "prep leak H s0 p bs s" and "n = int k" and "length bs + k \<le> 4066" and "k \<le> length src"
  shows "wp (write_pkt p src n s) (prep leak H s0 p (bs @ take k src))"
  using write_prep [OF assms(1,3,4)] assms(2) by simp

lemma finish_prep:
  assumes p: "prep leak H s0 p bs s" and e: "chatenv_ok e" and sids: "set sids \<subseteq> used_sids s0" "distinct sids"
  shows "wp (do { s \<leftarrow> set_header e p s; s \<leftarrow> send_each e sids p s; release_pkt p s }) (told leak H e sids bs s0)"
proof -
  have b: "building leak H p bs s" and ps: "pkt_step s0 s" and r: "rand_calls s = rand_calls s0"
    using p by (simp_all add: prep_def)
  have u: "set sids \<subseteq> used_sids s" using sids(1) pkt_step_used [OF ps] by simp
  have w: "sealing e s bs = sealing e s0 bs" using r by (simp add: sealing_def)
  show ?thesis
    by (rule wp_mono [OF finish_ok [OF b e u sids(2)]])
      (use pkt_step_socks [OF ps] pkt_step_slots_of [OF ps, of sids] delivers_step [OF ps] w
        send_step_trans [OF pkt_step_send [OF ps]] in \<open>auto simp: told_def\<close>)
qed

lemma pkt_step_delivers: "pkt_step s s' \<Longrightarrow> delivers ok {} w s s'"
  by (rule delivers_step [OF _ delivers_none])

end
