(* ===== verification/ChatHandlers.thy ===== *)
theory ChatHandlers
  imports ChatOps
begin

text \<open>
  The handlers of \<open>CChatServer\<close>: each keeps the invariant, never runs into undefined behaviour
  (in particular every \<open>CPlayer*\<close> and \<open>CRoom*\<close> it dereferences is valid), and does to players, rooms,
  database jobs and connections what its name says.
\<close>

section \<open>Players and rooms under the invariant\<close>

lemma player_found:
  assumes "players_ok U s" and "map_of (players s) sid = Some ptr"
  obtains pl where "player s ptr = Some pl" "objects s ! ptr = Some pl" "player_ok (roomManager s) sid pl"
    "sid \<in> U" "ptr < length (objects s)"
proof -
  have "(sid, ptr) \<in> set (players s)" using assms(2) by (rule map_of_SomeD)
  with assms(1) obtain pl where "objects s ! ptr = Some pl" "player_ok (roomManager s) sid pl" "sid \<in> U" "ptr < length (objects s)"
    by (auto simp: players_ok_def)
  with that show ?thesis by (simp add: player_def)
qed

lemma player_ptr_inj:
  assumes "players_ok U s" and "(sid, ptr) \<in> set (players s)" "(sid', ptr) \<in> set (players s)"
  shows "sid' = sid"
proof -
  from assms(1,2) obtain pl where "objects s ! ptr = Some pl" "pl_sid pl = sid"
    by (auto simp: players_ok_def player_ok_def)
  moreover from assms(1,3) obtain pl' where "objects s ! ptr = Some pl'" "pl_sid pl' = sid'"
    by (auto simp: players_ok_def player_ok_def)
  ultimately show ?thesis by simp
qed

lemma umap_wf_unique: "umap_wf m \<Longrightarrow> (k, v) \<in> set m \<Longrightarrow> (k, v') \<in> set m \<Longrightarrow> v' = v"
  by (metis umap_wf_def map_of_is_SomeI option.inject)

text \<open>Rooms changed for the session \<open>sid\<close> only.\<close>

definition rooms_agree :: "SessionID \<Rightarrow> CRoom list \<Rightarrow> CRoom list \<Rightarrow> bool" where
  "rooms_agree sid rs rs' \<longleftrightarrow> (\<forall>k < 5. \<forall>x. x \<noteq> sid \<longrightarrow>
     (x \<in> fst ` set (users (rs' ! k)) \<longleftrightarrow> x \<in> fst ` set (users (rs ! k))))"

lemma rooms_agree_refl [simp]: "rooms_agree sid rs rs"
  by (simp add: rooms_agree_def)

lemma player_ok_agree: "player_ok rs x pl \<Longrightarrow> rooms_agree sid rs rs' \<Longrightarrow> x \<noteq> sid \<Longrightarrow> player_ok rs' x pl"
  unfolding player_ok_def rooms_agree_def by (meson GetRoom_less)

lemma players_ok_update:
  assumes ok: "players_ok U s" and sid: "map_of (players s) sid = Some ptr"
    and s': "players s' = players s" "objects s' = (objects s)[ptr := Some pl]" "rooms_agree sid (roomManager s) (roomManager s')"
    and pl: "player_ok (roomManager s') sid pl"
  shows "players_ok U s'"
proof -
  have e: "(sid, ptr) \<in> set (players s)" using sid by (rule map_of_SomeD)
  have "\<exists>pl. objects s' ! q = Some pl \<and> player_ok (roomManager s') x pl" if x: "(x, q) \<in> set (players s)" for x q
  proof (cases "x = sid")
    case True
    then have "q = ptr" using umap_wf_unique [of "players s"] e x ok by (auto simp: players_ok_def)
    then show ?thesis using True pl ok e s'(2) by (auto simp: players_ok_def)
  next
    case False
    then have "q \<noteq> ptr" using player_ptr_inj [OF ok e] x by auto
    then show ?thesis using ok x s'(2) player_ok_agree [OF _ s'(3) False] by (force simp: players_ok_def)
  qed
  moreover have "q \<in> snd ` set (players s)" if "q < length (objects s)" "objects s' ! q \<noteq> None" for q
    using that ok e s'(2) by (cases "q = ptr") (force simp: players_ok_def)+
  ultimately show ?thesis using ok s' by (auto simp: players_ok_def)
qed

lemma players_ok_erase:
  assumes ok: "players_ok U s" and sid: "map_of (players s) sid = Some ptr"
    and s': "players s' = fst (umap_erase sid (players s))" "objects s' = (objects s)[ptr := None]"
      "rooms_agree sid (roomManager s) (roomManager s')"
  shows "players_ok U s'"
proof -
  have e: "(sid, ptr) \<in> set (players s)" using sid by (rule map_of_SomeD)
  have mem: "(x, q) \<in> set (players s') \<longleftrightarrow> (x, q) \<in> set (players s) \<and> x \<noteq> sid" for x q
    by (simp add: s'(1) umap_erase_def Let_def)
  have "x \<in> U \<and> q < length (objects s') \<and> (\<exists>pl. objects s' ! q = Some pl \<and> player_ok (roomManager s') x pl)"
    if x: "(x, q) \<in> set (players s')" for x q
  proof -
    have x': "(x, q) \<in> set (players s)" "x \<noteq> sid" using x mem by auto
    then have "q \<noteq> ptr" using player_ptr_inj [OF ok e] by auto
    then show ?thesis using ok x' s'(2) player_ok_agree [OF _ s'(3) x'(2)] by (force simp: players_ok_def)
  qed
  moreover have "q \<in> snd ` set (players s')" if q: "q < length (objects s')" "objects s' ! q \<noteq> None" for q
  proof -
    have "q \<noteq> ptr" using q s'(2) by auto
    then have "objects s ! q \<noteq> None" using q s'(2) by simp
    with \<open>q \<noteq> ptr\<close> obtain x where x: "(x, q) \<in> set (players s)" using ok q s'(2) by (force simp: players_ok_def)
    then have "x \<noteq> sid" using umap_wf_unique [of "players s" sid ptr q] e ok \<open>q \<noteq> ptr\<close> by (auto simp: players_ok_def)
    then show ?thesis using x mem by force
  qed
  moreover have "umap_wf (players s')" using ok umap_wf_erase by (auto simp: players_ok_def s'(1))
  ultimately show ?thesis by (auto simp: players_ok_def)
qed

lemma set_umap_set_new: "k \<notin> fst ` set m \<Longrightarrow> set (umap_set k v m) = insert (k, v) (set m)"
  by (induction k v m rule: umap_set.induct) auto

lemma players_ok_insert:
  assumes ok: "players_ok U s" and sid: "map_of (players s) sid = None" "sid \<in> U"
    and s': "players s' = umap_set sid (length (objects s)) (players s)" "objects s' = objects s @ [Some pl]"
      "roomManager s' = roomManager s"
    and pl: "player_ok (roomManager s) sid pl"
  shows "players_ok U s'"
proof -
  have new: "set (players s') = insert (sid, length (objects s)) (set (players s))"
    using sid set_umap_set_new by (simp add: s'(1))
  have "umap_wf (players s')" using ok umap_wf_set by (auto simp: players_ok_def s'(1))
  moreover have "x \<in> U \<and> q < length (objects s') \<and> (\<exists>pl. objects s' ! q = Some pl \<and> player_ok (roomManager s') x pl)"
    if "(x, q) \<in> set (players s')" for x q
    using that ok pl sid(2) by (auto simp: new s'(2,3) players_ok_def nth_append)
  moreover have "q \<in> snd ` set (players s')" if "q < length (objects s')" "objects s' ! q \<noteq> None" for q
    using that ok by (auto simp: new s'(2) players_ok_def nth_append less_Suc_eq split: if_splits)
  ultimately show ?thesis by (auto simp: players_ok_def)
qed

text \<open>A step of the content layer that leaves the engine alone.\<close>

lemma chat_state_change:
  assumes st: "chat_state leak H s" and eq: "sessions s' = sessions s" "indexPool s' = indexPool s"
      "maxSession s' = maxSession s" "iocp s' = iocp s" "store s' = store s" "contentQ s' = contentQ s"
    and ok: "players_ok (used_sids s) s'" "rooms_ok (used_sids s) (roomManager s')" "worker_ok (dbWorker s')"
  shows "chat_state leak H s'"
proof -
  have "used_sids s' = used_sids s" using eq by (intro used_sids_cong) simp_all
  moreover have "lan_inv leak {} {} {#} (H + mset (msg_pkts (contentQ s))) s'"
    using st eq by (subst lan_inv_cong [of s' s]) (simp_all add: chat_state_def)
  ultimately show ?thesis using st ok eq(6) by (simp add: chat_state_def chat_ok_def)
qed

lemma chat_state_parts:
  assumes "chat_state leak H s"
  shows "players_ok (used_sids s) s" and "rooms_ok (used_sids s) (roomManager s)" and "worker_ok (dbWorker s)"
  using assms by (simp_all add: chat_state_def chat_ok_def)

text \<open>The room a valid number names.\<close>

lemma room_of:
  assumes "rooms_ok U rs" and "GetRoom no = Some k"
  shows "k < 5" and "k < length rs" and "room_wf (rs ! k)" and "fst ` set (users (rs ! k)) \<subseteq> U"
    and "distinct (map fst (users (rs ! k)))"
proof -
  show k: "k < 5" using GetRoom_less [OF assms(2)] .
  have wf: "rooms_wf rs" using assms(1) by (simp add: rooms_ok_def)
  then show len: "k < length rs" using k by (simp add: rooms_wf_def)
  show rw: "room_wf (rs ! k)" using rooms_wf_nth [OF wf k] .
  show "fst ` set (users (rs ! k)) \<subseteq> U" using assms(1) len by (simp add: rooms_ok_def)
  show "distinct (map fst (users (rs ! k)))" using rw by (simp add: room_wf_def umap_wf_def)
qed

lemma room_found:
  assumes "rooms_ok U (roomManager s)" and "GetRoom no = Some k"
  shows "room s (Some k) = Some (k, roomManager s ! k)"
  using room_of(2) [OF assms] by (simp add: room_def nth_opt_def)

lemma rooms_ok_update:
  assumes "rooms_ok U rs" and "k < 5" and "room_wf r" "room_no r = room_no (rs ! k)" and "fst ` set (users r) \<subseteq> U"
  shows "rooms_ok U (rs[k := r])"
proof -
  have "fst ` set (users x) \<subseteq> U" if "x \<in> set (rs[k := r])" for x
  proof -
    have "x = r \<or> x \<in> set rs" using that set_update_subset_insert [of rs k r] by blast
    then show ?thesis using assms(1,5) unfolding rooms_ok_def by blast
  qed
  then show ?thesis using assms rooms_wf_update [of rs k r] by (simp add: rooms_ok_def)
qed

section \<open>Joining and leaving\<close>

lemma Handle_Join_ok:
  assumes st: "chat_state leak H s" and sid: "sid \<in> used_sids s"
  shows "chat_state leak H (Handle_Join e sid s)" and "events (Handle_Join e sid s) = events s"
    and "fst ` set (players (Handle_Join e sid s)) = insert sid (fst ` set (players s))"
    and "used_sids (Handle_Join e sid s) = used_sids s"
proof -
  note ok = chat_state_parts [OF st]
  let ?mem = "map (junk e (junk_objs s)) [0..<32]"
  have J: "Handle_Join e sid s = (if map_of (players s) sid = None then s\<lparr>junk_objs := junk_objs s + 1,
      objects := objects s @ [Some (CPlayer_new ?mem sid)], players := umap_set sid (length (objects s)) (players s)\<rparr> else s)"
    unfolding Handle_Join_def fresh_mem_eq by (rule if_cong) (simp_all add: Let_def)
  have "players_ok (used_sids s) (Handle_Join e sid s)"
  proof (cases "map_of (players s) sid = None")
    case True
    show ?thesis
      by (rule players_ok_insert [OF ok(1) True sid, where pl = "CPlayer_new ?mem sid"])
        (use True in \<open>simp_all add: J player_ok_def CPlayer_new_def\<close>)
  next
    case False
    with ok(1) show ?thesis unfolding J by (simp only: if_False)
  qed
  then show "chat_state leak H (Handle_Join e sid s)"
    by (rule chat_state_change [OF st, rotated 6]) (use ok in \<open>simp_all add: J\<close>)
  show "events (Handle_Join e sid s) = events s" "used_sids (Handle_Join e sid s) = used_sids s"
    by (simp_all add: J)
  show "fst ` set (players (Handle_Join e sid s)) = insert sid (fst ` set (players s))"
    by (simp add: J) (auto simp: insert_absorb)
qed

lemma leave_agree:
  assumes "k < length rs"
  shows "rooms_agree sid rs (rs[k := snd (room_LeaveRoom (rs ! k) sid)])"
  using assms by (force simp: rooms_agree_def nth_list_update room_LeaveRoom_def umap_erase_def Let_def split: if_splits prod.splits)

lemma room_left:
  assumes ro: "rooms_ok U rs" and k: "GetRoom no = Some k"
    and rs': "rs' = rs[k := snd (room_LeaveRoom (rs ! k) sid)]"
  shows "rooms_ok U rs'" and "rooms_agree sid rs rs'" and "sid \<notin> fst ` set (users (rs' ! k))"
    and "users (rs' ! k) = filter (\<lambda>x. fst x \<noteq> sid) (users (rs ! k))"
proof -
  note rf = room_of [OF ro k]
  have len: "k < length rs" by (rule rf(2))
  obtain b r where br: "room_LeaveRoom (rs ! k) sid = (b, r)" by fastforce
  note lv = room_LeaveRoom_ok [OF rf(3) br]
  show "rooms_ok U rs'" unfolding rs' br snd_conv
    by (rule rooms_ok_update [OF ro rf(1) lv(1,2)]) (use rf(4) in \<open>auto simp: lv(4)\<close>)
  show "rooms_agree sid rs rs'" unfolding rs' by (rule leave_agree [OF len])
  show us: "users (rs' ! k) = filter (\<lambda>x. fst x \<noteq> sid) (users (rs ! k))" using lv(4) len by (simp add: rs' br)
  then show "sid \<notin> fst ` set (users (rs' ! k))" by auto
qed

lemma Handle_Leave_ok:
  assumes st: "chat_state leak H s"
  shows "wp (Handle_Leave sid s) (\<lambda>s'. chat_state leak H s' \<and> events s' = events s \<and> used_sids s' = used_sids s \<and>
     sessions s' = sessions s \<and> indexPool s' = indexPool s \<and> contentQ s' = contentQ s \<and>
     fst ` set (players s') = fst ` set (players s) - {sid} \<and>
     (\<forall>ptr. map_of (players s) sid = Some ptr \<longrightarrow> objects s' ! ptr = None) \<and>
     rooms_agree sid (roomManager s) (roomManager s') \<and>
     (\<forall>ptr pl k. map_of (players s) sid = Some ptr \<and> objects s ! ptr = Some pl \<and> GetState pl = PS_IN_ROOM \<and>
        GetRoom (GetRoomNo pl) = Some k \<longrightarrow> sid \<notin> fst ` set (users (roomManager s' ! k))))"
proof (cases "map_of (players s) sid")
  case None
  then have "Handle_Leave sid s = Some (s\<lparr>handleLeaveCnt := handleLeaveCnt s + 1\<rparr>)"
    by (simp add: Handle_Leave_def Let_def del: umap_find_None)
  moreover have "sid \<notin> fst ` set (players s)" using None by simp
  ultimately show ?thesis using st by (auto simp: None simp del: umap_find_None)
next
  case (Some ptr)
  note ok = chat_state_parts [OF st]
  obtain pl where pl: "player s ptr = Some pl" "objects s ! ptr = Some pl" "player_ok (roomManager s) sid pl" "ptr < length (objects s)"
    using player_found [OF ok(1) Some] by metis
  define rs where "rs = (if GetState pl = PS_IN_ROOM then (case GetRoom (GetRoomNo pl) of None \<Rightarrow> roomManager s
    | Some k \<Rightarrow> (roomManager s)[k := snd (room_LeaveRoom (roomManager s ! k) sid)]) else roomManager s)"
  define s' where "s' = s\<lparr>handleLeaveCnt := handleLeaveCnt s + 1, roomManager := rs,
    players := fst (umap_erase sid (players s)), objects := (objects s)[ptr := None]\<rparr>"
  have inroom: "\<exists>k. GetRoom (GetRoomNo pl) = Some k" if "GetState pl = PS_IN_ROOM"
    using pl(3) that by (auto simp: player_ok_def GetState_def GetRoomNo_def)
  have "Handle_Leave sid s = Some s'"
  proof (cases "GetState pl = PS_IN_ROOM")
    case True
    then obtain k where k: "GetRoom (GetRoomNo pl) = Some k" using inroom by auto
    have "room (s\<lparr>handleLeaveCnt := handleLeaveCnt s + 1\<rparr>) (Some k) = Some (k, roomManager s ! k)"
      using room_found [of "used_sids s" "s\<lparr>handleLeaveCnt := handleLeaveCnt s + 1\<rparr>", OF _ k] ok(2) by simp
    then show ?thesis using Some pl(2,4) True k
      by (simp add: Handle_Leave_def Let_def player_def s'_def rs_def set_room_def)
  next
    case False
    then show ?thesis using Some pl(2,4)
      by (simp add: Handle_Leave_def Let_def player_def s'_def rs_def)
  qed
  moreover have rs: "rooms_ok (used_sids s) rs" "rooms_agree sid (roomManager s) rs"
      "GetState pl = PS_IN_ROOM \<Longrightarrow> GetRoom (GetRoomNo pl) = Some k \<Longrightarrow> sid \<notin> fst ` set (users (rs ! k))" for k
    using room_left [OF ok(2) _ refl] ok(2) by (auto simp: rs_def split: option.splits)
  moreover have "players_ok (used_sids s) s'"
    by (rule players_ok_erase [OF ok(1) Some]) (use rs in \<open>simp_all add: s'_def\<close>)
  then have "chat_state leak H s'"
    by (rule chat_state_change [OF st, rotated 6]) (use ok rs in \<open>simp_all add: s'_def\<close>)
  ultimately show ?thesis using Some pl by (simp add: s'_def)
qed

section \<open>Chat messages\<close>

text \<open>
  The broadcast a chat request causes, as the members of the sender's room will see it: the type, the
  sender's name array and the text behind its length. None: nobody is told anything.
\<close>

definition chat_reply :: "SessionID \<Rightarrow> bytes \<Rightarrow> CChatServer \<Rightarrow> (SessionID list \<times> bytes) option" where
  "chat_reply sid body s = do {
     ptr \<leftarrow> map_of (players s) sid;
     pl \<leftarrow> player s ptr;
     if GetState pl \<noteq> PS_IN_ROOM then None
     else do {
       k \<leftarrow> GetRoom (GetRoomNo pl);
       Some (map fst (users (roomManager s ! k)), WORD_bytes (type_val SC_CHAT_RES) @ GetNickname pl @ body) } }"

lemma chat_reply_step: "pkt_step s s' \<Longrightarrow> chat_reply sid body s' = chat_reply sid body s"
proof -
  assume "pkt_step s s'"
  then have eq: "players s' = players s" "objects s' = objects s" "roomManager s' = roomManager s"
    by (simp_all add: pkt_step_def)
  show ?thesis unfolding chat_reply_def player_def eq ..
qed

text \<open>What a handler did, given the reply it owed.\<close>

definition replied ::
    "bool \<Rightarrow> nat multiset \<Rightarrow> chatenv \<Rightarrow> (SessionID list \<times> bytes) option \<Rightarrow> CChatServer \<Rightarrow> CChatServer \<Rightarrow> bool" where
  "replied leak H e reply s s' \<longleftrightarrow>
     (case reply of None \<Rightarrow> silent leak H s s' | Some (sids, bs) \<Rightarrow> told leak H e sids bs s s')"

lemma replied_simps [simp]:
  "replied leak H e None = silent leak H" "replied leak H e (Some (sids, bs)) = told leak H e sids bs"
  by (simp_all add: replied_def fun_eq_iff)

text \<open>Bytes of a request with a length field that promises more than there is are not specified.\<close>

lemma chat_broadcast:
  assumes st: "chat_state leak H s" and s0: "pkt_step s0 s" "rand_calls s = rand_calls s0" and e: "chatenv_ok e"
    and ptr: "map_of (players s) sid = Some ptr" and n: "uint n \<le> 256" "length chat = 256"
  shows "wp (do { pl \<leftarrow> player s ptr;
           if GetState pl \<noteq> PS_IN_ROOM then Some s
           else do {
             (k, r) \<leftarrow> room s (GetRoom (GetRoomNo pl));
             let (res, s) = alloc_pkt s;
             s \<leftarrow> put res (WORD_bytes (type_val SC_CHAT_RES)) s;
             s \<leftarrow> write_pkt res (GetNickname pl) MAX_NICKNAME_LEN s;
             s \<leftarrow> put res (WORD_bytes n) s;
             s \<leftarrow> write_pkt res chat (uint n) s;
             s \<leftarrow> set_header e res s;
             s \<leftarrow> send_each e (map fst (GetUsers r)) res s;
             release_pkt res s } })
     (replied leak H e (chat_reply sid (WORD_bytes n @ take (nat (uint n)) chat) s0) s0)"
proof -
  note ok = chat_state_parts [OF st]
  obtain pl where pl: "player s ptr = Some pl" "player_ok (roomManager s) sid pl"
    using player_found [OF ok(1) ptr] by metis
  show ?thesis
  proof (cases "GetState pl = PS_IN_ROOM")
    case False
    then have "chat_reply sid body s = None" for body using pl ptr by (simp add: chat_reply_def)
    then have "chat_reply sid body s0 = None" for body using chat_reply_step [OF s0(1)] by simp
    with False pl st s0 show ?thesis by (simp add: silent_def)
  next
    case True
    then obtain k where k: "GetRoom (GetRoomNo pl) = Some k"
      using pl(2) by (auto simp: player_ok_def GetState_def GetRoomNo_def)
    note rf = room_of [OF ok(2) k]
    have nick: "length (GetNickname pl) = 32" using pl(2) by (simp add: player_ok_def GetNickname_def)
    let ?sids = "map fst (users (roomManager s ! k))"
    have "chat_reply sid body s = Some (?sids, WORD_bytes (type_val SC_CHAT_RES) @ GetNickname pl @ body)" for body
      using True pl ptr k by (simp add: chat_reply_def)
    then have reply: "chat_reply sid body s0 = Some (?sids, WORD_bytes (type_val SC_CHAT_RES) @ GetNickname pl @ body)" for body
      using chat_reply_step [OF s0(1)] by simp
    obtain res s1 where al: "alloc_pkt s = (res, s1)" by fastforce
    have "nat (uint n) \<le> nat 256" using n(1) by (rule nat_mono)
    then have nn: "unat n \<le> 256" by simp
    have u: "set ?sids \<subseteq> used_sids s0" "distinct ?sids"
      using rf(4,5) pkt_step_used [OF s0(1)] by auto
    have "wp (do { s \<leftarrow> put res (WORD_bytes (type_val SC_CHAT_RES)) s1;
             s \<leftarrow> write_pkt res (GetNickname pl) MAX_NICKNAME_LEN s;
             s \<leftarrow> put res (WORD_bytes n) s;
             s \<leftarrow> write_pkt res chat (uint n) s;
             s \<leftarrow> set_header e res s;
             s \<leftarrow> send_each e ?sids res s;
             release_pkt res s })
        (told leak H e ?sids (((([] @ WORD_bytes (type_val SC_CHAT_RES)) @ take 32 (GetNickname pl)) @ WORD_bytes n) @ take (nat (uint n)) chat) s0)"
      by (rule wp_seq [OF put_prep [OF alloc_prep [OF st s0 al]]], simp,
          rule wp_seq, erule write_prep_int [where k = 32], simp, simp, simp add: nick,
          rule wp_seq, erule put_prep, simp add: nick,
          rule wp_seq, erule write_prep_int [where k = "nat (uint n)"], simp, use nn n(2) in \<open>simp add: nick\<close>,
          use nn n(2) in \<open>simp add: nick\<close>, erule finish_prep [OF _ e u])
    then show ?thesis using True pl k room_found [OF ok(2) k] al nick reply
      by (simp add: GetUsers_def Let_def)
  qed
qed

lemma chat_reply_absent: "map_of (players s) sid = None \<Longrightarrow> chat_reply sid body s = None"
  by (simp add: chat_reply_def del: umap_find_None)

lemma silent_refl: "chat_state leak H s \<Longrightarrow> silent leak H s s"
  by (simp add: silent_def)

lemma HandleChat_ok:
  assumes st: "chat_state leak H s" and p: "pkt \<in># H" "held pkt s" and e: "chatenv_ok e"
  shows "wp (HandleChat e sid pkt s) (\<lambda>s'. \<exists>n chat.
     replied leak H e (if uint n > 256 then None else chat_reply sid (WORD_bytes n @ chat) s) s s' \<and>
     (2 \<le> length (unread_of (store s) pkt) \<longrightarrow> n = le_to_word (take 2 (unread_of (store s) pkt))) \<and>
     (2 + unat n \<le> length (unread_of (store s) pkt) \<longrightarrow> chat = take (unat n) (drop 2 (unread_of (store s) pkt))) \<and>
     (uint n \<le> 256 \<and> 2 \<le> length (unread_of (store s) pkt) \<and> length (unread_of (store s) pkt) < 2 + unat n \<longrightarrow>
        (\<exists>j. chat = map (junk e j) [0..<unat n])))"
proof -
  let ?u = "unread_of (store s) pkt"
  obtain n s1 where g: "get_WORD e pkt s = Some (n, s1)"
    and s1: "chat_state leak H s1" "pkt_step s s1" "rand_calls s1 = rand_calls s"
    and u: "2 \<le> length ?u \<Longrightarrow> n = le_to_word (take 2 ?u) \<and> unread_of (store s1) pkt = drop 2 ?u"
    using get_WORD_ok [OF st p, of e] by (auto simp: wp_iff)
  show ?thesis
  proof (cases "uint n > 256")
    case True
    then have "HandleChat e sid pkt s = Some s1" by (simp add: HandleChat_def g)
    with True s1 u show ?thesis by (auto simp: silent_def intro!: exI [of _ n])
  next
    case False
    let ?s = "s1\<lparr>junk_objs := junk_objs s1 + 1\<rparr>" and ?m = "map (junk e (junk_objs s1)) [0..<256]"
    have s2: "chat_state leak H ?s" "held pkt ?s" "pkt_step s ?s"
      using s1 p(2) held_step [OF s1(2), of pkt] by (simp_all add: held_def)
    have n: "nat (uint n) \<le> length ?m" "int (nat (uint n)) = uint n" "uint n \<le> 256"
      using False nat_mono [of "uint n" 256] by auto
    have "wp (read_pkt pkt ?m (uint n) ?s) (\<lambda>(d, s'). chat_state leak H s' \<and> pkt_step ?s s' \<and> rand_calls s' = rand_calls s \<and>
        length d = 256 \<and> (if unat n \<le> length (unread_of (store s1) pkt) then take (unat n) d = take (unat n) (unread_of (store s1) pkt)
          else d = ?m))"
      by (rule wp_mono [OF read_pkt_ok [OF s2(1) p(1) s2(2) n(1), unfolded n(2)]]) (use s1(3) in auto)
    then obtain chat s3 where s3: "read_pkt pkt ?m (uint n) ?s = Some (chat, s3)" "chat_state leak H s3" "pkt_step ?s s3"
        "rand_calls s3 = rand_calls s" "length chat = 256"
        "if unat n \<le> length (unread_of (store s1) pkt) then take (unat n) chat = take (unat n) (unread_of (store s1) pkt) else chat = ?m"
      by (auto simp: wp_iff)
    have st3: "pkt_step s s3" using pkt_step_trans [OF s2(3) s3(3)] .
    have "wp (HandleChat e sid pkt s) (replied leak H e (chat_reply sid (WORD_bytes n @ take (unat n) chat) s) s)"
    proof (cases "map_of (players s3) sid")
      case None
      have "HandleChat e sid pkt s = Some s3"
        using False s3(1) by (simp add: HandleChat_def g fresh_mem_eq None del: umap_find_None)
      then show ?thesis using chat_reply_absent [OF None] chat_reply_step [OF st3] s3(2,4) st3 by (simp add: silent_def)
    next
      case (Some ptr)
      then show ?thesis using chat_broadcast [OF s3(2) st3 s3(4) e Some n(3) s3(5)] False s3(1)
        by (simp add: HandleChat_def g fresh_mem_eq)
    qed
    moreover have "2 + unat n \<le> length ?u \<longrightarrow> take (unat n) chat = take (unat n) (drop 2 ?u)"
      using u s3(6) by auto
    moreover have "2 \<le> length ?u \<and> length ?u < 2 + unat n \<longrightarrow> (\<exists>j. take (unat n) chat = map (junk e j) [0..<unat n])"
      using u s3(6) n(1) by (auto simp: take_map take_upt)
    ultimately show ?thesis using False u
      by - (erule wp_mono, intro exI [of _ n] exI [of _ "take (unat n) chat"], auto)
  qed
qed

section \<open>Requests that go to the database\<close>

text \<open>Reading one text field of \<open>n\<close> units into a larger array and terminating it.\<close>

lemma field_ok:
  assumes st: "chat_state leak H s" and p: "p \<in># H" "held p s" and n: "0 < n" "n \<le> length w"
  obtains d s' arr where "read_pkt p (wbytes w) (2 * int n) s = Some (d, s')" "chat_state leak H s'" "pkt_step s s'"
    "rand_calls s' = rand_calls s" "upd_opt (bwords d) (int n - 1) 0 = Some arr" "length arr = length w" "0 \<in> set arr"
    "2 * n \<le> length (unread_of (store s) p) \<Longrightarrow> cstr arr = Some (wfield n (unread_of (store s) p)) \<and>
       unread_of (store s') p = drop (2 * n) (unread_of (store s) p)"
proof -
  let ?u = "unread_of (store s) p"
  have l: "2 * n \<le> length (wbytes w)" "int (2 * n) = 2 * int n" using n by simp_all
  obtain d s' where r: "read_pkt p (wbytes w) (2 * int n) s = Some (d, s')" "chat_state leak H s'" "pkt_step s s'"
      "rand_calls s' = rand_calls s" "length d = length (wbytes w)"
    and d: "if 2 * n \<le> length ?u then d = take (2 * n) ?u @ drop (2 * n) (wbytes w) \<and> unread_of (store s') p = drop (2 * n) ?u
      else d = wbytes w \<and> unread_of (store s') p = ?u"
    using read_pkt_ok [OF st p l(1), unfolded l(2)] by (elim wpE) auto
  let ?arr = "(bwords d)[n - 1 := 0]"
  have len: "length (bwords d) = length w" using r(5) by simp
  have k: "nat (int n - 1) = n - 1" using n(1) by linarith
  have "upd_opt (bwords d) (int n - 1) 0 = Some ?arr" using n len k by (simp add: upd_opt_def)
  moreover have "0 \<in> set ?arr" using n len by (intro set_update_memI) simp
  moreover have "cstr ?arr = Some (wfield n ?u) \<and> unread_of (store s') p = drop (2 * n) ?u" if "2 * n \<le> length ?u"
    using d that wfield_cstr [OF n(1) that n(2)] by simp
  ultimately show ?thesis using that [OF r(1-4)] len by simp
qed

text \<open>
  What such a request does: a job for the session is appended to the queue of the database thread
  (\<open>fields\<close>: the texts of the account, the password and the nickname), nothing else.
\<close>

definition queued :: "bool \<Rightarrow> nat multiset \<Rightarrow> DBJob \<Rightarrow> CChatServer \<Rightarrow> CChatServer \<Rightarrow> bool" where
  "queued leak H job s s' \<longleftrightarrow> (\<exists>s1. chat_state leak H s1 \<and> pkt_step s s1 \<and> s' = s1\<lparr>dbWorker := PushJob job (dbWorker s1)\<rparr>) \<and>
     chat_state leak H s' \<and> job_ok job"

lemma queued_intro:
  assumes "chat_state leak H s1" and "pkt_step s s1" and "job_ok job"
  shows "queued leak H job s (s1\<lparr>dbWorker := PushJob job (dbWorker s1)\<rparr>)"
  using assms chat_state_worker [OF assms(1), of "PushJob job (dbWorker s1)"] chat_state_parts(3) [OF assms(1)]
  by (auto simp: queued_def worker_ok_def PushJob_def)

definition login_of :: "SessionID \<Rightarrow> bytes \<Rightarrow> DBJob \<Rightarrow> bool" where
  "login_of sid u job \<longleftrightarrow> request job = (DB_JOB_LOGIN, sid) \<and>
     (192 \<le> length u \<longrightarrow> cstr (job_account job) = Some (wfield 32 u) \<and>
        cstr (job_password job) = Some (wfield 64 (drop 64 u)))"

definition signup_of :: "SessionID \<Rightarrow> bytes \<Rightarrow> DBJob \<Rightarrow> bool" where
  "signup_of sid u job \<longleftrightarrow> request job = (DB_JOB_SIGNUP, sid) \<and>
     (256 \<le> length u \<longrightarrow> cstr (job_account job) = Some (wfield 32 u) \<and>
        cstr (job_password job) = Some (wfield 64 (drop 64 u)) \<and> cstr (job_nickname job) = Some (wfield 32 (drop 192 u)))"

lemma fresh_array: "length (bwords (map f [0..<2 * n])) = n"
  by simp

lemma Handle_Login_ok:
  assumes st: "chat_state leak H s" and p: "pkt \<in># H" "held pkt s"
  shows "wp (Handle_Login e sid pkt s) (\<lambda>s'. if map_of (players s) sid = None then s' = s
     else \<exists>job. login_of sid (unread_of (store s) pkt) job \<and> queued leak H job s s')"
proof (cases "map_of (players s) sid = None")
  case True
  then show ?thesis by (simp add: Handle_Login_def)
next
  case False
  let ?u = "unread_of (store s) pkt"
  let ?m1 = "bwords (map (junk e (junk_objs s)) [0..<66])" and ?m2 = "bwords (map (junk e (junk_objs s + 1)) [0..<130])"
    and ?m3 = "bwords (map (junk e (junk_objs s + 1 + 1)) [0..<66])"
  let ?s = "s\<lparr>junk_objs := junk_objs s + 1 + 1 + 1\<rparr>"
  have s1: "chat_state leak H ?s" "held pkt ?s" "pkt_step s ?s" using st p by (simp_all add: held_def)
  have len: "32 \<le> length (?m1[0 := 0])" "64 \<le> length (?m2[0 := 0])" by simp_all
  obtain a s2 acc where a: "read_pkt pkt (wbytes (?m1[0 := 0])) (2 * int 32) ?s = Some (a, s2)" "chat_state leak H s2" "pkt_step ?s s2"
      "upd_opt (bwords a) (int 32 - 1) 0 = Some acc" "0 \<in> set acc"
      "2 * 32 \<le> length ?u \<Longrightarrow> cstr acc = Some (wfield 32 ?u) \<and> unread_of (store s2) pkt = drop (2 * 32) ?u"
    using field_ok [OF s1(1) p(1) s1(2) _ len(1)] by simp metis
  have h2: "held pkt s2" using held_step [OF a(3)] s1(2) by simp
  obtain b s3 pw where b: "read_pkt pkt (wbytes (?m2[0 := 0])) (2 * int 64) s2 = Some (b, s3)" "chat_state leak H s3" "pkt_step s2 s3"
      "upd_opt (bwords b) (int 64 - 1) 0 = Some pw" "0 \<in> set pw"
      "2 * 64 \<le> length (unread_of (store s2) pkt) \<Longrightarrow> cstr pw = Some (wfield 64 (unread_of (store s2) pkt))"
    using field_ok [OF a(2) p(1) h2 _ len(2)] by simp metis
  let ?job = "(DBJob_new ?m1 ?m2 ?m3)\<lparr>job_type := DB_JOB_LOGIN, job_sid := sid, job_account := acc, job_password := pw\<rparr>"
  have "job_ok ?job" using a(5) b(5) by (simp add: job_ok_def DBJob_new_def set_update_memI)
  then have "queued leak H ?job s (s3\<lparr>dbWorker := PushJob ?job (dbWorker s3)\<rparr>)"
    using queued_intro [OF b(2) pkt_step_trans [OF s1(3) pkt_step_trans [OF a(3) b(3)]]] by blast
  moreover have "login_of sid ?u ?job" using a(6) b(6) by (simp add: login_of_def request_def)
  moreover have "Handle_Login e sid pkt s = Some (s3\<lparr>dbWorker := PushJob ?job (dbWorker s3)\<rparr>)"
    using False a(1,4) b(1,4) by (simp add: Handle_Login_def fresh_mem_eq DBJob_new_def Let_def)
  ultimately show ?thesis using False by auto
qed

lemma Handle_SignUp_ok:
  assumes st: "chat_state leak H s" and p: "pkt \<in># H" "held pkt s"
  shows "wp (Handle_SignUp e sid pkt s) (\<lambda>s'. if map_of (players s) sid = None then s' = s
     else \<exists>job. signup_of sid (unread_of (store s) pkt) job \<and> queued leak H job s s')"
proof (cases "map_of (players s) sid = None")
  case True
  then show ?thesis by (simp add: Handle_SignUp_def)
next
  case False
  let ?u = "unread_of (store s) pkt"
  let ?m1 = "bwords (map (junk e (junk_objs s)) [0..<66])" and ?m2 = "bwords (map (junk e (junk_objs s + 1)) [0..<130])"
    and ?m3 = "bwords (map (junk e (junk_objs s + 1 + 1)) [0..<66])"
  let ?s = "s\<lparr>junk_objs := junk_objs s + 1 + 1 + 1\<rparr>"
  have s1: "chat_state leak H ?s" "held pkt ?s" "pkt_step s ?s" using st p by (simp_all add: held_def)
  have len: "32 \<le> length (?m1[0 := 0])" "64 \<le> length (?m2[0 := 0])" "32 \<le> length (?m3[0 := 0])" by simp_all
  obtain a s2 acc where a: "read_pkt pkt (wbytes (?m1[0 := 0])) (2 * int 32) ?s = Some (a, s2)" "chat_state leak H s2" "pkt_step ?s s2"
      "upd_opt (bwords a) (int 32 - 1) 0 = Some acc" "0 \<in> set acc"
      "2 * 32 \<le> length ?u \<Longrightarrow> cstr acc = Some (wfield 32 ?u) \<and> unread_of (store s2) pkt = drop (2 * 32) ?u"
    using field_ok [OF s1(1) p(1) s1(2) _ len(1)] by simp metis
  have h2: "held pkt s2" using held_step [OF a(3)] s1(2) by simp
  obtain b s3 pw where b: "read_pkt pkt (wbytes (?m2[0 := 0])) (2 * int 64) s2 = Some (b, s3)" "chat_state leak H s3" "pkt_step s2 s3"
      "upd_opt (bwords b) (int 64 - 1) 0 = Some pw" "0 \<in> set pw"
      "2 * 64 \<le> length (unread_of (store s2) pkt) \<Longrightarrow> cstr pw = Some (wfield 64 (unread_of (store s2) pkt)) \<and>
        unread_of (store s3) pkt = drop (2 * 64) (unread_of (store s2) pkt)"
    using field_ok [OF a(2) p(1) h2 _ len(2)] by simp metis
  have h3: "held pkt s3" using held_step [OF b(3)] h2 by simp
  obtain c s4 nk where c: "read_pkt pkt (wbytes (?m3[0 := 0])) (2 * int 32) s3 = Some (c, s4)" "chat_state leak H s4" "pkt_step s3 s4"
      "upd_opt (bwords c) (int 32 - 1) 0 = Some nk" "0 \<in> set nk"
      "2 * 32 \<le> length (unread_of (store s3) pkt) \<Longrightarrow> cstr nk = Some (wfield 32 (unread_of (store s3) pkt))"
    using field_ok [OF b(2) p(1) h3 _ len(3)] by simp metis
  let ?job = "(DBJob_new ?m1 ?m2 ?m3)\<lparr>job_type := DB_JOB_SIGNUP, job_sid := sid, job_account := acc,
    job_password := pw, job_nickname := nk\<rparr>"
  have "job_ok ?job" using a(5) b(5) c(5) by (simp add: job_ok_def)
  then have "queued leak H ?job s (s4\<lparr>dbWorker := PushJob ?job (dbWorker s4)\<rparr>)"
    using queued_intro [OF c(2) pkt_step_trans [OF s1(3) pkt_step_trans [OF a(3) pkt_step_trans [OF b(3) c(3)]]]] by blast
  moreover have "signup_of sid ?u ?job" using a(6) b(6) c(6) by (simp add: signup_of_def request_def)
  moreover have "Handle_SignUp e sid pkt s = Some (s4\<lparr>dbWorker := PushJob ?job (dbWorker s4)\<rparr>)"
    using False a(1,4) b(1,4) c(1,4) by (simp add: Handle_SignUp_def fresh_mem_eq DBJob_new_def Let_def)
  ultimately show ?thesis using False by auto
qed

end
