(* ===== verification/ChatRooms.thy ===== *)
theory ChatRooms
  imports ChatHandlers
begin

text \<open>
  Entering and leaving rooms, and the answers of the database: the handlers that change players or
  rooms and tell clients about it.
\<close>

section \<open>What every handler leaves alone\<close>

definition quiet :: "CChatServer \<Rightarrow> CChatServer \<Rightarrow> bool" where
  "quiet s s' \<longleftrightarrow> used_sids s \<subseteq> used_sids s' \<and> mset (msg_pkts (contentQ s')) = mset (msg_pkts (contentQ s)) \<and>
     (\<exists>ls. events s' = events s @ map Left ls)"

lemma quiet_refl [simp]: "quiet s s"
  by (auto simp: quiet_def intro: exI [of _ "[]"])

lemma quiet_trans:
  assumes "quiet s t" and "quiet t u"
  shows "quiet s u"
proof -
  obtain ls ls' where "events t = events s @ map Left ls" "events u = events t @ map Left ls'"
    using assms by (auto simp: quiet_def)
  then have "events u = events s @ map Left (ls @ ls')" by simp
  then show ?thesis using assms unfolding quiet_def by (metis subset_trans)
qed

lemma quiet_send: "send_step s s' \<Longrightarrow> quiet s s'"
  by (simp add: send_step_def quiet_def)

lemma quiet_silent: "silent leak H s s' \<Longrightarrow> quiet s s'"
  using quiet_send pkt_step_send by (auto simp: silent_def)

lemma quiet_told: "told leak H e sids bs s s' \<Longrightarrow> quiet s s'"
  using quiet_send by (auto simp: told_def)

lemma quiet_same:
  "sessions s' = sessions s \<Longrightarrow> indexPool s' = indexPool s \<Longrightarrow> contentQ s' = contentQ s \<Longrightarrow> events s' = events s \<Longrightarrow> quiet s s'"
  by (auto simp: quiet_def used_sids_def used_slot_def intro: exI [of _ "[]"])

lemma quiet_queued: "queued leak H job s s' \<Longrightarrow> quiet s s'"
  unfolding queued_def by (elim conjE exE, hypsubst, rule quiet_trans [OF quiet_send [OF pkt_step_send]], assumption, rule quiet_same) simp_all

lemma quiet_held: "quiet s s' \<Longrightarrow> held p s' = held p s"
  unfolding quiet_def held_def by (metis set_mset_mset)

section \<open>Looking at players and rooms while a packet is being built\<close>

definition ready :: "bool \<Rightarrow> nat multiset \<Rightarrow> CChatServer \<Rightarrow> nat \<Rightarrow> bytes \<Rightarrow> CChatServer \<Rightarrow> bool" where
  "ready leak H s0 p w s \<longleftrightarrow> sealed leak H p w s \<and> pkt_step s0 s"

lemma pkt_step_look: "pkt_step s s' \<Longrightarrow> player s' = player s \<and> room s' = room s"
  by (simp add: pkt_step_def fun_eq_iff player_def room_def)

lemma send_step_look: "send_step s s' \<Longrightarrow> player s' = player s \<and> room s' = room s"
  by (simp add: send_step_def fun_eq_iff player_def room_def)

lemma prep_look: "prep leak H s0 p bs s \<Longrightarrow> player s = player s0 \<and> room s = room s0"
  using pkt_step_look by (simp add: prep_def)

lemma ready_look: "ready leak H s0 p w s \<Longrightarrow> player s = player s0 \<and> room s = room s0"
  using pkt_step_look by (simp add: ready_def)

lemma seal_prep:
  assumes "prep leak H s0 p bs s" and "chatenv_ok e"
  shows "wp (set_header e p s) (ready leak H s0 p (sealing e s0 bs))"
proof -
  have b: "building leak H p bs s" and s: "pkt_step s0 s" "rand_calls s = rand_calls s0"
    using assms(1) by (simp_all add: prep_def)
  show ?thesis
    by (rule wp_mono [OF set_header_ok [OF b assms(2)]])
      (use s pkt_step_trans in \<open>auto simp: ready_def sealing_def\<close>)
qed

lemma send_ready:
  assumes r: "ready leak H s0 p (sealing e s0 bs) s" and sids: "set sids \<subseteq> used_sids s0" "distinct sids"
  shows "wp (do { s \<leftarrow> send_each e sids p s; release_pkt p s }) (told leak H e sids bs s0)"
proof -
  have b: "sealed leak H p (sealing e s0 bs) s" and ps: "pkt_step s0 s" using r by (simp_all add: ready_def)
  have u: "set sids \<subseteq> used_sids s" using sids(1) pkt_step_used [OF ps] by simp
  show ?thesis
    by (rule wp_mono [OF send_sealed_ok [OF b u sids(2)]])
      (use pkt_step_socks [OF ps] pkt_step_slots_of [OF ps, of sids] delivers_step [OF ps]
        send_step_trans [OF pkt_step_send [OF ps]] in \<open>auto simp: told_def\<close>)
qed

section \<open>Leaving a room\<close>

text \<open>The player of a session, with its room, when it is in one.\<close>

definition in_room :: "SessionID \<Rightarrow> CChatServer \<Rightarrow> (nat \<times> CPlayer \<times> nat) option" where
  "in_room sid s = do {
     ptr \<leftarrow> map_of (players s) sid;
     pl \<leftarrow> player s ptr;
     if GetState pl \<noteq> PS_IN_ROOM then None
     else do { k \<leftarrow> GetRoom (GetRoomNo pl); Some (ptr, pl, k) } }"

definition left_room :: "SessionID \<Rightarrow> nat \<Rightarrow> CPlayer \<Rightarrow> nat \<Rightarrow> CChatServer \<Rightarrow> CChatServer" where
  "left_room sid ptr pl k s = set_player ptr (snd (player_LeaveRoom pl))
     (set_room k (snd (room_LeaveRoom (roomManager s ! k) sid)) s)"

lemma in_room_Some:
  assumes "chat_state leak H s" and "in_room sid s = Some (ptr, pl, k)"
  shows "map_of (players s) sid = Some ptr" and "player s ptr = Some pl" and "objects s ! ptr = Some pl"
    and "ptr < length (objects s)" and "player_ok (roomManager s) sid pl" and "GetState pl = PS_IN_ROOM"
    and "GetRoom (GetRoomNo pl) = Some k"
proof -
  show p: "map_of (players s) sid = Some ptr" "player s ptr = Some pl" "GetState pl = PS_IN_ROOM" "GetRoom (GetRoomNo pl) = Some k"
    using assms(2) by (auto simp: in_room_def bind_eq_Some_conv split: if_splits)
  show "objects s ! ptr = Some pl" "ptr < length (objects s)" "player_ok (roomManager s) sid pl"
  proof -
    obtain pl' where pl': "player s ptr = Some pl'" "objects s ! ptr = Some pl'" "player_ok (roomManager s) sid pl'"
        "ptr < length (objects s)"
      using player_found [OF chat_state_parts(1) [OF assms(1)] p(1)] by metis
    then have "pl' = pl" using p(2) by simp
    with pl' show "objects s ! ptr = Some pl" "ptr < length (objects s)" "player_ok (roomManager s) sid pl" by simp_all
  qed
qed

lemma left_room_ok:
  assumes st: "chat_state leak H s" and i: "in_room sid s = Some (ptr, pl, k)"
  defines "s' \<equiv> left_room sid ptr pl k s"
  shows "chat_state leak H s'" and "quiet s s'" and "player s' ptr = Some (snd (player_LeaveRoom pl))"
    and "users (roomManager s' ! k) = filter (\<lambda>x. fst x \<noteq> sid) (users (roomManager s ! k))"
    and "rooms_agree sid (roomManager s) (roomManager s')" and "used_sids s' = used_sids s"
proof -
  note f = in_room_Some [OF st i] and ok = chat_state_parts [OF st]
  note rl = room_left [OF ok(2) f(7) refl, of sid]
  have eq: "roomManager s' = (roomManager s)[k := snd (room_LeaveRoom (roomManager s ! k) sid)]"
      "objects s' = (objects s)[ptr := Some (snd (player_LeaveRoom pl))]" "players s' = players s"
    by (simp_all add: s'_def left_room_def set_player_def set_room_def)
  have pl': "player_ok (roomManager s') sid (snd (player_LeaveRoom pl))"
    using f(5,6) by (auto simp: player_ok_def player_LeaveRoom_def GetState_def)
  have "players_ok (used_sids s) s'"
    by (rule players_ok_update [OF ok(1) f(1) eq(3,2) _ pl']) (use rl(2) eq(1) in simp)
  then show "chat_state leak H s'"
    by (rule chat_state_change [OF st, rotated 6]) (use ok rl in \<open>simp_all add: eq s'_def left_room_def set_player_def set_room_def\<close>)
  show "quiet s s'" by (rule quiet_same) (simp_all add: s'_def left_room_def set_player_def set_room_def)
  show "player s' ptr = Some (snd (player_LeaveRoom pl))" using f(4) by (simp add: player_def eq)
  show "users (roomManager s' ! k) = filter (\<lambda>x. fst x \<noteq> sid) (users (roomManager s ! k))"
      "rooms_agree sid (roomManager s) (roomManager s')"
    using rl(2,4) by (simp_all add: eq)
  show "used_sids s' = used_sids s" by (simp add: s'_def left_room_def set_player_def set_room_def)
qed

lemma HandleRoomLeave_ok:
  assumes st: "chat_state leak H s" and e: "chatenv_ok e"
  shows "wp (HandleRoomLeave e sid pkt s) (\<lambda>s'. case in_room sid s of None \<Rightarrow> s' = s
     | Some (ptr, pl, k) \<Rightarrow> told leak H e (map fst (filter (\<lambda>x. fst x \<noteq> sid) (users (roomManager s ! k))))
         (WORD_bytes (type_val SC_USER_LEAVE) @ GetNickname pl) (left_room sid ptr pl k s) s')"
proof (cases "in_room sid s")
  case None
  have "HandleRoomLeave e sid pkt s = Some s"
  proof (cases "map_of (players s) sid")
    case (Some ptr)
    obtain pl where "player s ptr = Some pl" "player_ok (roomManager s) sid pl"
      using player_found [OF chat_state_parts(1) [OF st] Some] by metis
    with Some None show ?thesis
      by (auto simp: HandleRoomLeave_def in_room_def player_ok_def GetState_def GetRoomNo_def)
  qed (simp add: HandleRoomLeave_def del: umap_find_None)
  with None show ?thesis by simp
next
  case (Some x)
  then obtain ptr pl k where i: "in_room sid s = Some (ptr, pl, k)" by (cases x) auto
  note f = in_room_Some [OF st i] and ok = chat_state_parts [OF st] and l = left_room_ok [OF st i]
  let ?s = "left_room sid ptr pl k s"
  obtain res s1 where al: "alloc_pkt ?s = (res, s1)" by fastforce
  let ?sids = "map fst (users (roomManager ?s ! k))"
  let ?pl = "snd (player_LeaveRoom pl)"
  note ok' = chat_state_parts [OF l(1)]
  note rf = room_of [OF ok'(2) f(7)]
  have u: "set ?sids \<subseteq> used_sids ?s" "distinct ?sids" using rf(4,5) by auto
  have nick: "length (GetNickname pl) = 32" "GetNickname ?pl = GetNickname pl"
    using f(5,6) by (simp_all add: player_ok_def GetNickname_def player_LeaveRoom_def GetState_def)
  have look: "player ?s ptr = Some ?pl" "room ?s (Some k) = Some (k, roomManager ?s ! k)"
    using l(3) room_found [OF ok'(2) f(7)] by simp_all
  have room': "room s (GetRoom (GetRoomNo pl)) = Some (k, roomManager s ! k)" using room_found [OF ok(2) f(7)] f(7) by simp
  have run: "HandleRoomLeave e sid pkt s = do {
      s \<leftarrow> put res (WORD_bytes (type_val SC_USER_LEAVE)) s1;
      pl \<leftarrow> player s ptr;
      s \<leftarrow> write_pkt res (GetNickname pl) MAX_NICKNAME_LEN s;
      s \<leftarrow> set_header e res s;
      (k, r) \<leftarrow> room s (Some k);
      s \<leftarrow> send_each e (map fst (GetUsers r)) res s;
      release_pkt res s }"
    using f al room' by (simp add: HandleRoomLeave_def Let_def left_room_def)
  have "wp (HandleRoomLeave e sid pkt s) (told leak H e ?sids (([] @ WORD_bytes (type_val SC_USER_LEAVE)) @ take 32 (GetNickname ?pl)) ?s)"
    unfolding run
    by (rule wp_seq [OF put_prep [OF alloc_prep [OF l(1) pkt_step_refl refl al]]], simp,
        frule prep_look, simp only: look Option.bind.bind_lunit,
        rule wp_seq, erule write_prep_int [where k = 32], simp, simp, simp add: nick,
        rule wp_seq, erule seal_prep [OF _ e],
        frule ready_look, simp only: look Option.bind.bind_lunit prod.case GetUsers_def, erule send_ready [OF _ u])
  then show ?thesis using i nick l(4) by simp
qed

section \<open>Entering a room\<close>

definition entered_room :: "SessionID \<Rightarrow> nat \<Rightarrow> CPlayer \<Rightarrow> WORD \<Rightarrow> nat \<Rightarrow> CChatServer \<Rightarrow> CChatServer" where
  "entered_room sid ptr pl no k s = set_player ptr (snd (player_EnterRoom pl no))
     (set_room k (snd (room_EnterRoom (roomManager s ! k) sid ptr)) s)"

lemma entered_room_ok:
  assumes st: "chat_state leak H s" and f: "map_of (players s) sid = Some ptr" "player s ptr = Some pl"
    and k: "GetRoom no = Some k" and en: "fst (room_EnterRoom (roomManager s ! k) sid ptr)"
  defines "s' \<equiv> entered_room sid ptr pl no k s"
  shows "chat_state leak H s'" and "quiet s s'" and "player s' ptr = Some (snd (player_EnterRoom pl no))"
    and "users (roomManager s' ! k) = users (roomManager s ! k) @ [(sid, ptr)]" and "used_sids s' = used_sids s"
    and "sid \<in> used_sids s" and "length (GetNickname (snd (player_EnterRoom pl no))) = 32"
proof -
  note ok = chat_state_parts [OF st] and rf = room_of [OF chat_state_parts(2) [OF st] k]
  obtain pl' where pl': "player s ptr = Some pl'" "player_ok (roomManager s) sid pl'" "sid \<in> used_sids s" "ptr < length (objects s)"
    using player_found [OF ok(1) f(1)] by metis
  then have pl: "player_ok (roomManager s) sid pl" using f(2) by simp
  show "sid \<in> used_sids s" by (rule pl'(3))
  obtain r where r: "room_EnterRoom (roomManager s ! k) sid ptr = (True, r)" using en by (metis prod.collapse)
  note re = room_EnterRoom_ok [OF rf(3) r]
  have us: "users r = users (roomManager s ! k) @ [(sid, ptr)]" using re(4) by simp
  have eq: "roomManager s' = (roomManager s)[k := r]" "players s' = players s"
      "objects s' = (objects s)[ptr := Some (snd (player_EnterRoom pl no))]"
    using r by (simp_all add: s'_def entered_room_def set_player_def set_room_def)
  have mem: "x \<in> fst ` set (users ((roomManager s)[k := r] ! j)) \<longleftrightarrow> x \<in> fst ` set (users (roomManager s ! j)) \<or> j = k \<and> x = sid" for x j
    using rf(2) us by (cases "j = k") auto
  have ag: "rooms_agree sid (roomManager s) (roomManager s')" using mem by (simp add: rooms_agree_def eq)
  have "player_ok (roomManager s') sid (snd (player_EnterRoom pl no))"
    using pl k mem by (auto simp: player_ok_def player_EnterRoom_def eq)
  then have "players_ok (used_sids s) s'"
    by (rule players_ok_update [OF ok(1) f(1) eq(2,3) ag])
  moreover have "rooms_ok (used_sids s) (roomManager s')"
    unfolding eq by (rule rooms_ok_update [OF ok(2) rf(1) re(1,2)]) (use rf(4) pl'(3) us in auto)
  ultimately show "chat_state leak H s'"
    by (intro chat_state_change [OF st]) (use ok in \<open>simp_all add: s'_def entered_room_def set_player_def set_room_def\<close>)
  show "quiet s s'" by (rule quiet_same) (simp_all add: s'_def entered_room_def set_player_def set_room_def)
  show "player s' ptr = Some (snd (player_EnterRoom pl no))" using pl'(4) by (simp add: player_def eq)
  show "users (roomManager s' ! k) = users (roomManager s ! k) @ [(sid, ptr)]" using us rf(2) by (simp add: eq)
  show "used_sids s' = used_sids s" by (simp add: s'_def entered_room_def set_player_def set_room_def)
  show "length (GetNickname (snd (player_EnterRoom pl no))) = 32"
    using pl by (auto simp: player_ok_def player_EnterRoom_def GetNickname_def)
qed

text \<open>
  What a request to enter room \<open>no\<close> does. A session without a player, a room number that does not exist,
  a full room and a room that lists the session already change nothing. Otherwise the room lists the
  session; unless its player is in a room already, the player is told and then all other members are.
\<close>

definition enter_effect ::
    "bool \<Rightarrow> nat multiset \<Rightarrow> chatenv \<Rightarrow> SessionID \<Rightarrow> WORD \<Rightarrow> CChatServer \<Rightarrow> CChatServer \<Rightarrow> bool" where
  "enter_effect leak H e sid no s s' \<longleftrightarrow> (case map_of (players s) sid of
       None \<Rightarrow> s' = s
     | Some ptr \<Rightarrow> (case GetRoom no of
         None \<Rightarrow> s' = s
       | Some k \<Rightarrow> if \<not> fst (room_EnterRoom (roomManager s ! k) sid ptr) then s' = s
         else \<exists>pl. player s ptr = Some pl \<and> (let s2 = entered_room sid ptr pl no k s in
           if GetState pl = PS_IN_ROOM then s' = s2
           else \<exists>s3. told leak H e [sid]
                 (WORD_bytes (type_val SC_ROOM_ENTER_RES) @ BYTE_bytes (result_val RESULT_SUCCESS) @ WORD_bytes no) s2 s3 \<and>
               told leak H e (filter (\<lambda>x. x \<noteq> sid) (map fst (users (roomManager s ! k))))
                 (WORD_bytes (type_val SC_USER_JOIN) @ GetNickname pl) s3 s')))"

lemma enter_notices:
  assumes st: "chat_state leak H s" and e: "chatenv_ok e" and sid: "sid \<in> used_sids s" and k: "GetRoom no = Some k"
    and pl: "player s ptr = Some pl" "length (GetNickname pl) = 32"
  shows "wp (do {
      let (res, s) = alloc_pkt s;
      s \<leftarrow> put res (WORD_bytes (type_val SC_ROOM_ENTER_RES)) s;
      s \<leftarrow> put res (BYTE_bytes (result_val RESULT_SUCCESS)) s;
      s \<leftarrow> put res (WORD_bytes no) s;
      s \<leftarrow> set_header e res s;
      s \<leftarrow> chat_send e sid res s;
      s \<leftarrow> release_pkt res s;
      let (notice, s) = alloc_pkt s;
      s \<leftarrow> put notice (WORD_bytes (type_val SC_USER_JOIN)) s;
      pl \<leftarrow> player s ptr;
      s \<leftarrow> write_pkt notice (GetNickname pl) MAX_NICKNAME_LEN s;
      s \<leftarrow> set_header e notice s;
      (k, r) \<leftarrow> room s (Some k);
      s \<leftarrow> send_each e (filter (\<lambda>x. x \<noteq> sid) (map fst (GetUsers r))) notice s;
      release_pkt notice s })
    (\<lambda>s'. \<exists>s3. told leak H e [sid]
         (WORD_bytes (type_val SC_ROOM_ENTER_RES) @ BYTE_bytes (result_val RESULT_SUCCESS) @ WORD_bytes no) s s3 \<and>
       told leak H e (filter (\<lambda>x. x \<noteq> sid) (map fst (users (roomManager s ! k))))
         (WORD_bytes (type_val SC_USER_JOIN) @ GetNickname pl) s3 s')"
proof -
  obtain res s1 where al: "alloc_pkt s = (res, s1)" by fastforce
  have one: "set [sid] \<subseteq> used_sids s" "distinct [sid]" using sid by simp_all
  have "wp (do { s \<leftarrow> put res (WORD_bytes (type_val SC_ROOM_ENTER_RES)) s1;
      s \<leftarrow> put res (BYTE_bytes (result_val RESULT_SUCCESS)) s;
      s \<leftarrow> put res (WORD_bytes no) s;
      s \<leftarrow> set_header e res s;
      s \<leftarrow> send_each e [sid] res s;
      release_pkt res s })
    (told leak H e [sid] ((([] @ WORD_bytes (type_val SC_ROOM_ENTER_RES)) @ BYTE_bytes (result_val RESULT_SUCCESS)) @ WORD_bytes no) s)"
    by (rule wp_seq [OF put_prep [OF alloc_prep [OF st pkt_step_refl refl al]]], simp,
        rule wp_seq, erule put_prep, simp, rule wp_seq, erule put_prep, simp, erule finish_prep [OF _ e one])
  then obtain t1 t2 t3 t4 t5 s3 where t: "put res (WORD_bytes (type_val SC_ROOM_ENTER_RES)) s1 = Some t1"
      "put res (BYTE_bytes (result_val RESULT_SUCCESS)) t1 = Some t2" "put res (WORD_bytes no) t2 = Some t3"
      "set_header e res t3 = Some t4" "send_each e [sid] res t4 = Some t5" "release_pkt res t5 = Some s3"
    and told: "told leak H e [sid] (WORD_bytes (type_val SC_ROOM_ENTER_RES) @ BYTE_bytes (result_val RESULT_SUCCESS) @ WORD_bytes no) s s3"
    by (elim wpE) (simp add: bind_eq_Some_conv, blast)
  have st3: "chat_state leak H s3" and ss: "send_step s s3" using told by (simp_all add: told_def)
  have look: "player s3 ptr = Some pl" "room s3 (Some k) = Some (k, roomManager s ! k)"
    using pl(1) room_found [OF chat_state_parts(2) [OF st] k] send_step_look [OF ss] by simp_all
  note rf = room_of [OF chat_state_parts(2) [OF st] k]
  let ?sids = "filter (\<lambda>x. x \<noteq> sid) (map fst (users (roomManager s ! k)))"
  have u: "set ?sids \<subseteq> used_sids s3" "distinct ?sids" using rf(4,5) ss by (auto simp: send_step_def)
  obtain notice s4 where al4: "alloc_pkt s3 = (notice, s4)" by fastforce
  have "wp (do { s \<leftarrow> put notice (WORD_bytes (type_val SC_USER_JOIN)) s4;
      pl \<leftarrow> player s ptr;
      s \<leftarrow> write_pkt notice (GetNickname pl) MAX_NICKNAME_LEN s;
      s \<leftarrow> set_header e notice s;
      (k, r) \<leftarrow> room s (Some k);
      s \<leftarrow> send_each e (filter (\<lambda>x. x \<noteq> sid) (map fst (GetUsers r))) notice s;
      release_pkt notice s })
    (told leak H e ?sids (([] @ WORD_bytes (type_val SC_USER_JOIN)) @ take 32 (GetNickname pl)) s3)"
    by (rule wp_seq [OF put_prep [OF alloc_prep [OF st3 pkt_step_refl refl al4]]], simp,
        frule prep_look, simp only: look Option.bind.bind_lunit,
        rule wp_seq, erule write_prep_int [where k = 32], simp, simp, simp add: pl(2),
        rule wp_seq, erule seal_prep [OF _ e],
        frule ready_look, simp only: look Option.bind.bind_lunit prod.case GetUsers_def, erule send_ready [OF _ u])
  then show ?thesis using al al4 t told pl(2)
    by (simp add: chat_send_each Let_def del: wp_bind) (erule wp_mono, blast)
qed

lemma HandleRoomEnter_ok:
  assumes st: "chat_state leak H s" and p: "pkt \<in># H" "held pkt s" and e: "chatenv_ok e"
  shows "wp (HandleRoomEnter e sid pkt s) (\<lambda>s'. \<exists>no s1. silent leak H s s1 \<and> enter_effect leak H e sid no s1 s' \<and>
     (2 \<le> length (unread_of (store s) pkt) \<longrightarrow> no = le_to_word (take 2 (unread_of (store s) pkt))))"
proof -
  let ?u = "unread_of (store s) pkt"
  obtain no s1 where g: "get_WORD e pkt s = Some (no, s1)" and s1: "chat_state leak H s1" "pkt_step s s1" "rand_calls s1 = rand_calls s"
    and u: "2 \<le> length ?u \<longrightarrow> no = le_to_word (take 2 ?u)"
    using get_WORD_ok [OF st p, of e] by (auto simp: wp_iff)
  have "wp (HandleRoomEnter e sid pkt s) (enter_effect leak H e sid no s1)"
  proof (cases "map_of (players s1) sid")
    case None
    then show ?thesis by (simp add: HandleRoomEnter_def g enter_effect_def del: umap_find_None)
  next
    case (Some ptr)
    show ?thesis
    proof (cases "GetRoom no")
      case None
      with Some show ?thesis by (simp add: HandleRoomEnter_def g enter_effect_def)
    next
      case k: (Some k)
      note ok = chat_state_parts [OF s1(1)]
      note room = room_found [OF ok(2) k] and rf = room_of [OF ok(2) k]
      obtain pl where pl: "player s1 ptr = Some pl" using player_found [OF ok(1) Some] by metis
      obtain en r where r: "room_EnterRoom (roomManager s1 ! k) sid ptr = (en, r)" by fastforce
      show ?thesis
      proof (cases en)
        case False
        then have "r = roomManager s1 ! k" using room_EnterRoom_ok(5) [OF rf(3) r] by simp
        then have "set_room k r s1 = s1" by (simp add: set_room_def)
        with False Some k room r show ?thesis by (simp add: HandleRoomEnter_def g enter_effect_def)
      next
        case True
        let ?s2 = "entered_room sid ptr pl no k s1" and ?pl = "snd (player_EnterRoom pl no)"
        have en: "fst (room_EnterRoom (roomManager s1 ! k) sid ptr)" using r True by simp
        note er = entered_room_ok [OF s1(1) Some pl k en]
        have pl': "player (set_room k r s1) ptr = Some pl" using pl by (simp add: player_def set_room_def split: if_splits)
        have s2: "set_player ptr ?pl (set_room k r s1) = ?s2" using r by (simp add: entered_room_def)
        show ?thesis
        proof (cases "GetState pl = PS_IN_ROOM")
          case inroom: True
          then have "player_EnterRoom pl no = (False, pl)" by (simp add: player_EnterRoom_def GetState_def)
          with True inroom Some k room r pl pl' s2 show ?thesis
            by (simp add: HandleRoomEnter_def g enter_effect_def)
        next
          case notin: False
          then obtain pl2 where pe: "player_EnterRoom pl no = (True, pl2)" "GetNickname pl2 = GetNickname pl"
            by (simp add: player_EnterRoom_def GetState_def GetNickname_def)
          have sid2: "sid \<in> used_sids ?s2" using er(5,6) by simp
          note notices = enter_notices [OF er(1) e sid2 k er(3,7)]
          have sids: "filter (\<lambda>x. x \<noteq> sid) (map fst (users (roomManager ?s2 ! k))) =
              filter (\<lambda>x. x \<noteq> sid) (map fst (users (roomManager s1 ! k)))"
            by (simp add: er(4))
          have eff: "enter_effect leak H e sid no s1 = (\<lambda>s'. \<exists>s3. told leak H e [sid]
                 (WORD_bytes (type_val SC_ROOM_ENTER_RES) @ BYTE_bytes (result_val RESULT_SUCCESS) @ WORD_bytes no) ?s2 s3 \<and>
               told leak H e (filter (\<lambda>x. x \<noteq> sid) (map fst (users (roomManager s1 ! k))))
                 (WORD_bytes (type_val SC_USER_JOIN) @ GetNickname pl) s3 s')"
            using True Some k r pl notin by (simp add: enter_effect_def Let_def fun_eq_iff)
          show ?thesis using notices True Some k room r pl' s2
            by (simp add: HandleRoomEnter_def g sids pe eff)
        qed
      qed
    qed
  qed
  then show ?thesis using s1 u by - (erule wp_mono, auto simp: silent_def)
qed

section \<open>Answers of the database\<close>

text \<open>The player after a successful login: number and name set, state back to logged in.\<close>

definition logged_in :: "chatenv \<Rightarrow> DBResult \<Rightarrow> nat \<Rightarrow> CPlayer \<Rightarrow> CChatServer \<Rightarrow> CChatServer \<Rightarrow> bool" where
  "logged_in e r ptr pl s s' \<longleftrightarrow> (\<exists>nick. s' = set_player ptr (pl\<lparr>userNo := res_userNo r, nickname := nick, pl_state := PS_LOGGED_IN\<rparr>) s \<and>
     length nick = 32 \<and> cstr nick = cstr ((wc2mb e (res_nickname r))[31 := 0]))"

lemma login_player:
  assumes e: "chatenv_ok e" and pl: "player_ok rs sid pl"
  obtains d nick where "upd_opt (wc2mb e w) (MAX_NICKNAME_LEN - 1) 0 = Some nick"
    "SetNickname (SetUserNo pl no) nick = Some (pl\<lparr>userNo := no, nickname := d, pl_state := PS_LOGGED_IN\<rparr>)"
    "length d = 32" "cstr d = cstr ((wc2mb e w)[31 := 0])"
proof -
  have len: "length (wc2mb e w) = 32" using e by (simp add: chatenv_ok_def)
  let ?n = "(wc2mb e w)[31 := 0]"
  have up: "upd_opt (wc2mb e w) (MAX_NICKNAME_LEN - 1) 0 = Some ?n" using len by (simp add: upd_opt_def)
  have "0 \<in> set ?n" using len by (intro set_update_memI) simp
  then obtain t where t: "cstr ?n = Some t" using cstr_terminated by blast
  have "length t < length (nickname (SetUserNo pl no))"
    using cstr_SomeD [OF t] len pl by (simp add: player_ok_def SetUserNo_def)
  from strcpy_s_ok [OF t this] obtain d where d: "strcpy_s (nickname (SetUserNo pl no)) ?n = Some d"
      "length d = length (nickname (SetUserNo pl no))" "cstr d = Some t" .
  then have "SetNickname (SetUserNo pl no) ?n = Some (pl\<lparr>userNo := no, nickname := d, pl_state := PS_LOGGED_IN\<rparr>)"
    by (simp add: SetNickname_def SetUserNo_def)
  then show ?thesis using that [OF up, of d] d t pl by (simp add: player_ok_def SetUserNo_def)
qed

lemma logged_in_ok:
  assumes st: "chat_state leak H s" and f: "map_of (players s) sid = Some ptr" "player s ptr = Some pl" and l: "logged_in e r ptr pl s s'"
  shows "chat_state leak H s'" and "quiet s s'" and "used_sids s' = used_sids s"
proof -
  note ok = chat_state_parts [OF st]
  obtain nick where s': "s' = set_player ptr (pl\<lparr>userNo := res_userNo r, nickname := nick, pl_state := PS_LOGGED_IN\<rparr>) s" "length nick = 32"
    using l by (auto simp: logged_in_def)
  obtain pl' where "player s ptr = Some pl'" "player_ok (roomManager s) sid pl'" using player_found [OF ok(1) f(1)] by metis
  then have "pl_sid pl = sid" using f(2) by (simp add: player_ok_def)
  then have pok: "player_ok (roomManager s') sid (pl\<lparr>userNo := res_userNo r, nickname := nick, pl_state := PS_LOGGED_IN\<rparr>)"
    using s'(2) by (simp add: player_ok_def)
  have "players_ok (used_sids s) s'"
    by (rule players_ok_update [OF ok(1) f(1) _ _ _ pok]) (simp_all add: s' set_player_def)
  then show "chat_state leak H s'"
    by (rule chat_state_change [OF st, rotated 6]) (use ok in \<open>simp_all add: s' set_player_def\<close>)
  show "quiet s s'" by (rule quiet_same) (simp_all add: s' set_player_def)
  show "used_sids s' = used_sids s" by (simp add: s' set_player_def)
qed

text \<open>The counters.\<close>

definition count_login :: "bool \<Rightarrow> CChatServer \<Rightarrow> CChatServer" where
  "count_login ok s = (if ok then s\<lparr>loginOkTotal := loginOkTotal s + 1\<rparr> else s\<lparr>loginFailTotal := loginFailTotal s + 1\<rparr>)"

definition count_signup :: "bool \<Rightarrow> CChatServer \<Rightarrow> CChatServer" where
  "count_signup ok s = (if ok then s\<lparr>signupOkTotal := signupOkTotal s + 1\<rparr> else s\<lparr>signupFailTotal := signupFailTotal s + 1\<rparr>)"

lemma count_fields [simp]:
  "chat_state leak H (count_login b s) = chat_state leak H s" "chat_state leak H (count_signup b s) = chat_state leak H s"
  "players (count_login b s) = players s" "players (count_signup b s) = players s"
  "player (count_login b s) = player s" "player (count_signup b s) = player s"
  "used_sids (count_login b s) = used_sids s" "used_sids (count_signup b s) = used_sids s"
  by (simp_all add: count_login_def count_signup_def player_def fun_eq_iff)

lemma count_quiet: "quiet s (count_login b s)" "quiet s (count_signup b s)"
  by (rule quiet_same; simp add: count_login_def count_signup_def)+

text \<open>
  What a result does: nothing when the session is gone; otherwise it is counted, a successful login
  names the player, and the session is sent the result code with number and name.
\<close>

definition result_effect :: "bool \<Rightarrow> nat multiset \<Rightarrow> chatenv \<Rightarrow> DBResult \<Rightarrow> CChatServer \<Rightarrow> CChatServer \<Rightarrow> bool" where
  "result_effect leak H e r s s' \<longleftrightarrow> (case map_of (players s) (res_sid r) of
       None \<Rightarrow> s' = s
     | Some ptr \<Rightarrow> \<exists>s1. (case res_type r of
         DB_JOB_LOGIN \<Rightarrow> let rc = MapLoginResult (res_result r); s0 = count_login (rc = RESULT_SUCCESS) s in
           (if rc = RESULT_SUCCESS then \<exists>pl. player s ptr = Some pl \<and> logged_in e r ptr pl s0 s1 else s1 = s0) \<and>
           told leak H e [res_sid r] (WORD_bytes (type_val SC_LOGIN_RES) @ BYTE_bytes (result_val rc) @
             int_bytes (res_userNo r) @ take 64 (wbytes (res_nickname r))) s1 s'
       | DB_JOB_SIGNUP \<Rightarrow> let rc = MapSignUpResult (res_result r) in
           s1 = count_signup (rc = RESULT_SUCCESS) s \<and>
           told leak H e [res_sid r] (WORD_bytes (type_val SC_SIGNUP_RES) @ BYTE_bytes (result_val rc) @
             int_bytes (res_userNo r)) s1 s'))"

lemma login_reply:
  assumes st: "chat_state leak H s" and e: "chatenv_ok e" and sid: "sid \<in> used_sids s" and w: "length w = 33"
  shows "wp (do {
       let (res, s) = alloc_pkt s;
       s \<leftarrow> put res (WORD_bytes (type_val SC_LOGIN_RES)) s;
       s \<leftarrow> put res (BYTE_bytes rc) s;
       s \<leftarrow> put res (int_bytes no) s;
       s \<leftarrow> write_pkt res (wbytes w) (2 * MAX_NICKNAME_LEN) s;
       s \<leftarrow> set_header e res s;
       s \<leftarrow> chat_send e sid res s;
       release_pkt res s })
     (told leak H e [sid] (WORD_bytes (type_val SC_LOGIN_RES) @ BYTE_bytes rc @ int_bytes no @ take 64 (wbytes w)) s)"
proof -
  obtain res s1 where al: "alloc_pkt s = (res, s1)" by fastforce
  have one: "set [sid] \<subseteq> used_sids s" "distinct [sid]" using sid by simp_all
  have "wp (do {
       s \<leftarrow> put res (WORD_bytes (type_val SC_LOGIN_RES)) s1;
       s \<leftarrow> put res (BYTE_bytes rc) s;
       s \<leftarrow> put res (int_bytes no) s;
       s \<leftarrow> write_pkt res (wbytes w) (2 * MAX_NICKNAME_LEN) s;
       s \<leftarrow> set_header e res s;
       s \<leftarrow> send_each e [sid] res s;
       release_pkt res s })
     (told leak H e [sid] (((([] @ WORD_bytes (type_val SC_LOGIN_RES)) @ BYTE_bytes rc) @ int_bytes no) @ take 64 (wbytes w)) s)"
    by (rule wp_seq [OF put_prep [OF alloc_prep [OF st pkt_step_refl refl al]]], simp,
        rule wp_seq, erule put_prep, simp, rule wp_seq, erule put_prep, simp,
        rule wp_seq, erule write_prep_int [where k = 64], simp, simp, simp add: w, erule finish_prep [OF _ e one])
  then show ?thesis by (simp add: al chat_send_each)
qed

lemma signup_reply:
  assumes st: "chat_state leak H s" and e: "chatenv_ok e" and sid: "sid \<in> used_sids s"
  shows "wp (do {
       let (res, s) = alloc_pkt s;
       s \<leftarrow> put res (WORD_bytes (type_val SC_SIGNUP_RES)) s;
       s \<leftarrow> put res (BYTE_bytes rc) s;
       s \<leftarrow> put res (int_bytes no) s;
       s \<leftarrow> set_header e res s;
       s \<leftarrow> chat_send e sid res s;
       release_pkt res s })
     (told leak H e [sid] (WORD_bytes (type_val SC_SIGNUP_RES) @ BYTE_bytes rc @ int_bytes no) s)"
proof -
  obtain res s1 where al: "alloc_pkt s = (res, s1)" by fastforce
  have one: "set [sid] \<subseteq> used_sids s" "distinct [sid]" using sid by simp_all
  have "wp (do {
       s \<leftarrow> put res (WORD_bytes (type_val SC_SIGNUP_RES)) s1;
       s \<leftarrow> put res (BYTE_bytes rc) s;
       s \<leftarrow> put res (int_bytes no) s;
       s \<leftarrow> set_header e res s;
       s \<leftarrow> send_each e [sid] res s;
       release_pkt res s })
     (told leak H e [sid] ((([] @ WORD_bytes (type_val SC_SIGNUP_RES)) @ BYTE_bytes rc) @ int_bytes no) s)"
    by (rule wp_seq [OF put_prep [OF alloc_prep [OF st pkt_step_refl refl al]]], simp,
        rule wp_seq, erule put_prep, simp, rule wp_seq, erule put_prep, simp, erule finish_prep [OF _ e one])
  then show ?thesis by (simp add: al chat_send_each)
qed

lemma Handle_DbResult_ok:
  assumes st: "chat_state leak H s" and e: "chatenv_ok e" and r: "result_ok r"
  shows "wp (Handle_DbResult e r s) (result_effect leak H e r s)"
proof (cases "map_of (players s) (res_sid r)")
  case None
  then show ?thesis by (simp add: Handle_DbResult_def result_effect_def del: umap_find_None)
next
  case (Some ptr)
  note ok = chat_state_parts [OF st]
  obtain pl where pl: "player s ptr = Some pl" "player_ok (roomManager s) (res_sid r) pl" "res_sid r \<in> used_sids s"
    using player_found [OF ok(1) Some] by metis
  have len: "length (res_nickname r) = 33" using r by (simp add: result_ok_def)
  show ?thesis
  proof (cases "res_type r")
    case DB_JOB_SIGNUP
    let ?rc = "MapSignUpResult (res_result r)"
    let ?s = "count_signup (?rc = RESULT_SUCCESS) s"
    have st1: "chat_state leak H ?s" and sid1: "res_sid r \<in> used_sids ?s" using st pl(3) by simp_all
    have eff: "result_effect leak H e r s = told leak H e [res_sid r]
        (WORD_bytes (type_val SC_SIGNUP_RES) @ BYTE_bytes (result_val ?rc) @ int_bytes (res_userNo r)) ?s"
      using Some DB_JOB_SIGNUP by (simp add: result_effect_def Let_def fun_eq_iff)
    show ?thesis unfolding eff using Some DB_JOB_SIGNUP signup_reply [OF st1 e sid1, of "result_val ?rc" "res_userNo r"]
      by (simp add: Handle_DbResult_def Let_def count_signup_def split: if_split)
  next
    case DB_JOB_LOGIN
    let ?rc = "MapLoginResult (res_result r)"
    let ?s = "count_login (?rc = RESULT_SUCCESS) s"
    have st1: "chat_state leak H ?s" and sid1: "res_sid r \<in> used_sids ?s" using st pl(3) by simp_all
    show ?thesis
    proof (cases "?rc = RESULT_SUCCESS")
      case False
      have eff: "result_effect leak H e r s = told leak H e [res_sid r] (WORD_bytes (type_val SC_LOGIN_RES) @
          BYTE_bytes (result_val ?rc) @ int_bytes (res_userNo r) @ take 64 (wbytes (res_nickname r))) ?s"
        using Some DB_JOB_LOGIN False by (simp add: result_effect_def Let_def fun_eq_iff)
      show ?thesis unfolding eff
        using Some DB_JOB_LOGIN False login_reply [OF st1 e sid1 len, of "result_val ?rc" "res_userNo r"]
        by (simp add: Handle_DbResult_def Let_def count_login_def)
    next
      case True
      obtain d nick where p: "upd_opt (wc2mb e (res_nickname r)) (MAX_NICKNAME_LEN - 1) 0 = Some nick"
          "SetNickname (SetUserNo pl (res_userNo r)) nick =
             Some (pl\<lparr>userNo := res_userNo r, nickname := d, pl_state := PS_LOGGED_IN\<rparr>)"
          "length d = 32" "cstr d = cstr ((wc2mb e (res_nickname r))[31 := 0])"
        using login_player [OF e pl(2)] by metis
      define pl' where "pl' = pl\<lparr>userNo := res_userNo r, nickname := d, pl_state := PS_LOGGED_IN\<rparr>"
      have l: "logged_in e r ptr pl ?s (set_player ptr pl' ?s)" using p(3,4) by (auto simp: logged_in_def pl'_def)
      have f: "map_of (players ?s) (res_sid r) = Some ptr" "player ?s ptr = Some pl" using Some pl(1) by simp_all
      have pl1: "player (s\<lparr>loginOkTotal := loginOkTotal s + 1\<rparr>) ptr = Some pl" using pl(1) by (simp add: player_def split: if_splits)
      note li = logged_in_ok [OF st1 f l]
      have sid2: "res_sid r \<in> used_sids (set_player ptr pl' ?s)" using li(3) sid1 by simp
      have "wp (Handle_DbResult e r s) (told leak H e [res_sid r] (WORD_bytes (type_val SC_LOGIN_RES) @
          BYTE_bytes (result_val ?rc) @ int_bytes (res_userNo r) @ take 64 (wbytes (res_nickname r))) (set_player ptr pl' ?s))"
        using Some DB_JOB_LOGIN True p(1) p(2) [folded pl'_def] pl1 login_reply [OF li(1) e sid2 len, of "result_val ?rc" "res_userNo r"]
        by (simp add: Handle_DbResult_def Let_def count_login_def)
      then show ?thesis
        by (rule wp_mono) (use Some DB_JOB_LOGIN True l pl(1) in \<open>auto simp: result_effect_def Let_def\<close>)
    qed
  qed
qed

end
