(* ===== verification/ChatUpdate.thy ===== *)
theory ChatUpdate
  imports ChatRooms
begin

text \<open>
  The update thread of \<open>CChatServer\<close>: dispatching a received packet, handling one message, handling
  all results of the database, printing the statistics, and a whole turn of \<open>UpdateLoop\<close>.
\<close>

section \<open>Steps that keep the invariant\<close>

definition fine :: "bool \<Rightarrow> nat multiset \<Rightarrow> CChatServer \<Rightarrow> CChatServer \<Rightarrow> bool" where
  "fine leak H s s' \<longleftrightarrow> chat_state leak H s' \<and> quiet s s' \<and> (socks_ok s \<longrightarrow> socks_ok s')"

lemma fine_refl: "chat_state leak H s \<Longrightarrow> fine leak H s s"
  by (simp add: fine_def)

lemma fine_trans: "fine leak H s t \<Longrightarrow> fine leak H t u \<Longrightarrow> fine leak H s u"
  using quiet_trans by (auto simp: fine_def)

lemma fine_pkt_step: "chat_state leak H s' \<Longrightarrow> pkt_step s s' \<Longrightarrow> fine leak H s s'"
  using quiet_send [OF pkt_step_send] pkt_step_socks by (auto simp: fine_def)

lemma fine_silent: "silent leak H s s' \<Longrightarrow> fine leak H s s'"
  by (simp add: fine_pkt_step silent_def)

lemma fine_told: "told leak H e sids bs s s' \<Longrightarrow> fine leak H s s'"
  using quiet_send delivers_socks unfolding fine_def told_def by blast

lemma fine_same:
  assumes "chat_state leak H s'" and "sessions s' = sessions s" "indexPool s' = indexPool s" "contentQ s' = contentQ s" "events s' = events s"
  shows "fine leak H s s'"
  using assms quiet_same by (auto simp: fine_def socks_ok_def open_slot_def)

lemma fine_change: "fine leak H s t \<Longrightarrow> silent leak H' t u \<Longrightarrow> fine leak H' s u"
  using quiet_trans [of s t u] fine_silent [of leak H' t u] by (auto simp: fine_def)

lemma fine_queued: "queued leak H job s s' \<Longrightarrow> fine leak H s s'"
  unfolding queued_def
  by (elim conjE exE, rule fine_trans, erule (1) fine_pkt_step, rule fine_same) simp_all

lemma fine_replied: "replied leak H e reply s s' \<Longrightarrow> fine leak H s s'"
  using fine_silent fine_told by (auto simp: replied_def split: option.splits)

lemma fine_left_room:
  assumes "chat_state leak H s" and "in_room sid s = Some (ptr, pl, k)"
  shows "fine leak H s (left_room sid ptr pl k s)"
  by (rule fine_same [OF left_room_ok(1) [OF assms]]) (simp_all add: left_room_def set_player_def set_room_def)

lemma fine_enter:
  assumes st: "chat_state leak H s" and eff: "enter_effect leak H e sid no s s'"
  shows "fine leak H s s'"
proof (cases "s' = s")
  case True
  then show ?thesis using st fine_refl by simp
next
  case False
  obtain ptr where ptr: "map_of (players s) sid = Some ptr"
    using eff False by (cases "map_of (players s) sid") (auto simp: enter_effect_def simp del: umap_find_None)
  obtain k where k: "GetRoom no = Some k" using eff False ptr by (cases "GetRoom no") (auto simp: enter_effect_def)
  have en: "fst (room_EnterRoom (roomManager s ! k) sid ptr)" using eff False ptr k by (auto simp: enter_effect_def split: if_splits)
  then obtain pl where pl: "player s ptr = Some pl" using eff ptr k by (auto simp: enter_effect_def)
  let ?s = "entered_room sid ptr pl no k s"
  have f: "fine leak H s ?s"
    by (rule fine_same [OF entered_room_ok(1) [OF st ptr pl k en]]) (simp_all add: entered_room_def set_player_def set_room_def)
  have "s' = ?s \<or> (\<exists>s3 sids bs sids' bs'. told leak H e sids bs ?s s3 \<and> told leak H e sids' bs' s3 s')"
    using eff ptr k en pl by (auto simp: enter_effect_def Let_def split: if_splits)
  then show ?thesis using f fine_trans fine_told by metis
qed

lemma fine_result:
  assumes st: "chat_state leak H s" and eff: "result_effect leak H e r s s'"
  shows "fine leak H s s'"
proof (cases "map_of (players s) (res_sid r)")
  case None
  then show ?thesis using eff st fine_refl by (simp add: result_effect_def del: umap_find_None)
next
  case (Some ptr)
  have cl: "fine leak H s (count_login b s)" "fine leak H s (count_signup b s)" for b
    by (rule fine_same; use st in \<open>simp add: count_login_def count_signup_def\<close>)+
  obtain s1 where s1: "fine leak H s s1" "\<exists>sids bs. told leak H e sids bs s1 s'"
  proof (cases "res_type r")
    case DB_JOB_SIGNUP
    then show ?thesis using eff Some cl(2) that by (fastforce simp: result_effect_def Let_def)
  next
    case DB_JOB_LOGIN
    let ?b = "MapLoginResult (res_result r) = RESULT_SUCCESS"
    obtain s1 where s1: "if ?b then \<exists>pl. player s ptr = Some pl \<and> logged_in e r ptr pl (count_login ?b s) s1 else s1 = count_login ?b s"
        "\<exists>sids bs. told leak H e sids bs s1 s'"
      using eff Some DB_JOB_LOGIN by (auto simp: result_effect_def Let_def)
    have "fine leak H s s1"
    proof (cases ?b)
      case True
      then obtain pl where pl: "player s ptr = Some pl" "logged_in e r ptr pl (count_login ?b s) s1" using s1(1) by auto
      have c: "chat_state leak H (count_login ?b s)" "map_of (players (count_login ?b s)) (res_sid r) = Some ptr"
          "player (count_login ?b s) ptr = Some pl"
        using st Some pl(1) by simp_all
      have "chat_state leak H s1" by (rule logged_in_ok(1) [OF c pl(2)])
      then have "fine leak H (count_login ?b s) s1"
        by (rule fine_same) (use pl(2) in \<open>auto simp: logged_in_def set_player_def\<close>)
      then show ?thesis using fine_trans [OF cl(1)] by blast
    next
      case False
      then show ?thesis using s1(1) cl(1) by simp
    qed
    with s1(2) that show ?thesis by blast
  qed
  then show ?thesis using fine_trans fine_told by blast
qed

section \<open>Received packets\<close>

text \<open>What a packet with the type \<open>ty\<close> and the given body does.\<close>

definition request_effect ::
    "bool \<Rightarrow> nat multiset \<Rightarrow> chatenv \<Rightarrow> SessionID \<Rightarrow> WORD \<Rightarrow> bytes \<Rightarrow> CChatServer \<Rightarrow> CChatServer \<Rightarrow> bool" where
  "request_effect leak H e sid ty body s s' \<longleftrightarrow>
     (if ty = type_val CS_LOGIN_REQ then
        (if map_of (players s) sid = None then s' = s else \<exists>job. login_of sid body job \<and> queued leak H job s s')
      else if ty = type_val CS_SIGNUP_REQ then
        (if map_of (players s) sid = None then s' = s else \<exists>job. signup_of sid body job \<and> queued leak H job s s')
      else if ty = type_val CS_ROOM_ENTER_REQ then
        \<exists>no s1. silent leak H s s1 \<and> enter_effect leak H e sid no s1 s' \<and> (2 \<le> length body \<longrightarrow> no = le_to_word (take 2 body))
      else if ty = type_val CS_ROOM_LEAVE_REQ then
        (case in_room sid s of None \<Rightarrow> s' = s
         | Some (ptr, pl, k) \<Rightarrow> told leak H e (map fst (filter (\<lambda>x. fst x \<noteq> sid) (users (roomManager s ! k))))
             (WORD_bytes (type_val SC_USER_LEAVE) @ GetNickname pl) (left_room sid ptr pl k s) s')
      else if ty = type_val CS_CHAT_REQ then
        \<exists>n chat. replied leak H e (if uint n > 256 then None else chat_reply sid (WORD_bytes n @ chat) s) s s' \<and>
          (2 \<le> length body \<longrightarrow> n = le_to_word (take 2 body)) \<and>
          (2 + unat n \<le> length body \<longrightarrow> chat = take (unat n) (drop 2 body)) \<and>
          (uint n \<le> 256 \<and> 2 \<le> length body \<and> length body < 2 + unat n \<longrightarrow> (\<exists>j. chat = map (junk e j) [0..<unat n]))
      else s' = s)"

lemma fine_request:
  assumes st: "chat_state leak H s" and eff: "request_effect leak H e sid ty body s s'"
  shows "fine leak H s s'"
proof -
  consider (same) "s' = s" | (queue) job where "queued leak H job s s'"
    | (enter) no s1 where "silent leak H s s1" "enter_effect leak H e sid no s1 s'"
    | (leave) ptr pl k sids bs where "in_room sid s = Some (ptr, pl, k)" "told leak H e sids bs (left_room sid ptr pl k s) s'"
    | (chat) reply where "replied leak H e reply s s'" | (drop) "silent leak H s s'"
    using eff unfolding request_effect_def by (auto split: if_splits option.splits)
  then show ?thesis
  proof cases
    case same
    then show ?thesis using st fine_refl by simp
  next
    case enter
    then show ?thesis using fine_trans [OF fine_silent fine_enter] by (auto simp: silent_def)
  next
    case leave
    then show ?thesis using fine_trans [OF fine_left_room [OF st] fine_told] by blast
  qed (use fine_queued fine_replied fine_silent in blast)+
qed

lemma Handle_Recv_ok:
  assumes st: "chat_state leak H s" and p: "pkt \<in># H" "held pkt s" and e: "chatenv_ok e"
  shows "wp (Handle_Recv e sid pkt s) (\<lambda>s'. \<exists>ty body s1. silent leak H s s1 \<and> request_effect leak H e sid ty body s1 s' \<and>
     (2 \<le> length (unread_of (store s) pkt) \<longrightarrow> ty = le_to_word (take 2 (unread_of (store s) pkt)) \<and>
        body = drop 2 (unread_of (store s) pkt)))"
proof -
  let ?u = "unread_of (store s) pkt"
  obtain ty s1 where g: "get_WORD e pkt s = Some (ty, s1)" and s1: "chat_state leak H s1" "pkt_step s s1" "rand_calls s1 = rand_calls s"
    and u: "2 \<le> length ?u \<longrightarrow> ty = le_to_word (take 2 ?u) \<and> unread_of (store s1) pkt = drop 2 ?u"
    using get_WORD_ok [OF st p, of e] by (auto simp: wp_iff)
  have h: "held pkt s1" using p(2) held_step [OF s1(2)] by simp
  note ok = Handle_Login_ok [OF s1(1) p(1) h, of e sid] Handle_SignUp_ok [OF s1(1) p(1) h, of e sid]
    HandleRoomEnter_ok [OF s1(1) p(1) h e, of sid] HandleRoomLeave_ok [OF s1(1) e, of sid pkt]
    HandleChat_ok [OF s1(1) p(1) h e, of sid]
  have "wp (Handle_Recv e sid pkt s) (request_effect leak H e sid ty (unread_of (store s1) pkt) s1)"
  proof -
    consider "ty = 1" | "ty = 5" | "ty = 2" | "ty = 3" | "ty = 4" | "ty \<notin> {1, 5, 2, 3, 4}" by blast
    then show ?thesis
    proof cases
      case 1
      then show ?thesis by (simp add: Handle_Recv_def g) (rule wp_mono [OF ok(1)], simp add: request_effect_def)
    next
      case 2
      then show ?thesis by (simp add: Handle_Recv_def g) (rule wp_mono [OF ok(2)], simp add: request_effect_def)
    next
      case 3
      then show ?thesis by (simp add: Handle_Recv_def g) (rule wp_mono [OF ok(3)], simp add: request_effect_def)
    next
      case 4
      then show ?thesis by (simp add: Handle_Recv_def g) (rule wp_mono [OF ok(4)], simp add: request_effect_def)
    next
      case 5
      then show ?thesis by (simp add: Handle_Recv_def g) (rule wp_mono [OF ok(5)], simp add: request_effect_def)
    next
      case 6
      then show ?thesis by (simp add: Handle_Recv_def g request_effect_def)
    qed
  qed
  then show ?thesis using s1 u by - (erule wp_mono, auto simp: silent_def)
qed

section \<open>Messages of the content queue\<close>

text \<open>What handling one event does.\<close>

definition event_effect :: "bool \<Rightarrow> chatenv \<Rightarrow> lan_event \<Rightarrow> CChatServer \<Rightarrow> CChatServer \<Rightarrow> bool" where
  "event_effect leak e ev s s' \<longleftrightarrow> fine leak {#} s s' \<and> (case ev of
       Joined sid \<Rightarrow> s' = Handle_Join e sid s
     | Left sid \<Rightarrow> Handle_Leave sid s = Some s'
     | Received sid u \<Rightarrow> \<exists>p ty body s1 s2. silent leak {#p#} s s1 \<and> request_effect leak {#p#} e sid ty body s1 s2 \<and>
         (2 \<le> length u \<longrightarrow> ty = le_to_word (take 2 u) \<and> body = drop 2 u) \<and> silent leak {#} s2 s')"

lemma chat_state_pop:
  assumes st: "chat_state leak {#} s" and q: "contentQ s = m # q"
  shows "chat_state leak (mset (msg_pkts [m])) (s\<lparr>contentQ := q\<rparr>)" and "msg_ok (used_sids s) m"
    and "msg_pkt m = Some p \<Longrightarrow> held p (s\<lparr>contentQ := q\<rparr>)" and "events s = msg_event (unread_of (store s)) m # events (s\<lparr>contentQ := q\<rparr>)"
proof -
  have "mset (msg_pkts [m]) + mset (msg_pkts q) = mset (msg_pkts (contentQ s))" using q by (cases "msg_pkt m") auto
  then show "chat_state leak (mset (msg_pkts [m])) (s\<lparr>contentQ := q\<rparr>)"
    using st q by (auto simp: chat_state_def chat_ok_def players_ok_def)
  show "msg_ok (used_sids s) m" using st q by (simp add: chat_state_def chat_ok_def)
  show "held p (s\<lparr>contentQ := q\<rparr>)" if "msg_pkt m = Some p"
    using st q that by (simp add: held_def chat_state_def chat_ok_def)
  show "events s = msg_event (unread_of (store s)) m # events (s\<lparr>contentQ := q\<rparr>)" by (simp add: events_def q)
qed

lemma handle_msg_ok:
  assumes st: "chat_state leak (mset (msg_pkts [m])) s" and m: "msg_ok (used_sids s) m" and e: "chatenv_ok e"
    and h: "\<And>p. msg_pkt m = Some p \<Longrightarrow> held p s"
  shows "wp (handle_msg e m s) (event_effect leak e (msg_event (unread_of (store s)) m) s)"
proof (cases "msg_type m")
  case MSG_INIT
  then show ?thesis using m by (simp add: msg_ok_def)
next
  case MSG_JOIN
  then have st': "chat_state leak {#} s" and sid: "msg_sid m \<in> used_sids s" using st m by (auto simp: msg_ok_def)
  note j = Handle_Join_ok [OF st' sid, of e]
  have "fine leak {#} s (Handle_Join e (msg_sid m) s)"
    by (rule fine_same [OF j(1)]) (use j(2) in \<open>auto simp: Handle_Join_def fresh_mem_eq\<close>)
  with MSG_JOIN show ?thesis by (simp add: handle_msg_def event_effect_def msg_event_def)
next
  case MSG_LEAVE
  then have st': "chat_state leak {#} s" using st m by (auto simp: msg_ok_def)
  have "wp (Handle_Leave (msg_sid m) s) (fine leak {#} s)"
    by (rule wp_mono [OF Handle_Leave_ok [OF st']], rule fine_same) auto
  with MSG_LEAVE show ?thesis by (auto simp: handle_msg_def event_effect_def msg_event_def wp_iff)
next
  case MSG_RECV
  then obtain p where p: "msg_pkt m = Some p" using m by (auto simp: msg_ok_def)
  have st': "chat_state leak {#p#} s" using st p by simp
  let ?u = "unread_of (store s) p"
  obtain ty body s1 s2 where r: "Handle_Recv e (msg_sid m) p s = Some s2" "silent leak {#p#} s s1"
      "request_effect leak {#p#} e (msg_sid m) ty body s1 s2" "2 \<le> length ?u \<longrightarrow> ty = le_to_word (take 2 ?u) \<and> body = drop 2 ?u"
    using Handle_Recv_ok [OF st' _ h [OF p] e, of "msg_sid m"] by (auto simp: wp_iff)
  have st1: "chat_state leak {#p#} s1" using r(2) by (simp add: silent_def)
  have f2: "fine leak {#p#} s s2" using fine_trans [OF fine_silent [OF r(2)] fine_request [OF st1 r(3)]] .
  then have st2: "chat_state leak (add_mset p {#}) s2" by (simp add: fine_def)
  show ?thesis
  proof (simp add: handle_msg_def MSG_RECV p r(1), rule wp_mono [OF release_pkt_ok [OF st2]])
    fix s' assume "chat_state leak {#} s' \<and> pkt_step s2 s' \<and> rand_calls s' = rand_calls s2 \<and> pkt_data (store s') = pkt_data (store s2)"
    then have s': "silent leak {#} s2 s'" by (simp add: silent_def)
    have "msg_event (unread_of (store s)) m = Received (msg_sid m) ?u" by (simp add: msg_event_def MSG_RECV p)
    then show "event_effect leak e (msg_event (unread_of (store s)) m) s s'"
      unfolding event_effect_def using fine_change [OF f2 s'] r(2-4) s' by simp blast
  qed
qed

section \<open>Results of the database\<close>

lemma told_worker: "told leak H e sids bs s s' \<Longrightarrow> dbWorker s' = dbWorker s"
  by (simp add: told_def send_step_def)

lemma count_worker [simp]: "dbWorker (count_login b s) = dbWorker s" "dbWorker (count_signup b s) = dbWorker s"
  by (simp_all add: count_login_def count_signup_def)

lemma logged_in_worker: "logged_in e r ptr pl s s' \<Longrightarrow> dbWorker s' = dbWorker s"
  by (auto simp: logged_in_def set_player_def)

lemma result_worker:
  assumes "result_effect leak H e r s s'"
  shows "dbWorker s' = dbWorker s"
proof (cases "map_of (players s) (res_sid r)")
  case None
  then show ?thesis using assms by (simp add: result_effect_def del: umap_find_None)
next
  case (Some ptr)
  obtain s1 where "dbWorker s1 = dbWorker s" "\<exists>sids bs. told leak H e sids bs s1 s'"
  proof (cases "res_type r")
    case DB_JOB_SIGNUP
    then show ?thesis using assms Some that count_worker(2) by (fastforce simp: result_effect_def Let_def)
  next
    case DB_JOB_LOGIN
    then obtain s1 where "(\<exists>pl b. logged_in e r ptr pl (count_login b s) s1) \<or> (\<exists>b. s1 = count_login b s)"
        "\<exists>sids bs. told leak H e sids bs s1 s'"
      using assms Some by (simp add: result_effect_def Let_def) metis
    with that show ?thesis using logged_in_worker count_worker(1) by metis
  qed
  then show ?thesis using told_worker by metis
qed

text \<open>The loop over the waiting results ends, and all of them have been handled.\<close>

lemma db_results_ok:
  assumes "chat_state leak {#} s" and "chatenv_ok e"
  shows "wp (db_results e s) (\<lambda>s'. fine leak {#} s s' \<and> results (dbWorker s') = [] \<and> jobs (dbWorker s') = jobs (dbWorker s))"
  using assms(1)
proof (induction "results (dbWorker s)" arbitrary: s)
  case Nil
  then have "db_results e s = Some s" by (subst db_results.simps) (simp add: PopResult_def split: list.splits)
  with Nil fine_refl show ?case by simp
next
  case (Cons r rs)
  let ?w = "(dbWorker s)\<lparr>results := rs\<rparr>"
  let ?s = "s\<lparr>dbWorker := ?w\<rparr>"
  have pop: "PopResult (dbWorker s) = Some (r, ?w)" using Cons.hyps(2) by (auto simp: PopResult_def split: list.splits)
  have w: "worker_ok (dbWorker s)" using chat_state_parts(3) [OF Cons.prems] .
  then have "worker_ok ?w" and r: "result_ok r" using Cons.hyps(2) [symmetric] by (auto simp: worker_ok_def)
  then have st: "chat_state leak {#} ?s" using chat_state_worker [OF Cons.prems] by blast
  have f0: "fine leak {#} s ?s" by (rule fine_same [OF st]) simp_all
  obtain s1 where s1: "Handle_DbResult e r ?s = Some s1" "result_effect leak {#} e r ?s s1"
    using Handle_DbResult_ok [OF st assms(2) r] by (auto simp: wp_iff)
  have f1: "fine leak {#} ?s s1" by (rule fine_result [OF st s1(2)])
  have w1: "dbWorker s1 = ?w" using result_worker [OF s1(2)] by simp
  have "wp (db_results e s1) (\<lambda>s'. fine leak {#} s1 s' \<and> results (dbWorker s') = [] \<and> jobs (dbWorker s') = jobs (dbWorker s1))"
    by (rule Cons.hyps(1)) (use f1 w1 in \<open>simp_all add: fine_def\<close>)
  moreover have "db_results e s = db_results e s1" by (subst db_results.simps) (simp add: pop s1(1))
  ultimately show ?case using fine_trans [OF fine_trans [OF f0 f1]] w1 by - (simp, erule wp_mono, auto)
qed

section \<open>Statistics\<close>

lemma PrintChatStat_ok:
  assumes "rooms_wf (roomManager s)"
  shows "wp (PrintChatStat s) (\<lambda>(st, s'). s' = s\<lparr>lastStats := (joinCnt s, leaveCnt s, handleLeaveCnt s)\<rparr> \<and>
     roomCounts st = 0 # map GetUserCount (roomManager s) \<and> activeRooms st = GetActiveRoomcount (roomManager s) \<and>
     totalInRoom st = sum_list (map GetUserCount (roomManager s)) \<and> playerCount st = int (length (players s)) \<and>
     dbJobSize st = GetJobSize (dbWorker s) \<and> dbResSize st = GetResultSize (dbWorker s) \<and>
     contentQSize st = GetSize (contentQ s))"
proof -
  obtain r1 r2 r3 r4 r5 where rs: "roomManager s = [r1, r2, r3, r4, r5]"
    using assms by (auto simp: rooms_wf_def numeral_eq_Suc length_Suc_conv)
  obtain lj ll lh where ls: "lastStats s = (lj, ll, lh)" by (cases "lastStats s")
  have up: "map word_of_nat [1..<nat MAX_ROOM_COUNT + 1] = [1, 2, 3, 4, 5 :: WORD]"
    by (simp add: upt_conv_Cons)
  show ?thesis unfolding PrintChatStat_def up
    by (simp add: ls rs stat_room_def GetRoom_def nth_opt_def upd_opt_def GetActiveRoomcount_def Let_def)
      (simp add: numeral_eq_Suc)
qed

section \<open>A turn of the update thread\<close>

lemma UpdateLoop_turn_ok:
  assumes st: "chat_state leak {#} s" and e: "chatenv_ok e"
  shows "wp (UpdateLoop_turn e now s) (\<lambda>s'. chat_state leak {#} s' \<and> used_sids s \<subseteq> used_sids s' \<and>
     (socks_ok s \<longrightarrow> socks_ok s') \<and> (\<exists>ls. events s' = tl (events s) @ map Left ls) \<and> results (dbWorker s') = [])"
proof -
  obtain s1 where s1: "(case Pop (contentQ s) of Some (msg, q) \<Rightarrow> handle_msg e msg (s\<lparr>contentQ := q\<rparr>) | None \<Rightarrow> Some s) = Some s1"
      "chat_state leak {#} s1" "used_sids s \<subseteq> used_sids s1" "socks_ok s \<longrightarrow> socks_ok s1" "\<exists>ls. events s1 = tl (events s) @ map Left ls"
  proof (cases "contentQ s")
    case Nil
    have ev: "events s = tl (events s) @ map Left []" by (simp add: events_def Nil)
    show ?thesis by (rule that [of s]) (use st ev Nil in \<open>auto simp: Pop_def\<close>)
  next
    case (Cons m q)
    note pop = chat_state_pop [OF st Cons]
    let ?s = "s\<lparr>contentQ := q\<rparr>"
    have m: "msg_ok (used_sids ?s) m" using pop(2) by simp
    obtain s1 where s1: "handle_msg e m ?s = Some s1" "event_effect leak e (msg_event (unread_of (store ?s)) m) ?s s1"
      using handle_msg_ok [OF pop(1) m e pop(3)] by (auto simp: wp_iff)
    have f: "fine leak {#} ?s s1" using s1(2) by (simp add: event_effect_def)
    show ?thesis
    proof (rule that [of s1])
      show "(case Pop (contentQ s) of Some (msg, q) \<Rightarrow> handle_msg e msg (s\<lparr>contentQ := q\<rparr>) | None \<Rightarrow> Some s) = Some s1"
        using s1(1) Cons by (simp add: Pop_def)
      show "chat_state leak {#} s1" "used_sids s \<subseteq> used_sids s1" using f by (simp_all add: fine_def quiet_def)
      show "socks_ok s \<longrightarrow> socks_ok s1" using f by (simp add: fine_def socks_ok_def open_slot_def)
      show "\<exists>ls. events s1 = tl (events s) @ map Left ls" using f pop(4) by (simp add: fine_def quiet_def)
    qed
  qed
  obtain s2 where s2: "db_results e s1 = Some s2" "fine leak {#} s1 s2" "results (dbWorker s2) = []"
    using db_results_ok [OF s1(2) e] by (auto simp: wp_iff)
  have st2: "chat_state leak {#} s2" using s2(2) by (simp add: fine_def)
  obtain ls ls' where "events s1 = tl (events s) @ map Left ls" "events s2 = events s1 @ map Left ls'"
    using s1(5) s2(2) by (auto simp: fine_def quiet_def)
  then have ev: "\<exists>ls. events s2 = tl (events s) @ map Left ls" by (metis append.assoc map_append)
  have more: "used_sids s \<subseteq> used_sids s2" "socks_ok s \<longrightarrow> socks_ok s2" using s1(3,4) s2(2) by (auto simp: fine_def quiet_def)
  have wf: "rooms_wf (roomManager s2)" using chat_state_parts(2) [OF st2] by (simp add: rooms_ok_def)
  obtain stt where pr: "PrintChatStat s2 = Some (stt, s2\<lparr>lastStats := (joinCnt s2, leaveCnt s2, handleLeaveCnt s2)\<rparr>)"
    using PrintChatStat_ok [OF wf] by (auto simp: wp_iff)
  show ?thesis using s1(1) s2(1,3) st2 ev more pr
    by (simp add: UpdateLoop_turn_def socks_ok_def open_slot_def split: option.splits)
qed

lemma db_turn_ok:
  assumes st: "chat_state leak {#} s"
  shows "wp (db_turn e s) (\<lambda>s'. chat_state leak {#} s' \<and> used_sids s' = used_sids s \<and> (socks_ok s \<longrightarrow> socks_ok s') \<and>
     events s' = events s)"
proof -
  let ?m = "bwords (map (junk e (junk_objs s)) [0..<66])" and ?s = "s\<lparr>junk_objs := junk_objs s + 1\<rparr>"
  have w: "worker_ok (dbWorker s)" using chat_state_parts(3) [OF st] .
  have "wp (WorkerLoop_turn (sql e) ?m (dbWorker s)) worker_ok"
  proof (cases "jobs (dbWorker s)")
    case Nil
    then show ?thesis using w by (simp add: WorkerLoop_turn_def popJob_def)
  next
    case (Cons j js)
    let ?w = "(dbWorker s)\<lparr>jobs := js\<rparr>"
    have "worker_ok ?w" "job_ok j" using w Cons by (auto simp: worker_ok_def)
    then have "wp (processJob (sql e) ?m j ?w) worker_ok" by (intro wp_mono [OF processJob_ok]) auto
    then show ?thesis using Cons by (simp add: WorkerLoop_turn_def popJob_def)
  qed
  then obtain w' where w': "WorkerLoop_turn (sql e) ?m (dbWorker s) = Some w'" "worker_ok w'" by (rule wpE)
  then show ?thesis using chat_state_worker [of leak "{#}" ?s w'] st
    by (simp add: db_turn_def fresh_mem_eq socks_ok_def open_slot_def)
qed

end
