(* ===== verification/ChatSystem.thy ===== *)
theory ChatSystem
  imports ChatUpdate
begin

text \<open>
  The running server: the state after start-up, the steps of all its threads in any order, and the
  invariant that holds in every reachable state. Every step of a thread is one turn of its loop.
\<close>

section \<open>Start-up\<close>

text \<open>\<open>main\<close>: construct the server, \<open>StartContent\<close>, \<open>Start\<close> with all system calls succeeding.\<close>

definition boot :: "chatenv \<Rightarrow> UsersTable \<Rightarrow> bool \<Rightarrow> bool \<Rightarrow> int \<Rightarrow> LONG \<Rightarrow> CChatServer" where
  "boot e t started ngl maxS now =
     snd (Start ngl maxS True True True (UpdateLoop_enter now (StartContent e started (CChatServer_new t))))"

lemma session_wf_new: "session_wf Session_new"
  by (simp add: session_wf_def Session_new_def sq_wf_def sq_items_def sent_def ring_wf_def CRingBuffer_new_def
      RINGBUFFER_SIZE_def Qsize_def)

lemma se_refs_new: "se_refs Session_new = {#}"
  by (simp add: se_refs_def sq_items_def sent_def Session_new_def)

lemma Start_inv:
  assumes "0 \<le> maxS" "maxS \<le> 65535" and s: "indexPool s = []" "iocp s = []" "store s = \<lparr>packets = [], pool = []\<rparr>"
  shows "lan_inv leak {} {} {#} {#} (snd (Start ngl maxS True True True s))"
proof -
  have pool: "fold stack_push xs ys = rev xs @ ys" for xs ys :: "nat list"
    by (induction xs arbitrary: ys) (simp_all add: stack_push_def)
  have slot: "slot_ok leak i False False True 0 0 0 Session_new" for i
    using session_wf_new by (simp add: slot_ok_def) (simp add: Session_new_def)
  have refs: "sum_list (map se_refs (replicate n Session_new)) = {#}" for n
    by (induction n) (simp_all add: se_refs_new)
  have "pkt_ok leak {#} \<lparr>packets = [], pool = []\<rparr>"
    using pkt_inv_init by (simp add: pkt_ok_def pkt_exact_def)
  with assms slot refs show ?thesis
    by (simp add: Start_def lan_inv_def pool lan_refs_def pending_def)
qed

lemma StartContent_fields [simp]:
  "indexPool (StartContent e b s) = indexPool s" "iocp (StartContent e b s) = iocp s" "store (StartContent e b s) = store s"
  "players (StartContent e b s) = players s" "objects (StartContent e b s) = objects s"
  "roomManager (StartContent e b s) = roomManager s" "contentQ (StartContent e b s) = contentQ s"
  "chat_isRun (StartContent e b s)"
  by (simp_all add: StartContent_def split_beta)

lemma db_Start_ok:
  assumes "worker_ok w"
  shows "worker_ok (snd (db_Start o' started w))"
proof -
  obtain ok c where c: "Connect o' (db w) = (ok, c)" by fastforce
  have "conn_ok (db w)" using assms by (simp add: worker_ok_def)
  note cc = Connect_ok [OF this c] and dd = db_Disconnect_ok [OF Connect_ok(1) [OF this c]]
  show ?thesis using assms cc dd by (auto simp: db_Start_def c worker_ok_def Let_def)
qed

lemma boot_state:
  assumes m: "0 \<le> maxS" "maxS \<le> 65535"
  shows "chat_state leak {#} (boot e t started ngl maxS now)" and "socks_ok (boot e t started ngl maxS now)"
    and "events (boot e t started ngl maxS now) = []"
proof -
  let ?init = "UpdateLoop_enter now (StartContent e started (CChatServer_new t))" and ?s = "boot e t started ngl maxS now"
  have s0: "indexPool ?init = []" "iocp ?init = []" "store ?init = \<lparr>packets = [], pool = []\<rparr>"
    by (simp_all add: UpdateLoop_enter_def CChatServer_new_def)
  have inv: "lan_inv leak {} {} {#} {#} ?s" unfolding boot_def by (rule Start_inv [OF m s0])
  have f: "players ?s = []" "objects ?s = []" "roomManager ?s = CRoomManager_new" "contentQ ?s = []"
      "dbWorker ?s = snd (db_Start (sql e) started (CDBWorker_new t))"
    by (simp_all add: boot_def Start_def UpdateLoop_enter_def StartContent_def CChatServer_new_def split_beta)
  have "worker_ok (CDBWorker_new t)" using conn_ok_new by (simp add: CDBWorker_new_def worker_ok_def)
  then have w: "worker_ok (dbWorker ?s)" unfolding f by (rule db_Start_ok)
  have "rooms_ok U CRoomManager_new" for U
    using rooms_wf_new by (auto simp: rooms_ok_def CRoomManager_new_def CRoom_new_def)
  then show "chat_state leak {#} ?s" using inv w by (simp add: chat_state_def chat_ok_def players_ok_def f umap_wf_def)
  show "events ?s = []" by (simp add: events_def f)
  have "i \<in> set (indexPool ?s)" if "i < length (sessions ?s)" for i
  proof -
    have "fold stack_push xs ys = rev xs @ ys" for xs ys :: "nat list"
      by (induction xs arbitrary: ys) (simp_all add: stack_push_def)
    then show ?thesis using that s0(1) by (simp add: boot_def Start_def)
  qed
  then show "socks_ok ?s" by (auto simp: socks_ok_def open_slot_def)
qed

section \<open>Steps\<close>

text \<open>
  \<open>strict\<close> excludes completions of sends that failed; everything else may happen in any order.
  \<open>accept\<close> returns a socket that no open connection uses.
\<close>

inductive chat_step :: "chatenv \<Rightarrow> bool \<Rightarrow> CChatServer \<Rightarrow> CChatServer \<Rightarrow> bool" for e strict where
  accept: "isrun s \<Longrightarrow> (\<forall>i. open_slot s i \<longrightarrow> sock (sessions s ! i) \<noteq> sk) \<Longrightarrow>
     AcceptThread_turn chat_vtbl (sys e) sk ip port assoc s = Some s' \<Longrightarrow> chat_step e strict s s'"
| complete: "completion_ok ok bytes i ty data s \<Longrightarrow> (strict \<and> ty = SEND \<longrightarrow> ok \<and> bytes \<noteq> 0) \<Longrightarrow>
     io_completion chat_vtbl (sys e) ok bytes i ty data s = Some s' \<Longrightarrow> chat_step e strict s s'"
| update: "chat_isRun s \<Longrightarrow> UpdateLoop_turn e now s = Some s' \<Longrightarrow> chat_step e strict s s'"
| database: "db_isRun (dbWorker s) \<Longrightarrow> db_turn e s = Some s' \<Longrightarrow> chat_step e strict s s'"
| stat: "isrun s \<Longrightarrow> s' = snd (StatThread_turn s) \<Longrightarrow> chat_step e strict s s'"

inductive chat_run :: "chatenv \<Rightarrow> bool \<Rightarrow> CChatServer \<Rightarrow> bool" for e strict where
  start: "0 \<le> maxS \<Longrightarrow> maxS \<le> 65535 \<Longrightarrow> chat_run e strict (boot e t started ngl maxS now)"
| step: "chat_run e strict s \<Longrightarrow> chat_step e strict s s' \<Longrightarrow> chat_run e strict s'"

definition server_inv :: "bool \<Rightarrow> CChatServer \<Rightarrow> bool" where
  "server_inv strict s \<longleftrightarrow> chat_state (\<not> strict) {#} s \<and> socks_ok s"

lemma lan_frame_socks:
  assumes fr: "lan_frame i s s'" and i: "i \<notin> set (indexPool s)" and so: "socks_ok s"
  shows "socks_ok s'"
proof -
  have "open_slot s j \<and> sock (sessions s' ! j) = sock (sessions s ! j)" if "open_slot s' j" for j
    using that fr i by (cases "j = i") (auto simp: open_slot_def lan_frame_def)
  then show ?thesis using so unfolding socks_ok_def by metis
qed

text \<open>A completion is always handled, whatever it brings; worker threads leave players and rooms alone.\<close>

lemma completion_chat:
  assumes st: "chat_state leak {#} s" and c: "completion_ok ok bytes i ty data s" and e: "chatenv_ok e"
    and f: "leak \<or> ty = RECV \<or> ok \<and> bytes \<noteq> 0"
  shows "wp (io_completion chat_vtbl (sys e) ok bytes i ty data s) (\<lambda>s'. chat_state leak {#} s' \<and> lan_frame i s s' \<and>
     chat_rest s' = chat_rest s)"
proof -
  note ls = chat_stateD [OF st]
  have E: "ossl_ok (crypto (sys e))" using e by (simp add: chatenv_ok_def)
  show ?thesis
  proof (cases "\<not> ok \<or> bytes = 0")
    case True
    have "ty = SEND \<Longrightarrow> leak" using f True by auto
    from chat.io_completion_failed [OF ls c True this, of "sys e"] show ?thesis
      by (rule wp_mono) (auto simp: chat_state_lan)
  next
    case False
    show ?thesis
    proof (cases ty)
      case RECV
      obtain ms en r where p: "parse (crypto (sys e)) (ring_bytes (ring_of s i) @ data) = (ms, en, r)" by (metis prod_cases3)
      have c': "completion_ok True bytes i RECV data s" using c False RECV by simp
      have "data \<noteq> []" using c' False by (auto simp: completion_ok_def)
      from chat.io_completion_recv [OF ls c' this E p refl] False RECV show ?thesis
        by (auto simp: chat_state_lan elim!: wp_mono)
    next
      case SEND
      have c': "completion_ok True bytes i SEND data s" using c False SEND by simp
      from chat.io_completion_send [OF ls c', of "sys e"] False SEND show ?thesis
        by (auto simp: chat_state_lan elim!: wp_mono)
    qed
  qed
qed

lemma accept_chat:
  assumes st: "chat_state leak {#} s" and so: "socks_ok s" and sk: "\<forall>i. open_slot s i \<longrightarrow> sock (sessions s ! i) \<noteq> sk"
  shows "wp (AcceptThread_turn chat_vtbl (sys e) sk ip port assoc s) (\<lambda>s'. chat_state leak {#} s' \<and> socks_ok s' \<and>
     chat_rest s' = chat_rest s \<and> used_sids s \<subseteq> used_sids s' \<and>
     accept_post events True assoc (wsa_ok (sys e) (wsa_calls s)) sk s s')"
proof (rule wp_mono [OF chat.AcceptThread_ok [OF chat_stateD [OF st], of "sys e" sk ip port assoc]])
  fix s'
  assume s': "lan_state app_refs (app_ok (chat_rest s)) leak {} {} {#} {#} s' \<and> used_sids s \<subseteq> used_sids s' \<and>
     accept_post (\<lambda>s. app_log (CLanServer.more s) (unread_of (store s))) (v_OnConnectionRequest chat_vtbl ip port) assoc
       (wsa_ok (sys e) (wsa_calls s)) sk s s'"
  have lg: "(\<lambda>s :: CChatServer. app_log (CLanServer.more s) (unread_of (store s))) = events" by (rule ext) (simp add: events_def)
  have ap: "accept_post events True assoc (wsa_ok (sys e) (wsa_calls s)) sk s s'"
    using s' unfolding lg by (simp add: chat_vtbl_def OnConnectionRequest_def)
  have "socks_ok s'"
  proof (cases "indexPool s = []")
    case True
    then show ?thesis using ap so by (simp add: accept_post_def)
  next
    case False
    define i where "i = hd (indexPool s)"
    have post: "\<forall>j. j \<noteq> i \<longrightarrow> sessions s' ! j = sessions s ! j \<and> (j \<in> set (indexPool s') \<longleftrightarrow> j \<in> set (indexPool s))"
        "length (sessions s') = length (sessions s)" "closeFlag (sessions s' ! i) = 0 \<longrightarrow> sock (sessions s' ! i) = sk"
      using ap False by (auto simp: accept_post_def Let_def i_def split: if_splits)
    have old: "open_slot s j \<and> sock (sessions s' ! j) = sock (sessions s ! j)" if "open_slot s' j" "j \<noteq> i" for j
      using that post by (simp add: open_slot_def)
    have "j = k" if "open_slot s' j" "open_slot s' k" "sock (sessions s' ! j) = sock (sessions s' ! k)" for j k
    proof (cases "j = i \<or> k = i")
      case True
      then show ?thesis using that old sk post(3) by (cases "j = i"; cases "k = i") (auto simp: open_slot_def)
    next
      case False
      then show ?thesis using that old so by (auto simp: socks_ok_def)
    qed
    then show ?thesis by (auto simp: socks_ok_def)
  qed
  with s' ap show "chat_state leak {#} s' \<and> socks_ok s' \<and> chat_rest s' = chat_rest s \<and> used_sids s \<subseteq> used_sids s' \<and>
     accept_post events True assoc (wsa_ok (sys e) (wsa_calls s)) sk s s'"
    by (simp add: chat_state_lan)
qed

lemma completion_slot:
  assumes "chat_state leak {#} s" and "completion_ok ok bytes i ty data s"
  shows "i < length (sessions s)" and "i \<notin> set (indexPool s)"
proof -
  have io: "(i, ty) \<in> set (iocp s)" using assms(2) by (simp add: completion_ok_def)
  have inv: "lan_inv leak {} {} {#} (mset (msg_pkts (contentQ s))) s" using assms(1) by (simp add: chat_state_def)
  show i: "i < length (sessions s)" using io inv by (auto simp: lan_inv_def)
  have "0 < pending s i ty" using io by (simp add: pending_def)
  then show "i \<notin> set (indexPool s)"
    using lan_inv_slot [OF inv i] by (cases ty) (auto simp: slot_ok_def)
qed

lemma stat_chat: "chat_state leak {#} s \<Longrightarrow> chat_state leak {#} (snd (StatThread_turn s)) \<and>
    (socks_ok s \<longrightarrow> socks_ok (snd (StatThread_turn s)))"
proof -
  assume st: "chat_state leak {#} s"
  let ?s = "snd (StatThread_turn s)"
  have eq: "sessions ?s = sessions s" "indexPool ?s = indexPool s" "maxSession ?s = maxSession s" "iocp ?s = iocp s"
      "store ?s = store s" "contentQ ?s = contentQ s" "players ?s = players s" "objects ?s = objects s"
      "roomManager ?s = roomManager s" "dbWorker ?s = dbWorker s"
    by (simp_all add: StatThread_turn_def)
  note ok = chat_state_parts [OF st]
  have "players_ok (used_sids s) ?s" using ok(1) by (simp add: players_ok_def eq)
  then have "chat_state leak {#} ?s" by (rule chat_state_change [OF st eq(1-6)]) (use ok in \<open>simp_all add: eq\<close>)
  then show ?thesis by (simp add: socks_ok_def open_slot_def eq)
qed

lemma chat_step_inv:
  assumes inv: "server_inv strict s" and e: "chatenv_ok e" and step: "chat_step e strict s s'"
  shows "server_inv strict s'"
proof -
  have st: "chat_state (\<not> strict) {#} s" and so: "socks_ok s" using inv by (simp_all add: server_inv_def)
  show ?thesis using step
  proof cases
    case (accept sk ip port assoc)
    then show ?thesis using wp_SomeD [OF accept_chat [OF st so accept(2)] accept(3)] by (simp add: server_inv_def)
  next
    case (complete ok bytes i ty data)
    have f: "\<not> strict \<or> ty = RECV \<or> ok \<and> bytes \<noteq> 0" using complete(2) by (cases ty) auto
    have "chat_state (\<not> strict) {#} s' \<and> lan_frame i s s'"
      using wp_SomeD [OF completion_chat [OF st complete(1) e f] complete(3)] by simp
    then show ?thesis using lan_frame_socks [OF _ completion_slot(2) [OF st complete(1)] so] by (simp add: server_inv_def)
  next
    case (update now)
    then show ?thesis using wp_SomeD [OF UpdateLoop_turn_ok [OF st e] update(2)] so by (simp add: server_inv_def)
  next
    case database
    then show ?thesis using wp_SomeD [OF db_turn_ok [OF st] database(2)] so by (simp add: server_inv_def)
  next
    case stat
    then show ?thesis using stat_chat [OF st] so by (simp add: server_inv_def)
  qed
qed

lemma chat_run_inv: "chat_run e strict s \<Longrightarrow> chatenv_ok e \<Longrightarrow> server_inv strict s"
proof (induction rule: chat_run.induct)
  case (start maxS t started ngl now)
  then show ?case using boot_state by (simp add: server_inv_def)
next
  case (step s s')
  then show ?case using chat_step_inv by blast
qed

end
