(* ===== verification/Samples.thy ===== *)
theory Samples
  imports ChatSystem
begin

text \<open>
  A concrete environment and concrete runs of the server, for the theorems that show that the
  hypotheses of a property can hold: a server with one slot, a connection that is accepted, announced
  and enters room 1.
\<close>

section \<open>The environment\<close>

text \<open>A cipher and a digest that keep the laws; every system call and every ODBC call succeeds.\<close>

definition sample_ossl :: ossl where
  "sample_ossl = \<lparr>evp_encrypt = (\<lambda>k iv. map (\<lambda>b. b XOR 0x5A)), evp_decrypt = (\<lambda>k iv. map (\<lambda>b. b XOR 0x5A)),
     hmac_sha256 = (\<lambda>k m. take 32 (m @ replicate 32 0))\<rparr>"

definition sample_env :: chatenv where
  "sample_env = \<lparr>sys = \<lparr>wsa_ok = (\<lambda>n. True), rand = (\<lambda>n. replicate 12 7), crypto = sample_ossl\<rparr>,
     sql = \<lparr>sqlret = (\<lambda>n. SQL_SUCCESS), collation = (=)\<rparr>, junk = (\<lambda>k i. 0xCC),
     wc2mb = (\<lambda>w. take 32 (map ucast w @ replicate 32 0))\<rparr>"

lemma sample_ossl_ok: "ossl_ok sample_ossl"
  by (simp add: ossl_ok_def sample_ossl_def comp_def xor.assoc min_def)

lemma sample_env_ok: "chatenv_ok sample_env"
  by (simp add: chatenv_ok_def sample_env_def sample_ossl_ok min_def)

section \<open>A connection\<close>

definition sample_boot :: CChatServer where
  "sample_boot = boot sample_env \<lparr>rows = [], next_id = 1\<rparr> True True 1 0"

definition sample_sid :: SessionID where
  "sample_sid = make_sid 0 1"

definition sample_session :: Session where
  "sample_session = Session_new\<lparr>sock := 77, generation := 1, sID := sample_sid, sendCtx := SEND, ioRefCount := 2\<rparr>"

definition sample_open :: CChatServer where
  "sample_open = sample_boot\<lparr>sessions := [sample_session], indexPool := [], totalAccept := 1, acceptCount := 1,
     iocp := [(0, RECV)], wsa_calls := 1, joinCnt := 1,
     contentQ := [Message_new\<lparr>msg_sid := sample_sid, msg_type := MSG_JOIN\<rparr>]\<rparr>"

definition sample_joined :: CChatServer where
  "sample_joined = Handle_Join sample_env sample_sid (sample_open\<lparr>contentQ := []\<rparr>)"

lemma sample_boot_fields [simp]:
  "sessions sample_boot = [Session_new]" "indexPool sample_boot = [0]" "maxSession sample_boot = 1" "isrun sample_boot"
  "chat_isRun sample_boot" "iocp sample_boot = []" "wsa_calls sample_boot = 0" "contentQ sample_boot = []"
  "players sample_boot = []" "objects sample_boot = []" "roomManager sample_boot = CRoomManager_new"
  "store sample_boot = \<lparr>packets = [], pool = []\<rparr>" "joinCnt sample_boot = 0" "totalAccept sample_boot = 0"
  "acceptCount sample_boot = 0" "lastStatTick sample_boot = 0" "junk_objs sample_boot = 0" "outbox sample_boot = []"
  by (simp_all add: sample_boot_def boot_def Start_def UpdateLoop_enter_def StartContent_def CChatServer_new_def stack_push_def
      split_beta)

lemma sample_worker_fields [simp]: "results (dbWorker sample_boot) = []" "jobs (dbWorker sample_boot) = []"
  by (simp_all add: sample_boot_def boot_def Start_def UpdateLoop_enter_def StartContent_def CChatServer_new_def
      db_Start_def CDBWorker_new_def split_beta Let_def)

lemma sample_boot_run: "chat_run sample_env strict sample_boot"
  unfolding sample_boot_def by (rule chat_run.start) simp_all

lemma sample_accept:
  "AcceptThread_turn chat_vtbl (sys sample_env) 77 [] 0 True sample_boot = Some sample_open"
  by (simp add: AcceptThread_turn_def chat_vtbl_def OnConnectionRequest_def AllocSession_def stack_pop_def session_def
      OnClientJoin_def Push_def PostRecv_def IOAddRef_def Let_def InitSession_def sample_env_def sample_open_def
      sample_session_def sample_sid_def Session_new_def ring_Clear_def CRingBuffer_new_def set_session_def Message_new_def)

lemma sample_open_run: "chat_run sample_env strict sample_open"
  by (rule chat_run.step [OF sample_boot_run chat_step.accept [OF _ _ sample_accept]])
    (simp_all add: open_slot_def)

lemma sample_join:
  "UpdateLoop_turn sample_env 0 sample_open = Some sample_joined"
proof -
  have "results (dbWorker sample_joined) = []" "lastStatTick sample_joined = 0"
    by (simp_all add: sample_joined_def Handle_Join_def fresh_mem_eq sample_open_def)
  then have "db_results sample_env sample_joined = Some sample_joined" "lastStatTick sample_joined = 0"
    by (subst db_results.simps, simp_all add: PopResult_def)
  then show ?thesis
    by (simp add: UpdateLoop_turn_def Pop_def sample_open_def handle_msg_def Message_new_def) (simp add: sample_joined_def sample_open_def)
qed

lemma sample_joined_run: "chat_run sample_env strict sample_joined"
  by (rule chat_run.step [OF sample_open_run chat_step.update [OF _ sample_join]]) (simp add: sample_open_def)

section \<open>Requests\<close>

definition sample_frames :: "bytes list \<Rightarrow> bytes" where
  "sample_frames ms = concat (map (\<lambda>m. frame sample_ossl (replicate 12 7) m) ms)"

text \<open>Any requests that fit the buffer arrive in one completion and are queued.\<close>

lemma sample_parse:
  assumes "\<forall>m \<in> set ms. length m \<le> 4066"
  shows "parse sample_ossl (sample_frames ms) = (ms, NeedMore, [])"
proof -
  have "parse sample_ossl [] = ([], NeedMore, [])" by (subst parse.simps) simp
  moreover have "sample_frames ms = concat (map (\<lambda>(n, m). frame sample_ossl n m) (map (Pair (replicate 12 7)) ms)) @ []"
    by (simp add: sample_frames_def comp_def)
  ultimately show ?thesis
    using parse_frames [OF sample_ossl_ok, of "map (Pair (replicate 12 7)) ms" "[]"] assms by (simp add: comp_def)
qed

lemma sample_joined_fields:
  "sessions sample_joined = [sample_session]" "indexPool sample_joined = []" "iocp sample_joined = [(0, RECV)]"
  "contentQ sample_joined = []" "players sample_joined = [(sample_sid, 0)]"
  "objects sample_joined = [Some (CPlayer_new (map (junk sample_env 0) [0..<32]) sample_sid)]"
  "roomManager sample_joined = CRoomManager_new" "results (dbWorker sample_joined) = []" "lastStatTick sample_joined = 0"
  "chat_isRun sample_joined" "wsa_calls sample_joined = 1" "dbWorker sample_joined = dbWorker sample_boot"
  by (simp_all add: sample_joined_def Handle_Join_def fresh_mem_eq sample_open_def Let_def)

lemma sample_recv:
  assumes ms: "\<forall>m \<in> set ms. length m \<le> 4066" and len: "length (sample_frames ms) \<le> 4095" "ms \<noteq> []"
  obtains s where "chat_run sample_env strict s" "events s = map (Received sample_sid) ms" "open_slot s 0"
    "chat_rest s = chat_rest sample_joined" "generation (sessions s ! 0) = 1" "length (sessions s) = 1"
    "sqCount (sessions s ! 0) = 0" "sID (sessions s ! 0) = sample_sid"
proof -
  let ?d = "sample_frames ms" and ?j = sample_joined
  have st: "chat_state (\<not> strict) {#} ?j"
    using chat_run_inv [OF sample_joined_run sample_env_ok, of strict] by (simp add: server_inv_def)
  have ring: "ring_of ?j 0 = CRingBuffer_new"
    by (simp add: ring_of_def sample_joined_fields sample_session_def Session_new_def)
  have bytes: "ring_bytes (ring_of ?j 0) = []"
    by (simp add: ring ring_bytes_def CRingBuffer_new_def UseSize_def)
  have c: "completion_ok True (int (length ?d)) 0 RECV ?d ?j"
    using len by (simp add: completion_ok_def ring sample_joined_fields DirectEnqueueSize_def CRingBuffer_new_def RINGBUFFER_SIZE_def)
  obtain m ms' where ms': "ms = m # ms'" using len(2) by (cases ms) auto
  have ne: "?d \<noteq> []" using length_frame [OF sample_ossl_ok, of "replicate 12 7" m]
    by (auto simp: sample_frames_def ms' simp del: length_0_conv)
  have E: "crypto (sys sample_env) = sample_ossl" "wsa_ok (sys sample_env) n" for n by (simp_all add: sample_env_def)
  have p: "parse (crypto (sys sample_env)) (ring_bytes (ring_of ?j 0) @ ?d) = (ms, NeedMore, [])"
    using sample_parse [OF ms] by (simp add: bytes E)
  obtain s where s: "io_completion chat_vtbl (sys sample_env) True (int (length ?d)) 0 RECV ?d ?j = Some s"
      "chat_state (\<not> strict) {#} s" "chat_rest s = chat_rest ?j" "lan_frame 0 ?j s" "closeFlag (sessions s ! 0) = 0"
      "events s = events ?j @ map (Received (sID (sessions ?j ! 0))) ms" "pending s 0 SEND = 0"
    using chat.io_completion_recv [OF chat_stateD [OF st] c ne _ p refl] sample_ossl_ok
    by (auto simp: wp_iff chat_state_lan E events_def pending_def sample_joined_fields sample_session_def Session_new_def)
  have "chat_run sample_env strict s"
    by (rule chat_run.step [OF sample_joined_run chat_step.complete [OF c _ s(1)]]) simp
  moreover have "events s = map (Received sample_sid) ms"
    using s(6) by (simp add: events_def sample_joined_fields sample_session_def)
  moreover have o: "open_slot s 0" "generation (sessions s ! 0) = 1" "length (sessions s) = 1" "sID (sessions s ! 0) = sample_sid"
    using s(4,5) by (auto simp: open_slot_def lan_frame_def sample_joined_fields sample_session_def)
  have "lan_inv (\<not> strict) {} {} {#} (mset (msg_pkts (contentQ s))) s" using s(2) by (simp add: chat_state_def)
  from lan_inv_slot [OF this, of 0] have "sqCount (sessions s ! 0) = 0"
    using o(1) s(7) by (auto simp: open_slot_def slot_ok_def session_wf_def sq_wf_def)
  ultimately show ?thesis using s(3) o that by simp
qed

text \<open>The first of them enters room 1; the others are still waiting.\<close>

definition sample_enter :: bytes where
  "sample_enter = WORD_bytes (type_val CS_ROOM_ENTER_REQ) @ WORD_bytes 1"

lemma sample_enter_fields: "length sample_enter = 4" "le_to_word (take 2 sample_enter) = type_val CS_ROOM_ENTER_REQ"
  "le_to_word (take 2 (drop 2 sample_enter)) = (1 :: WORD)"
  by (simp_all add: sample_enter_def WORD_bytes_def)

lemma sample_turn:
  assumes run: "chat_run sample_env strict s" and q: "contentQ s = m # q" "results (dbWorker s) = []" "chat_isRun s"
  obtains s1 where "event_effect (\<not> strict) sample_env (hd (events s)) (s\<lparr>contentQ := q\<rparr>) s1"
    "results (dbWorker s1) = [] \<Longrightarrow> chat_run sample_env strict s1"
proof -
  have st: "chat_state (\<not> strict) {#} s"
    using chat_run_inv [OF run sample_env_ok] by (simp add: server_inv_def)
  note pop = chat_state_pop [OF st q(1)]
  have m: "msg_ok (used_sids (s\<lparr>contentQ := q\<rparr>)) m" using pop(2) by simp
  obtain s1 where s1: "handle_msg sample_env m (s\<lparr>contentQ := q\<rparr>) = Some s1"
      "event_effect (\<not> strict) sample_env (msg_event (unread_of (store (s\<lparr>contentQ := q\<rparr>))) m) (s\<lparr>contentQ := q\<rparr>) s1"
    using handle_msg_ok [OF pop(1) m sample_env_ok pop(3)] by (auto simp: wp_iff)
  have "chat_run sample_env strict s1" if r: "results (dbWorker s1) = []"
  proof -
    have "db_results sample_env s1 = Some s1" using r by (subst db_results.simps) (simp add: PopResult_def)
    then have "UpdateLoop_turn sample_env (lastStatTick s1) s = Some s1" using r s1(1) q(1) by (simp add: UpdateLoop_turn_def Pop_def)
    with run q(3) show ?thesis by (intro chat_run.step [OF run chat_step.update])
  qed
  then show ?thesis using that s1(2) pop(4) by simp
qed

lemma told_parts: "told leak H e sids bs s s' \<Longrightarrow> players s' = players s \<and> objects s' = objects s \<and>
    roomManager s' = roomManager s \<and> dbWorker s' = dbWorker s \<and> quiet s s'"
  by (simp add: quiet_told) (simp add: told_def send_step_def)

lemma silent_parts: "silent leak H s s' \<Longrightarrow> players s' = players s \<and> objects s' = objects s \<and>
    roomManager s' = roomManager s \<and> dbWorker s' = dbWorker s \<and> events s' = events s"
  by (simp add: silent_def pkt_step_def)

lemma sample_entered:
  assumes ms: "\<forall>m \<in> set ms. length m \<le> 4066" and len: "length (sample_frames (sample_enter # ms)) \<le> 4095"
  obtains s pl ls where "chat_run sample_env strict s" "events s = map (Received sample_sid) ms @ map Left ls"
    "in_room sample_sid s = Some (0, pl, 0)" "users (roomManager s ! 0) = [(sample_sid, 0)]" "users (roomManager s ! 1) = []"
proof -
  have ms': "\<forall>m \<in> set (sample_enter # ms). length m \<le> 4066" using ms by (simp add: sample_enter_fields)
  obtain s where s: "chat_run sample_env strict s" "events s = map (Received sample_sid) (sample_enter # ms)"
      "chat_rest s = chat_rest sample_joined"
    by (rule sample_recv [OF ms' len]) auto
  note eq = chat_rest_eqD [OF s(3)]
  obtain m q where q: "contentQ s = m # q" using s(2) by (cases "contentQ s") (auto simp: events_def)
  let ?s = "s\<lparr>contentQ := q\<rparr>"
  have tail: "events ?s = map (Received sample_sid) ms" using s(2) q by (simp add: events_def)
  have "results (dbWorker s) = []" "chat_isRun s" using eq by (simp_all add: sample_joined_fields)
  then obtain s1 where s1: "event_effect (\<not> strict) sample_env (hd (events s)) ?s s1"
      "results (dbWorker s1) = [] \<Longrightarrow> chat_run sample_env strict s1"
    by (rule sample_turn [OF s(1) q]) blast
  have hd: "hd (events s) = Received sample_sid sample_enter" using s(2) by simp
  obtain p ty body a b where r: "silent (\<not> strict) {#p#} ?s a"
      "request_effect (\<not> strict) {#p#} sample_env sample_sid ty body a b"
      "2 \<le> length sample_enter \<longrightarrow> ty = le_to_word (take 2 sample_enter) \<and> body = drop 2 sample_enter"
      "silent (\<not> strict) {#} b s1"
    using s1(1) unfolding hd event_effect_def by auto
  have ty: "ty = type_val CS_ROOM_ENTER_REQ" "body = drop 2 sample_enter" using r(3) by (simp_all add: sample_enter_fields)
  obtain c where c: "silent (\<not> strict) {#p#} a c" "enter_effect (\<not> strict) {#p#} sample_env sample_sid 1 c b"
    using r(2) sample_enter_fields by (auto simp: request_effect_def ty)
  note sp = silent_parts [OF r(1)] silent_parts [OF c(1)] silent_parts [OF r(4)]
  have cf: "players c = [(sample_sid, 0)]" "objects c = [Some (CPlayer_new (map (junk sample_env 0) [0..<32]) sample_sid)]"
      "roomManager c = CRoomManager_new" "dbWorker c = dbWorker sample_boot" "events c = map (Received sample_sid) ms"
    using sp eq tail by (simp_all add: sample_joined_fields)
  have room: "GetRoom 1 = Some 0" "users (CRoomManager_new ! 0) = []"
    by (simp_all add: GetRoom_def CRoomManager_new_def CRoom_new_def MAX_ROOM_COUNT_def upt_rec)
  define pl where "pl = CPlayer_new (map (junk sample_env 0) [0..<32]) sample_sid"
  have pl: "player c 0 = Some pl" "pl_state pl \<noteq> PS_IN_ROOM" by (simp_all add: player_def cf pl_def CPlayer_new_def)
  let ?e = "entered_room sample_sid 0 pl 1 0 c"
  have en: "fst (room_EnterRoom (CRoomManager_new ! 0) sample_sid 0)"
    by (simp add: room_EnterRoom_def CRoomManager_new_def CRoom_new_def MAX_LIMIT_PERSON_def upt_rec)
  obtain d where d: "\<exists>bs. told (\<not> strict) {#p#} sample_env [sample_sid] bs ?e d" "\<exists>bs. told (\<not> strict) {#p#} sample_env [] bs d b"
    using c(2) pl room en by (auto simp: enter_effect_def cf Let_def GetState_def)

  have dp: "players b = players ?e" "objects b = objects ?e" "roomManager b = roomManager ?e" "dbWorker b = dbWorker ?e"
      "quiet ?e d" "quiet d b"
    using d told_parts by (metis, metis, metis, metis, metis, metis)
  obtain ls where ls: "events b = events ?e @ map Left ls"
    using quiet_trans [OF dp(5,6)] by (auto simp: quiet_def)
  have rm: "0 < length CRoomManager_new" by (simp add: CRoomManager_new_def)
  have e: "players ?e = [(sample_sid, 0)]" "objects ?e = [Some (snd (player_EnterRoom pl 1))]"
      "roomManager ?e = CRoomManager_new[0 := snd (room_EnterRoom (CRoomManager_new ! 0) sample_sid 0)]"
      "dbWorker ?e = dbWorker sample_boot" "events ?e = map (Received sample_sid) ms"
    by (simp_all add: entered_room_def set_player_def set_room_def cf)
  have us: "users (roomManager s1 ! 0) = [(sample_sid, 0)]"
    using sp(3) dp(3) e(3) rm room(2) en by (simp add: room_EnterRoom_def umap_insert_def split: if_splits)
  have us1: "users (roomManager s1 ! 1) = []"
    using sp(3) dp(3) e(3) by (simp add: CRoomManager_new_def CRoom_new_def MAX_ROOM_COUNT_def upt_rec)
  have "in_room sample_sid s1 = Some (0, snd (player_EnterRoom pl 1), 0)"
    using sp(3) dp(1,2) e(1,2) room(1) pl(2) by (simp add: in_room_def player_def player_EnterRoom_def GetState_def GetRoomNo_def)
  moreover have "chat_run sample_env strict s1" using s1(2) sp(3) dp(4) e(4) by simp
  moreover have "events s1 = map (Received sample_sid) ms @ map Left ls" using sp(3) ls e(5) by simp
  ultimately show ?thesis using us us1 that by blast
qed

text \<open>One waiting request with the payload \<open>u\<close>, of a client that is in no room or in room 1.\<close>

lemma waiting_packet:
  assumes run: "chat_run e strict s" and e: "chatenv_ok e" and ev: "events s = Received sid u # evs"
  obtains m q p where "contentQ s = m # q" "msg_pkt m = Some p" "msg_sid m = sid" "msg_type m = MSG_RECV"
    "unread_of (store s) p = u" "p < length (packets (store s))"
proof -
  have st: "chat_state (\<not> strict) {#} s" using chat_run_inv [OF run e] by (simp add: server_inv_def)
  obtain m q where q: "contentQ s = m # q" "msg_event (unread_of (store s)) m = Received sid u"
    using ev by (auto simp: events_def)
  note pop = chat_state_pop [OF st q(1)]
  obtain p where p: "msg_pkt m = Some p" "msg_sid m = sid" "msg_type m = MSG_RECV" "unread_of (store s) p = u"
    using q(2) pop(2) by (auto simp: msg_event_def msg_ok_def split: MessageType.splits)
  have "p < length (packets (store (s\<lparr>contentQ := q\<rparr>)))" by (rule chat_held(1) [OF pop(1)]) (simp add: p(1))
  then show ?thesis using that q(1) p by simp
qed

lemma sample_frames_length: "length (sample_frames ms) = sum_list (map (\<lambda>m. 30 + length m) ms)"
  by (induction ms) (simp_all add: sample_frames_def length_frame [OF sample_ossl_ok])

lemma sample_request:
  assumes "length u \<le> 4000"
  obtains s m p where "chat_run sample_env strict s" "contentQ s = [m]" "msg_pkt m = Some p" "msg_sid m = sample_sid"
    "msg_type m = MSG_RECV" "unread_of (store s) p = u" "p < length (packets (store s))" "events s = [Received sample_sid u]"
    "open_slot s 0" "chat_rest s = chat_rest sample_joined"
proof -
  obtain s where s: "chat_run sample_env strict s" "events s = [Received sample_sid u]" "open_slot s 0"
      "chat_rest s = chat_rest sample_joined"
    by (rule sample_recv [of "[u]"]) (use assms in \<open>auto simp: sample_frames_length\<close>)
  obtain m q p where m: "contentQ s = m # q" "msg_pkt m = Some p" "msg_sid m = sample_sid" "msg_type m = MSG_RECV"
    "unread_of (store s) p = u" "p < length (packets (store s))"
    by (rule waiting_packet [OF s(1) sample_env_ok s(2)])
  moreover have "q = []" using s(2) m(1) by (simp add: events_def)
  ultimately show ?thesis using that s by blast
qed

lemma sample_room_request:
  assumes "length u \<le> 4000"
  obtains s m p q pl where "chat_run sample_env strict s" "contentQ s = m # q" "msg_pkt m = Some p" "msg_sid m = sample_sid"
    "msg_type m = MSG_RECV" "unread_of (store s) p = u" "in_room sample_sid s = Some (0, pl, 0)"
    "users (roomManager s ! 0) = [(sample_sid, 0)]" "users (roomManager s ! 1) = []"
proof -
  obtain s pl ls where s: "chat_run sample_env strict s" "events s = map (Received sample_sid) [u] @ map Left ls"
      "in_room sample_sid s = Some (0, pl, 0)" "users (roomManager s ! 0) = [(sample_sid, 0)]" "users (roomManager s ! 1) = []"
    by (rule sample_entered [of "[u]"]) (use assms in \<open>auto simp: sample_frames_length sample_enter_fields\<close>)
  have ev: "events s = Received sample_sid u # map Left ls" using s(2) by simp
  show ?thesis by (rule waiting_packet [OF s(1) sample_env_ok ev]) (use that s in blast)
qed

end
