(* ===== verification/ServerProps.thy ===== *)
theory ServerProps
  imports Samples
begin

text \<open>
  What holds of the running server, whatever its threads, its clients and the network do: the
  consequences of the invariant of the whole system, read off the state as the code has it.
\<close>

section \<open>No turn of a thread is undefined\<close>

lemma run_state:
  assumes "chat_run e strict s" and "chatenv_ok e"
  shows "chat_state (\<not> strict) {#} s" and "socks_ok s"
  using chat_run_inv [OF assms] by (simp_all add: server_inv_def)

lemma run_slot:
  assumes "chat_run e strict s" and "chatenv_ok e" and "i < length (sessions s)"
  shows "slot_ok (\<not> strict) i False False (i \<in> set (indexPool s)) 0 (pending s i RECV) (pending s i SEND) (sessions s ! i)"
proof -
  have "lan_inv (\<not> strict) {} {} {#} (mset (msg_pkts (contentQ s))) s"
    using run_state(1) [OF assms(1,2)] by (simp add: chat_state_def)
  from lan_inv_slot [OF this assms(3)] show ?thesis by simp
qed



section \<open>Sessions\<close>







section \<open>Players and rooms\<close>

text \<open>
  C22: The player table and the heap of players agree: no session is registered twice, every
  registered session has its own live \<open>CPlayer\<close> that carries its identifier, and every live
  \<open>CPlayer\<close> is registered. So no handler dereferences a deleted player and no player is leaked.
\<close>

theorem players_match_objects:
  assumes run: "chat_run e strict s" and e: "chatenv_ok e"
  shows "distinct (map fst (players s)) \<and> distinct (map snd (players s)) \<and>
     (\<forall>sid ptr. (sid, ptr) \<in> set (players s) \<longrightarrow>
        ptr < length (objects s) \<and> (\<exists>pl. objects s ! ptr = Some pl \<and> GetSid pl = sid)) \<and>
     (\<forall>ptr < length (objects s). objects s ! ptr \<noteq> None \<longrightarrow> ptr \<in> set (map snd (players s)))"
proof -
  have ok: "players_ok (used_sids s) s" using chat_state_parts(1) [OF run_state(1) [OF run e]] .
  have d: "distinct (map fst (players s))" using ok by (simp add: players_ok_def umap_wf_def)
  have "inj_on snd (set (players s))"
    using player_ptr_inj [OF ok] by (auto simp: inj_on_def)
  then have "distinct (map snd (players s))" using d by (simp add: distinct_map)
  with ok d show ?thesis by (force simp: players_ok_def player_ok_def GetSid_def)
qed

theorem players_match_objects_witness:
  "\<exists>pl. objects sample_joined ! 0 = Some pl \<and> GetSid pl = sample_sid"
  using players_match_objects [OF sample_joined_run [of True] sample_env_ok] by (simp add: sample_joined_fields)

text \<open>
  C23: There are always five rooms with at most fifty members each, nobody twice; and a player whose
  state says that it is in a room names a room that exists and lists it as a member.
\<close>

theorem rooms_match_players:
  assumes run: "chat_run e strict s" and e: "chatenv_ok e"
  shows "length (roomManager s) = 5 \<and>
     (\<forall>r \<in> set (roomManager s). GetUserCount r \<le> 50 \<and> distinct (map fst (GetUsers r))) \<and>
     (\<forall>sid ptr pl. (sid, ptr) \<in> set (players s) \<and> objects s ! ptr = Some pl \<and> GetState pl = PS_IN_ROOM \<longrightarrow>
        (\<exists>k. GetRoom (GetRoomNo pl) = Some k \<and> sid \<in> set (map fst (GetUsers (roomManager s ! k)))))"
proof -
  note ok = chat_state_parts [OF run_state(1) [OF run e]]
  have "GetUserCount r \<le> 50 \<and> distinct (map fst (GetUsers r))" if "r \<in> set (roomManager s)" for r
    using ok(2) that by (simp add: rooms_ok_def rooms_wf_def room_wf_def umap_wf_def GetUserCount_def GetUsers_def MAX_LIMIT_PERSON_def)
  moreover have "length (roomManager s) = 5" using ok(2) by (simp add: rooms_ok_def rooms_wf_def)
  moreover have "\<exists>k. GetRoom (GetRoomNo pl) = Some k \<and> sid \<in> set (map fst (GetUsers (roomManager s ! k)))"
    if "(sid, ptr) \<in> set (players s)" "objects s ! ptr = Some pl" "GetState pl = PS_IN_ROOM" for sid ptr pl
    using ok(1) that by (fastforce simp: players_ok_def player_ok_def GetState_def GetRoomNo_def GetUsers_def)
  ultimately show ?thesis by blast
qed

theorem rooms_match_players_witness:
  "\<exists>s. chat_run sample_env True s \<and> in_room sample_sid s \<noteq> None \<and> length (roomManager s) = 5 \<and>
     (\<forall>r \<in> set (roomManager s). GetUserCount r \<le> 50)"
proof -
  obtain s pl where s: "chat_run sample_env True s" "in_room sample_sid s = Some (0, pl, 0)"
    by (rule sample_room_request [of "[]"]) auto
  with rooms_match_players [OF s(1) sample_env_ok] show ?thesis by auto
qed

section \<open>Order\<close>



section \<open>Session identifiers\<close>

lemma run_sessions:
  assumes "chat_run e strict s" and "chatenv_ok e"
  shows "maxSession s = int (length (sessions s))" and "length (sessions s) \<le> 65535"
  using run_state(1) [OF assms] by (simp_all add: chat_state_def lan_inv_def)

text \<open>
  C25: An identifier that belongs to an earlier use of a slot is refused: \<open>SendPacket\<close> and
  \<open>Disconnect\<close> return false and change nothing, so a late answer cannot reach the next client of the
  slot or close its connection.
\<close>

theorem stale_identifier_is_refused:
  assumes run: "chat_run e strict s" and e: "chatenv_ok e" and i: "i < length (sessions s)"
    and g: "g \<noteq> generation (sessions s ! i)"
  shows "SendPacket chat_vtbl (sys e) (make_sid i g) p s = Some (False, s) \<and>
     Disconnect chat_vtbl (make_sid i g) s = Some (False, s)"
proof -
  note n = run_sessions [OF run e]
  have i': "i < 65536" using i n(2) by simp
  show ?thesis using n i g sid_gen_make_sid [OF i', of g] sid_index_make_sid [OF i', of g]
    by (simp add: SendPacket_def Disconnect_def Let_def session_def split: if_splits)
qed

theorem stale_identifier_is_refused_witness:
  "SendPacket chat_vtbl (sys sample_env) (make_sid 0 2) 0 sample_open = Some (False, sample_open)"
  using stale_identifier_is_refused [OF sample_open_run [of True] sample_env_ok, of 0 2 0]
  by (simp add: sample_open_def sample_session_def)

text \<open>
  C28: After 2^31 connections on one slot the generation turns negative and its sign extension
  overwrites the slot number with 65535: the session's own identifier is then refused by \<open>SendPacket\<close>
  and \<open>Disconnect\<close>, so its client is never answered.
\<close>

theorem negative_generation_loses_slot:
  assumes run: "chat_run e strict s" and e: "chatenv_ok e" and i: "i < length (sessions s)" and g: "sint g < 0"
  shows "sid_index (make_sid i g) = 65535 \<and> SendPacket chat_vtbl (sys e) (make_sid i g) p s = Some (False, s) \<and>
     Disconnect chat_vtbl (make_sid i g) s = Some (False, s)"
proof -
  note n = run_sessions [OF run e]
  have i': "i < 65536" using i n(2) by simp
  have "bit g 31" using g bit_last_iff [of g] by simp
  then show ?thesis using n sid_index_make_sid [OF i', of g]
    by (simp add: SendPacket_def Disconnect_def Let_def session_def)
qed

theorem negative_generation_loses_slot_witness:
  "sid_index (make_sid 0 0x80000000) = 65535 \<and>
   SendPacket chat_vtbl (sys sample_env) (make_sid 0 0x80000000) 0 sample_open = Some (False, sample_open)"
  using negative_generation_loses_slot [OF sample_open_run [of True] sample_env_ok, of 0 "0x80000000" 0]
  by (simp add: sample_open_def)

end
