(* ===== verification/NetProps.thy ===== *)
theory NetProps
  imports ServerProps
begin

text \<open>
  What the network side of the running server does with the bytes of its clients, and what its
  clients get: the receive path against the abstract stream parser, the send path against the stream
  of each connection, accepting and closing connections.
\<close>

section \<open>Receiving\<close>

text \<open>What a receive completion does, with the parser's answer on the whole unread stream.\<close>

definition received ::
    "chatenv \<Rightarrow> nat \<Rightarrow> bytes list \<times> frame_end \<times> bytes \<Rightarrow> CChatServer \<Rightarrow> CChatServer \<Rightarrow> bool" where
  "received e i out s s' \<longleftrightarrow> (case out of (ms, en, r) \<Rightarrow>
     let sid = sID (sessions s ! i);
       closes = (en \<noteq> NeedMore \<or> length r = 4095 \<or> \<not> wsa_ok (sys e) (wsa_calls s)) \<and> closeFlag (sessions s ! i) = 0
     in events s' = events s @ map (Received sid) ms @ (if closes then [Left sid] else []) \<and>
       ring_bytes (recvBuffer (sessions s' ! i)) = r \<and>
       (closeFlag (sessions s' ! i) = 0 \<longleftrightarrow> closeFlag (sessions s ! i) = 0 \<and> \<not> closes) \<and>
       (\<forall>j. j \<noteq> i \<longrightarrow> sessions s' ! j = sessions s ! j) \<and> outbox s' = outbox s \<and>
       players s' = players s \<and> roomManager s' = roomManager s)"

lemma recv_turn:
  assumes run: "chat_run e strict s" and e: "chatenv_ok e"
    and c: "completion_ok True (int (length data)) i RECV data s" and ne: "data \<noteq> []"
  shows "wp (io_completion chat_vtbl (sys e) True (int (length data)) i RECV data s)
     (received e i (parse (crypto (sys e)) (ring_bytes (recvBuffer (sessions s ! i)) @ data)) s)"
proof -
  obtain ms en r where p: "parse (crypto (sys e)) (ring_bytes (ring_of s i) @ data) = (ms, en, r)" by (metis prod_cases3)
  have E: "ossl_ok (crypto (sys e))" using e by (simp add: chatenv_ok_def)
  have p': "parse (crypto (sys e)) (ring_bytes (recvBuffer (sessions s ! i)) @ data) = (ms, en, r)"
    using p by (simp add: ring_of_def)
  show ?thesis unfolding p'
  proof (rule wp_mono [OF chat.io_completion_recv [OF chat_stateD [OF run_state(1) [OF run e]] c ne E p refl]])
    fix s'
    let ?cl = "en \<noteq> NeedMore \<or> length r = 4095 \<or> \<not> wsa_ok (sys e) (wsa_calls s)"
    assume s': "lan_state app_refs (app_ok (chat_rest s)) (\<not> strict) {} {} {#} {#} s' \<and> lan_frame i s s' \<and>
      outbox s' = outbox s \<and> pending s' i SEND = pending s i SEND \<and> ring_bytes (ring_of s' i) = r \<and>
      (closeFlag (sessions s' ! i) \<noteq> 0 \<longleftrightarrow> ?cl \<or> closeFlag (sessions s ! i) \<noteq> 0) \<and>
      app_log (CLanServer.more s') (unread_of (store s')) = app_log (CLanServer.more s) (unread_of (store s)) @
        map (Received (sID (sessions s ! i))) ms @ (if ?cl \<and> closeFlag (sessions s ! i) = 0 then [Left (sID (sessions s ! i))] else [])"
    then have "chat_rest s' = chat_rest s" by (simp add: chat_state_lan)
    note eq = chat_rest_eqD(1,2) [OF this]
    show "received e i (ms, en, r) s s'" using s' eq
      unfolding received_def Let_def prod.case log_events by (auto simp: lan_frame_def ring_of_def)
  qed
qed

text \<open>
  C5: The receive path implements the abstract parser. When data arrives on a connection, the
  worker's turn returns, announces exactly the messages that \<open>parse\<close> finds in the unread bytes followed
  by the new ones, in their order and under the session's identifier, keeps the rest in the ring, and
  closes the session (announcing that last) exactly when the stream is malformed, its ring is full or
  the next receive is refused. It touches no other session.
\<close>

theorem receive_refines_parse:
  assumes run: "chat_run e strict s" and e: "chatenv_ok e"
    and c: "completion_ok True (int (length data)) i RECV data s" and ne: "data \<noteq> []"
  shows "\<exists>s'. io_completion chat_vtbl (sys e) True (int (length data)) i RECV data s = Some s' \<and>
     received e i (parse (crypto (sys e)) (ring_bytes (recvBuffer (sessions s ! i)) @ data)) s s'"
  using recv_turn [OF assms] by (simp add: wp_iff)

lemma sample_completion:
  "length data \<le> 4095 \<Longrightarrow> completion_ok True (int (length data)) 0 RECV data sample_joined"
  by (simp add: completion_ok_def sample_joined_fields ring_of_def sample_session_def Session_new_def DirectEnqueueSize_def
      CRingBuffer_new_def RINGBUFFER_SIZE_def)

lemma sample_joined_ring [simp]: "ring_bytes (recvBuffer (sessions sample_joined ! 0)) = []"
  by (simp add: sample_joined_fields sample_session_def Session_new_def ring_bytes_def CRingBuffer_new_def UseSize_def)

theorem receive_refines_parse_witness:
  "\<exists>s'. io_completion chat_vtbl (sys sample_env) True 3 0 RECV [1, 2, 3] sample_joined = Some s' \<and>
     received sample_env 0 ([], NeedMore, [1, 2, 3]) sample_joined s'"
proof -
  have "parse (crypto (sys sample_env)) [1, 2, 3] = ([], NeedMore, [1, 2, 3])" by (subst parse.simps) simp
  then show ?thesis
    using receive_refines_parse [OF sample_joined_run [of True] sample_env_ok sample_completion [of "[1, 2, 3]"]] by simp
qed

text \<open>
  C7: How TCP cuts the stream does not matter: as long as the session stays open, two completions
  announce the same messages, leave the same bytes in the ring and close the session in the same case
  as one completion with both chunks.
\<close>

theorem chunks_do_not_matter:
  assumes run: "chat_run e strict s" and e: "chatenv_ok e" and w: "\<forall>n. wsa_ok (sys e) n"
    and c1: "completion_ok True (int (length xs)) i RECV xs s" "xs \<noteq> []"
    and r1: "io_completion chat_vtbl (sys e) True (int (length xs)) i RECV xs s = Some s1" "closeFlag (sessions s1 ! i) = 0"
    and c2: "completion_ok True (int (length ys)) i RECV ys s1" "ys \<noteq> []"
    and r2: "io_completion chat_vtbl (sys e) True (int (length ys)) i RECV ys s1 = Some s2"
    and c3: "completion_ok True (int (length (xs @ ys))) i RECV (xs @ ys) s"
    and r3: "io_completion chat_vtbl (sys e) True (int (length (xs @ ys))) i RECV (xs @ ys) s = Some s3"
  shows "events s3 = events s2 \<and> ring_bytes (recvBuffer (sessions s3 ! i)) = ring_bytes (recvBuffer (sessions s2 ! i)) \<and>
     (closeFlag (sessions s3 ! i) = 0 \<longleftrightarrow> closeFlag (sessions s2 ! i) = 0)"
proof -
  let ?E = "crypto (sys e)" and ?b = "ring_bytes (recvBuffer (sessions s ! i))"
  have run1: "chat_run e strict s1" by (rule chat_run.step [OF run chat_step.complete [OF c1(1) _ r1(1)]]) simp
  obtain ms en r where p1: "parse ?E (?b @ xs) = (ms, en, r)" by (metis prod_cases3)
  have q1: "received e i (ms, en, r) s s1" using wp_SomeD [OF recv_turn [OF run e c1] r1(1)] p1 by simp
  then have f: "en = NeedMore" "closeFlag (sessions s ! i) = 0" "length r \<noteq> 4095" "ring_bytes (recvBuffer (sessions s1 ! i)) = r"
      "events s1 = events s @ map (Received (sID (sessions s ! i))) ms"
    using r1(2) w by (auto simp: received_def Let_def split: if_splits)
  have sid: "sID (sessions s1 ! i) = sID (sessions s ! i)"
    using wp_SomeD [OF completion_chat [OF run_state(1) [OF run e] c1(1) e] r1(1)] by (simp add: lan_frame_def)
  obtain ms' en' r' where p2: "parse ?E (r @ ys) = (ms', en', r')" by (metis prod_cases3)
  have "received e i (ms', en', r') s1 s2" using wp_SomeD [OF recv_turn [OF run1 e c2] r2] p2 f(4) by simp
  moreover have "parse ?E (?b @ xs @ ys) = (ms @ ms', en', r')"
    using parse_append [of ?E "?b @ xs" ys] p1 p2 f(1) by simp
  then have "received e i (ms @ ms', en', r') s s3" using wp_SomeD [OF recv_turn [OF run e c3] r3] c1(2) by simp
  ultimately show ?thesis using f r1(2) w sid by (auto simp: received_def Let_def)
qed

text \<open>An open session can always be given at least one more byte.\<close>

lemma one_more_byte:
  assumes run: "chat_run e strict s" and e: "chatenv_ok e" and o: "open_slot s i"
    and n: "length (ring_bytes (recvBuffer (sessions s ! i))) < 4095"
  shows "completion_ok True 1 i RECV [b] s"
proof -
  have i: "i < length (sessions s)" "i \<notin> set (indexPool s)" "closeFlag (sessions s ! i) = 0" using o by (simp_all add: open_slot_def)
  note slot = run_slot [OF run e i(1)]
  have wf: "ring_wf (recvBuffer (sessions s ! i))" "maxSize (recvBuffer (sessions s ! i)) = 4096"
    using slot by (simp_all add: slot_ok_def session_wf_def)
  have "0 < pending s i RECV" using slot i by (simp add: slot_ok_def)
  then have io: "(i, RECV) \<in> set (iocp s)" by (simp add: pending_def)
  have "FreeSize (recvBuffer (sessions s ! i)) \<noteq> 0" using n wf by (simp add: FreeSize_def UseSize_length)
  then have "DirectEnqueueSize (recvBuffer (sessions s ! i)) \<noteq> 0" using DirectEnqueueSize_0_iff [OF wf(1)] by simp
  then show ?thesis using io DirectEnqueueSize_bounds [OF wf(1)] by (simp add: completion_ok_def ring_of_def)
qed

theorem chunks_do_not_matter_witness:
  "\<exists>s1 s2 s3. io_completion chat_vtbl (sys sample_env) True 1 0 RECV [1] sample_joined = Some s1 \<and>
     io_completion chat_vtbl (sys sample_env) True 1 0 RECV [2] s1 = Some s2 \<and>
     io_completion chat_vtbl (sys sample_env) True 2 0 RECV [1, 2] sample_joined = Some s3 \<and> events s3 = events s2"
proof -
  let ?x = "[1] :: bytes" and ?y = "[2] :: bytes"
  note j = sample_joined_run [of True] and e = sample_env_ok
  have short: "parse (crypto (sys sample_env)) xs = ([], NeedMore, xs)" if "length xs < 30" for xs
    using that by (subst parse.simps) simp
  have w: "wsa_ok (sys sample_env) n" for n by (simp add: sample_env_def)
  have cl: "closeFlag (sessions sample_joined ! 0) = 0" by (simp add: sample_joined_fields sample_session_def Session_new_def)
  obtain s1 where s1: "io_completion chat_vtbl (sys sample_env) True (int (length ?x)) 0 RECV ?x sample_joined = Some s1"
      "received sample_env 0 ([], NeedMore, [1]) sample_joined s1"
    using recv_turn [OF j e sample_completion [of ?x]] short by (auto simp: wp_iff)
  have cl1: "closeFlag (sessions s1 ! 0) = 0" "ring_bytes (recvBuffer (sessions s1 ! 0)) = [1]"
    using s1(2) w cl by (auto simp: received_def Let_def)
  have run1: "chat_run sample_env True s1"
    by (rule chat_run.step [OF j chat_step.complete [OF sample_completion [of ?x] _ s1(1)]]) simp_all
  have "lan_frame 0 sample_joined s1"
    using wp_SomeD [OF completion_chat [OF run_state(1) [OF j e] sample_completion [of ?x] e] s1(1)] by simp
  then have "open_slot s1 0" using cl1(1) by (auto simp: open_slot_def lan_frame_def sample_joined_fields)
  then have c2: "completion_ok True (int (length ?y)) 0 RECV ?y s1" using one_more_byte [OF run1 e] cl1(2) by simp
  obtain s2 where s2: "io_completion chat_vtbl (sys sample_env) True (int (length ?y)) 0 RECV ?y s1 = Some s2"
    using recv_turn [OF run1 e c2] by (auto simp: wp_iff)
  have c3: "completion_ok True (int (length (?x @ ?y))) 0 RECV (?x @ ?y) sample_joined" by (rule sample_completion) simp
  obtain s3 where s3: "io_completion chat_vtbl (sys sample_env) True (int (length (?x @ ?y))) 0 RECV (?x @ ?y) sample_joined = Some s3"
    using recv_turn [OF j e c3] by (auto simp: wp_iff)
  have "events s3 = events s2"
    using chunks_do_not_matter [OF j e _ sample_completion [of ?x] _ s1(1) cl1(1) c2 _ s2 c3 s3] w by simp
  with s1(1) s2 s3 show ?thesis by auto
qed

text \<open>
  C6: What a client encodes is what the handlers get: when complete frames of any messages of at most
  4066 bytes arrive on an open session with an empty ring (and Winsock keeps accepting calls), exactly
  these messages are announced, in order, and the session stays open.
\<close>

theorem frames_are_delivered:
  assumes run: "chat_run e strict s" and e: "chatenv_ok e" and w: "\<forall>n. wsa_ok (sys e) n"
    and o: "closeFlag (sessions s ! i) = 0" "ring_bytes (recvBuffer (sessions s ! i)) = []"
    and fs: "\<forall>(n, m) \<in> set fs. length n = 12 \<and> length m \<le> 4066" "fs \<noteq> []"
    and d: "data = concat (map (\<lambda>(n, m). frame (crypto (sys e)) n m) fs)"
    and c: "completion_ok True (int (length data)) i RECV data s"
  shows "\<exists>s'. io_completion chat_vtbl (sys e) True (int (length data)) i RECV data s = Some s' \<and>
     events s' = events s @ map (Received (sID (sessions s ! i))) (map snd fs) \<and>
     closeFlag (sessions s' ! i) = 0 \<and> ring_bytes (recvBuffer (sessions s' ! i)) = []"
proof -
  have E: "ossl_ok (crypto (sys e))" using e by (simp add: chatenv_ok_def)
  have "parse (crypto (sys e)) [] = ([], NeedMore, [])" by (subst parse.simps) simp
  then have p: "parse (crypto (sys e)) data = (map snd fs, NeedMore, [])"
    using parse_frames [OF E fs(1), of "[]"] by (simp add: d)
  obtain n m fs' where "fs = (n, m) # fs'" using fs(2) by (cases fs) auto
  then have ne: "data \<noteq> []" using length_frame [OF E, of n m] fs(1) d by (auto simp del: length_0_conv)
  show ?thesis using recv_turn [OF run e c ne] p o w by (auto simp: wp_iff received_def Let_def)
qed

theorem frames_are_delivered_witness:
  "\<exists>s'. events s' = [Received sample_sid sample_enter] \<and>
     io_completion chat_vtbl (sys sample_env) True 34 0 RECV (frame sample_ossl (replicate 12 7) sample_enter) sample_joined = Some s'"
proof -
  let ?d = "frame sample_ossl (replicate 12 7) sample_enter"
  have d: "length ?d = 34" using length_frame [OF sample_ossl_ok, of "replicate 12 7"] by (simp add: sample_enter_fields)
  have c: "completion_ok True (int (length ?d)) 0 RECV ?d sample_joined" by (rule sample_completion) (simp add: d)
  have s: "closeFlag (sessions sample_joined ! 0) = 0" "sID (sessions sample_joined ! 0) = sample_sid" "events sample_joined = []"
    by (simp_all add: sample_joined_fields sample_session_def Session_new_def events_def)
  have E: "crypto (sys sample_env) = sample_ossl" "\<forall>n. wsa_ok (sys sample_env) n" by (simp_all add: sample_env_def)
  show ?thesis
    using frames_are_delivered [OF sample_joined_run [of True] sample_env_ok E(2) s(1) _ _ _ _ c, of "[(replicate 12 7, sample_enter)]"]
    by (auto simp: E sample_enter_fields d s)
qed

text \<open>
  C8: A complete frame whose tag does not authenticate its header and cipher text reaches no handler:
  nothing is announced but the departure of the client, and the session is closed. The same holds for a
  header that promises more than 4066 bytes.
\<close>

theorem forged_frame_closes_session:
  assumes run: "chat_run e strict s" and e: "chatenv_ok e"
    and o: "closeFlag (sessions s ! i) = 0" "ring_bytes (recvBuffer (sessions s ! i)) = []"
    and d: "30 \<le> length data"
      "4066 < frame_len data \<or> 30 + frame_len data \<le> length data \<and> \<not> frame_valid (crypto (sys e)) data"
    and c: "completion_ok True (int (length data)) i RECV data s"
  shows "\<exists>s'. io_completion chat_vtbl (sys e) True (int (length data)) i RECV data s = Some s' \<and>
     events s' = events s @ [Left (sID (sessions s ! i))] \<and> closeFlag (sessions s' ! i) \<noteq> 0"
proof -
  have p: "\<exists>en r. parse (crypto (sys e)) data = ([], en, r) \<and> en \<noteq> NeedMore"
    using d by (subst parse.simps) auto
  have ne: "data \<noteq> []" using d(1) by auto
  show ?thesis using recv_turn [OF run e c ne] p o by (auto simp: wp_iff received_def Let_def)
qed

theorem forged_frame_closes_session_witness:
  "\<exists>s'. io_completion chat_vtbl (sys sample_env) True 30 0 RECV (0 # 0 # replicate 28 1) sample_joined = Some s' \<and>
     events s' = [Left sample_sid]"
proof -
  let ?d = "0 # 0 # replicate 28 1 :: bytes"
  have f: "frame_len ?d = 0" by (simp add: frame_len_def)
  have "frame_tag sample_ossl (take 14 ?d @ take 0 (drop 30 ?d)) ! 0 \<noteq> take 16 (drop 14 ?d) ! 0"
    by (simp add: frame_tag_def sample_ossl_def)
  then have v: "\<not> frame_valid sample_ossl ?d" unfolding frame_valid_def f by metis
  have c: "completion_ok True (int (length ?d)) 0 RECV ?d sample_joined" by (rule sample_completion) simp
  have s: "closeFlag (sessions sample_joined ! 0) = 0" "sID (sessions sample_joined ! 0) = sample_sid" "events sample_joined = []"
    by (simp_all add: sample_joined_fields sample_session_def Session_new_def events_def)
  have E: "crypto (sys sample_env) = sample_ossl" by (simp add: sample_env_def)
  show ?thesis using forged_frame_closes_session [OF sample_joined_run [of True] sample_env_ok s(1) _ _ _ c] f v s E by auto
qed

text \<open>
  C29: The largest frame the header check admits is never received: a message of 4066 bytes makes a
  frame of 4096 bytes, but the ring holds 4095, so the ring fills up with the frame unfinished and the
  session is closed.
\<close>

theorem largest_frame_closes_session:
  assumes run: "chat_run e strict s" and e: "chatenv_ok e"
    and o: "closeFlag (sessions s ! i) = 0" "ring_bytes (recvBuffer (sessions s ! i)) = []"
    and m: "length m = 4066" "length n = 12" and d: "data = take 4095 (frame (crypto (sys e)) n m)"
    and c: "completion_ok True (int (length data)) i RECV data s"
  shows "\<exists>s'. io_completion chat_vtbl (sys e) True (int (length data)) i RECV data s = Some s' \<and>
     events s' = events s @ [Left (sID (sessions s ! i))] \<and> closeFlag (sessions s' ! i) \<noteq> 0"
proof -
  have E: "ossl_ok (crypto (sys e))" using e by (simp add: chatenv_ok_def)
  have l: "length data = 4095" using length_frame [OF E m(2), of m] m(1) d by simp
  have "frame_len data = 4066"
    using frame_len_take [of 4095 "frame (crypto (sys e)) n m"] frame_len_frame [of m "crypto (sys e)" n "[]"] m(1) d by simp
  then have p: "parse (crypto (sys e)) data = ([], NeedMore, data)" using l by (subst parse.simps) simp
  have ne: "data \<noteq> []" using l by auto
  show ?thesis using recv_turn [OF run e c ne] p o l by (auto simp: wp_iff received_def Let_def)
qed

theorem largest_frame_closes_session_witness:
  "\<exists>s'. io_completion chat_vtbl (sys sample_env) True 4095 0 RECV
       (take 4095 (frame sample_ossl (replicate 12 7) (replicate 4066 0))) sample_joined = Some s' \<and> events s' = [Left sample_sid]"
proof -
  let ?d = "take 4095 (frame sample_ossl (replicate 12 7) (replicate 4066 0))"
  have l: "length ?d = 4095" using length_frame [OF sample_ossl_ok, of "replicate 12 7" "replicate 4066 0"] by simp
  have c: "completion_ok True (int (length ?d)) 0 RECV ?d sample_joined" by (rule sample_completion) (simp add: l)
  have s: "closeFlag (sessions sample_joined ! 0) = 0" "sID (sessions sample_joined ! 0) = sample_sid" "events sample_joined = []"
    by (simp_all add: sample_joined_fields sample_session_def Session_new_def events_def)
  have E: "crypto (sys sample_env) = sample_ossl" by (simp add: sample_env_def)
  show ?thesis
    using largest_frame_closes_session [OF sample_joined_run [of True] sample_env_ok s(1) _ _ _ _ c,
        of "replicate 4066 0" "replicate 12 7"] s E l by auto
qed

section \<open>Sending\<close>

text \<open>
  C9: \<open>SendPacket\<close> accepts a packet exactly when the identifier names an open session whose queue is
  not full. Then, if Winsock takes the call, the session stays open and the packet's bytes are appended
  to what the connection is given, behind everything sent before; no other connection gets anything.
  A session with a full queue is closed.
\<close>

theorem send_appends_to_stream:
  fixes e :: chatenv
  assumes st: "chat_state leak H s" and so: "socks_ok s" and p: "p \<in># H" and sid: "sid \<in> used_sids s"
  shows "\<exists>s'. SendPacket chat_vtbl (sys e) sid p s = Some (accepts sid s, s') \<and> chat_state leak H s' \<and>
     delivers (\<forall>n. wsa_ok (sys e) n) (slots_of [sid] s) (wire (packets (store s) ! p)) s s' \<and>
     (names sid s \<and> \<not> accepts sid s \<longrightarrow> closeFlag (sessions s' ! sid_index sid) \<noteq> 0)"
proof -
  have D: "sid_index sid \<notin> {}" by simp
  obtain s' where s': "SendPacket chat_vtbl (sys e) sid p s = Some (accepts sid s, s')"
      "\<not> accepts sid s \<longrightarrow> s' = s \<and> \<not> names sid s \<or> closeFlag (sessions s' ! sid_index sid) \<noteq> 0"
    using chat.SendPacket_ok [OF chat_stateD [OF st] sid p D, of "sys e"] by (auto simp: wp_iff split: if_splits)
  have "chat_send e sid p s = Some s'" using s'(1) by (simp add: chat_send_def)
  with wp_SomeD [OF chat_send_ok [OF st p sid, of e]] so s' show ?thesis by auto
qed

text \<open>A packet for the sample connection: accepted, with a send outstanding.\<close>

lemma sample_send:
  obtains p s where "alloc_pkt sample_joined = (p, s)" "chat_state False {#p#} s" "socks_ok s" "sample_sid \<in> used_sids s"
    "accepts sample_sid s" "open_slot s 0" "slots_of [sample_sid] s = {0}" "sqCount (sessions s ! 0) < Qsize" "sid_index sample_sid = 0"
proof -
  note st = run_state [OF sample_joined_run [of True] sample_env_ok]
  obtain p s where al: "alloc_pkt sample_joined = (p, s)" by fastforce
  note a = alloc_pkt_ok [OF st(1) al]
  have s: "chat_state False {#p#} s" "sessions s = [sample_session]" "indexPool s = []" "socks_ok s"
    using a(1,2) st(2) pkt_step_socks [OF a(2)] by (simp_all add: building_def pkt_step_def sample_joined_fields)
  have ix: "sid_index sample_sid = 0" "sid_gen sample_sid = 1"
    by (simp_all add: sample_sid_def sid_index_make_sid sid_gen_make_sid bit_1_iff)
  have "sample_sid \<in> used_sids s" unfolding sample_sid_def by (rule make_sid_used) (simp_all add: s)
  moreover have "accepts sample_sid s" "open_slot s 0" "slots_of [sample_sid] s = {0}" "sqCount (sessions s ! 0) < Qsize"
    by (auto simp: accepts_def names_def open_slot_def slots_of_def s ix sample_session_def Session_new_def Qsize_def)
  ultimately show ?thesis using that al s ix(1) by blast
qed

theorem send_appends_to_stream_witness:
  "\<exists>p s s'. alloc_pkt sample_joined = (p, s) \<and> SendPacket chat_vtbl (sys sample_env) sample_sid p s = Some (True, s') \<and>
     conn_stream s' 0 = conn_stream s 0 @ wire (packets (store s) ! p)"
proof -
  obtain p s where s: "alloc_pkt sample_joined = (p, s)" "chat_state False {#p#} s" "socks_ok s" "sample_sid \<in> used_sids s"
    "accepts sample_sid s" "open_slot s 0" "slots_of [sample_sid] s = {0}" "sqCount (sessions s ! 0) < Qsize"
    by (rule sample_send)
  have w: "\<forall>n. wsa_ok (sys sample_env) n" by (simp add: sample_env_def)
  obtain s' where s': "SendPacket chat_vtbl (sys sample_env) sample_sid p s = Some (True, s')"
      "delivers True {0} (wire (packets (store s) ! p)) s s'"
    using send_appends_to_stream [OF s(2,3) _ s(4), of p sample_env] s(5,7) w by auto
  have "open_slot s' 0" using deliversD(4) [OF s'(2) s(6)] s(8) by simp
  then have "conn_stream s' 0 = conn_stream s 0 @ wire (packets (store s) ! p)" using deliversD(3) [OF s'(2)] by simp
  with s(1) s'(1) show ?thesis by blast
qed



section \<open>Accepting\<close>

text \<open>
  C11: A new connection takes the slot on top of the pool, under an identifier made of the slot and a
  fresh generation, and is announced once; if the port or the first receive refuses it, it is announced
  as gone as well and the slot stays closed. With no free slot the connection is dropped and nothing
  changes. No other session, player or room is touched.
\<close>

theorem accept_opens_slot:
  assumes run: "chat_run e strict s" and e: "chatenv_ok e" and sk: "\<forall>i. open_slot s i \<longrightarrow> sock (sessions s ! i) \<noteq> sk"
  shows "\<exists>s'. AcceptThread_turn chat_vtbl (sys e) sk ip port assoc s = Some s' \<and>
     (case indexPool s of [] \<Rightarrow> s' = s
      | i # ps \<Rightarrow> let sid = make_sid i (generation (sessions s ! i) + 1) in
        (if assoc \<and> wsa_ok (sys e) (wsa_calls s)
         then events s' = events s @ [Joined sid] \<and> open_slot s' i \<and> sID (sessions s' ! i) = sid \<and>
           sock (sessions s' ! i) = sk \<and> ring_bytes (recvBuffer (sessions s' ! i)) = []
         else events s' = events s @ (if assoc then [Joined sid] else []) @ [Left sid] \<and> \<not> open_slot s' i) \<and>
        (\<forall>j. j \<noteq> i \<longrightarrow> sessions s' ! j = sessions s ! j) \<and> players s' = players s \<and> roomManager s' = roomManager s)"
proof -
  note st = run_state [OF run e]
  obtain s' where s': "AcceptThread_turn chat_vtbl (sys e) sk ip port assoc s = Some s'" "chat_state (\<not> strict) {#} s'"
      "chat_rest s' = chat_rest s" "accept_post events True assoc (wsa_ok (sys e) (wsa_calls s)) sk s s'"
    using accept_chat [OF st sk, of e ip port assoc] by (auto simp: wp_iff)
  show ?thesis
  proof (cases "indexPool s")
    case Nil
    then show ?thesis using s'(1,4) by (simp add: accept_post_def)
  next
    case (Cons i ps)
    have i: "i < length (sessions s)" using st(1) Cons by (auto simp: chat_state_def lan_inv_def)
    have "lan_inv (\<not> strict) {} {} {#} (mset (msg_pkts (contentQ s'))) s'" using s'(2) by (simp add: chat_state_def)
    note slot = lan_inv_slot [OF this, of i]
    have post: "length (sessions s') = length (sessions s)" "generation (sessions s' ! i) = generation (sessions s ! i) + 1"
        "\<forall>j. j \<noteq> i \<longrightarrow> sessions s' ! j = sessions s ! j"
        "if assoc \<and> wsa_ok (sys e) (wsa_calls s)
         then events s' = events s @ [Joined (make_sid i (generation (sessions s ! i) + 1))] \<and> closeFlag (sessions s' ! i) = 0 \<and>
           sock (sessions s' ! i) = sk \<and> ring_bytes (ring_of s' i) = [] \<and> i \<notin> set (indexPool s')
         else events s' = events s @ (if assoc then [Joined (make_sid i (generation (sessions s ! i) + 1))] else []) @
           [Left (make_sid i (generation (sessions s ! i) + 1))] \<and> closeFlag (sessions s' ! i) \<noteq> 0"
      using s'(4) Cons by (simp_all add: accept_post_def Let_def)
    have "i \<notin> set (indexPool s') \<longrightarrow> sID (sessions s' ! i) = make_sid i (generation (sessions s ! i) + 1)"
      using slot i post(1,2) by (simp add: slot_ok_def)
    then show ?thesis using s'(1) post i Cons chat_rest_eqD(1,2) [OF s'(3)]
      by (simp add: Let_def open_slot_def ring_of_def split: if_splits)
  qed
qed

theorem accept_opens_slot_witness:
  "\<exists>s'. AcceptThread_turn chat_vtbl (sys sample_env) 77 [] 0 True sample_boot = Some s' \<and>
     events s' = [Joined (make_sid 0 1)] \<and> open_slot s' 0"
  using accept_opens_slot [OF sample_boot_run [of True] sample_env_ok, of 77 "[]" 0 True]
  by (auto simp: open_slot_def sample_env_def events_def Session_new_def Let_def)

end
