(* ===== verification/ChatProps.thy ===== *)
theory ChatProps
  imports NetProps
begin

text \<open>
  What the handlers of the chat server do for the clients of a running server: chat messages, rooms,
  accounts and departures, and what happens when the server stops.
\<close>

section \<open>Requests\<close>

text \<open>The oldest event is a packet with the type \<open>ty\<close>: what the update thread makes of it.\<close>

lemma request_turn:
  assumes run: "chat_run e strict s" and e: "chatenv_ok e" and q: "contentQ s = m # q"
    and m: "msg_type m = MSG_RECV" "msg_pkt m = Some p" and u: "unread_of (store s) p = WORD_bytes ty @ body"
  obtains s1 s2 s' H where "handle_msg e m (s\<lparr>contentQ := q\<rparr>) = Some s'" "silent (\<not> strict) H (s\<lparr>contentQ := q\<rparr>) s1"
    "request_effect (\<not> strict) H e (msg_sid m) ty body s1 s2" "silent (\<not> strict) {#} s2 s'" "socks_ok s1"
proof -
  note st = run_state [OF run e]
  note pop = chat_state_pop [OF st(1) q]
  have ok: "msg_ok (used_sids (s\<lparr>contentQ := q\<rparr>)) m" using pop(2) by simp
  have ev: "msg_event (unread_of (store (s\<lparr>contentQ := q\<rparr>))) m = Received (msg_sid m) (WORD_bytes ty @ body)"
    using m u by (simp add: msg_event_def)
  obtain s' where s': "handle_msg e m (s\<lparr>contentQ := q\<rparr>) = Some s'"
      "event_effect (\<not> strict) e (Received (msg_sid m) (WORD_bytes ty @ body)) (s\<lparr>contentQ := q\<rparr>) s'"
    using handle_msg_ok [OF pop(1) ok e pop(3)] unfolding ev by (auto simp: wp_iff)
  have ty: "2 \<le> length (WORD_bytes ty @ body)" "le_to_word (take 2 (WORD_bytes ty @ body)) = ty" "drop 2 (WORD_bytes ty @ body) = body"
    by (simp_all add: WORD_bytes_def)
  obtain p' s1 s2 where r: "silent (\<not> strict) {#p'#} (s\<lparr>contentQ := q\<rparr>) s1"
      "request_effect (\<not> strict) {#p'#} e (msg_sid m) ty body s1 s2" "silent (\<not> strict) {#} s2 s'"
    using s'(2) ty unfolding event_effect_def by auto
  have "socks_ok (s\<lparr>contentQ := q\<rparr>)" using st(2) by (simp add: socks_ok_def open_slot_def)
  then have "socks_ok s1" using r(1) pkt_step_socks by (auto simp: silent_def)
  then show ?thesis using that s'(1) r by blast
qed

lemma told_turn:
  assumes a: "silent L H s s1" and t: "told L H' e sids bs s1 s2" and b: "silent L H'' s2 s'" and so: "socks_ok s1"
  shows "delivers (wsa_all e) (slots_of sids s) (sealing e s bs) s s'"
    and "players s' = players s1" and "objects s' = objects s1" and "roomManager s' = roomManager s1"
    and "dbWorker s' = dbWorker s1"
proof -
  have p: "pkt_step s s1" "rand_calls s1 = rand_calls s" "pkt_step s2 s'" using a b by (simp_all add: silent_def)
  have "delivers (wsa_all e) (slots_of sids s1) (sealing e s1 bs) s1 s2" using t so by (simp add: told_def)
  then show "delivers (wsa_all e) (slots_of sids s) (sealing e s bs) s s'"
    using delivers_then_step [OF delivers_step [OF p(1)] p(3)] pkt_step_slots_of [OF p(1), of sids] p(2)
    by (simp add: sealing_def)
  show "players s' = players s1" "objects s' = objects s1" "roomManager s' = roomManager s1" "dbWorker s' = dbWorker s1"
    using told_parts [OF t] silent_parts [OF b] by simp_all
qed

lemma in_room_step: "pkt_step s s' \<Longrightarrow> in_room sid s' = in_room sid s"
proof -
  assume st: "pkt_step s s'"
  have "player s' = player s" "players s' = players s" using pkt_step_look [OF st] st by (simp_all add: pkt_step_def)
  then show ?thesis by (simp add: in_room_def)
qed

lemma in_room_contentQ [simp]: "in_room sid (s\<lparr>contentQ := q\<rparr>) = in_room sid s"
proof -
  have "player (s\<lparr>contentQ := q\<rparr>) = player s" by (simp add: fun_eq_iff player_def)
  then show ?thesis by (simp add: in_room_def)
qed

lemma slots_of_contentQ [simp]: "slots_of sids (s\<lparr>contentQ := q\<rparr>) = slots_of sids s"
  by (simp add: slots_of_def)

lemma sealing_contentQ [simp]: "sealing e (s\<lparr>contentQ := q\<rparr>) bs = sealing e s bs"
  by (simp add: sealing_def)

lemma chat_reply_in_room:
  "chat_reply sid body s = (case in_room sid s of None \<Rightarrow> None
     | Some (ptr, pl, k) \<Rightarrow> Some (map fst (users (roomManager s ! k)), WORD_bytes (type_val SC_CHAT_RES) @ GetNickname pl @ body))"
  by (auto simp: chat_reply_def in_room_def bind_eq_Some_conv split: option.splits Option.bind_splits)

section \<open>Chat\<close>

lemma request_chat:
  assumes "request_effect leak H e sid (type_val CS_CHAT_REQ) (WORD_bytes n @ text) s s'"
  obtains chat where "replied leak H e (if uint n > 256 then None else chat_reply sid (WORD_bytes n @ chat) s) s s'"
    "unat n \<le> length text \<Longrightarrow> chat = take (unat n) text"
    "uint n \<le> 256 \<Longrightarrow> length text < unat n \<Longrightarrow> \<exists>j. chat = map (junk e j) [0..<unat n]"
proof -
  obtain n' chat where c: "replied leak H e (if uint n' > 256 then None else chat_reply sid (WORD_bytes n' @ chat) s) s s'"
      "2 \<le> length (WORD_bytes n @ text) \<longrightarrow> n' = le_to_word (take 2 (WORD_bytes n @ text))"
      "2 + unat n' \<le> length (WORD_bytes n @ text) \<longrightarrow> chat = take (unat n') (drop 2 (WORD_bytes n @ text))"
      "uint n' \<le> 256 \<and> 2 \<le> length (WORD_bytes n @ text) \<and> length (WORD_bytes n @ text) < 2 + unat n' \<longrightarrow>
        (\<exists>j. chat = map (junk e j) [0..<unat n'])"
    using assms by (simp add: request_effect_def) blast
  have n: "n' = n" using c(2) by (simp add: WORD_bytes_def)
  show ?thesis by (rule that [of chat]) (use c(1,3,4) in \<open>auto simp: n\<close>)
qed

text \<open>
  C12: A chat message of at most 256 bytes from a member of a room reaches exactly the members of that
  room: every member's connection is given, behind everything given to it before, one frame with the
  sender's name, the length and the text; every other connection gets nothing. Nobody's state changes,
  and as long as Winsock accepts calls every member whose send queue is not full stays connected.
\<close>

theorem chat_is_broadcast:
  assumes run: "chat_run e strict s" and e: "chatenv_ok e" and q: "contentQ s = m # q"
    and m: "msg_type m = MSG_RECV" "msg_pkt m = Some p"
    and u: "unread_of (store s) p = WORD_bytes (type_val CS_CHAT_REQ) @ WORD_bytes n @ text"
    and n: "unat n = length text" "length text \<le> 256"
    and room: "in_room (msg_sid m) s = Some (ptr, pl, k)"
  shows "\<exists>s'. handle_msg e m (s\<lparr>contentQ := q\<rparr>) = Some s' \<and>
     delivers (\<forall>n. wsa_ok (sys e) n) (slots_of (map fst (GetUsers (roomManager s ! k))) s)
       (frame (crypto (sys e)) (rand (sys e) (rand_calls s))
         (WORD_bytes (type_val SC_CHAT_RES) @ GetNickname pl @ WORD_bytes n @ text)) (s\<lparr>contentQ := q\<rparr>) s' \<and>
     players s' = players s \<and> objects s' = objects s \<and> roomManager s' = roomManager s \<and> dbWorker s' = dbWorker s"
proof -
  obtain s1 s2 s' H where r: "handle_msg e m (s\<lparr>contentQ := q\<rparr>) = Some s'" "silent (\<not> strict) H (s\<lparr>contentQ := q\<rparr>) s1"
      "request_effect (\<not> strict) H e (msg_sid m) (type_val CS_CHAT_REQ) (WORD_bytes n @ text) s1 s2"
      "silent (\<not> strict) {#} s2 s'" "socks_ok s1"
    by (rule request_turn [OF run e q m u])
  have ps: "pkt_step (s\<lparr>contentQ := q\<rparr>) s1" using r(2) by (simp add: silent_def)
  have nn: "\<not> 256 < uint n" using n uint_nat [of n] by linarith
  obtain chat where c: "replied (\<not> strict) H e (if uint n > 256 then None else chat_reply (msg_sid m) (WORD_bytes n @ chat) s1) s1 s2"
      "unat n \<le> length text \<Longrightarrow> chat = take (unat n) text"
    by (rule request_chat [OF r(3)]) blast
  then have "replied (\<not> strict) H e (chat_reply (msg_sid m) (WORD_bytes n @ text) s1) s1 s2" using n nn by simp
  then have t: "told (\<not> strict) H e (map fst (users (roomManager s ! k)))
      (WORD_bytes (type_val SC_CHAT_RES) @ GetNickname pl @ WORD_bytes n @ text) s1 s2"
    using room in_room_step [OF ps] ps by (simp add: chat_reply_in_room pkt_step_def)
  note tt = told_turn [OF r(2) t r(4,5)]
  show ?thesis using r(1) tt ps by (auto simp: sealing_def GetUsers_def pkt_step_def)
qed

lemma sample_word [simp]: "length (WORD_bytes w) = 2" "le_to_word (WORD_bytes w) = w"
  by (simp_all add: WORD_bytes_def)

theorem chat_is_broadcast_witness:
  "\<exists>s m q pl s'. chat_run sample_env True s \<and> in_room sample_sid s = Some (0, pl, 0) \<and>
     handle_msg sample_env m (s\<lparr>contentQ := q\<rparr>) = Some s' \<and>
     delivers True (slots_of [sample_sid] s) (frame sample_ossl (replicate 12 7)
       (WORD_bytes (type_val SC_CHAT_RES) @ GetNickname pl @ WORD_bytes 2 @ [104, 105])) (s\<lparr>contentQ := q\<rparr>) s'"
proof -
  let ?u = "WORD_bytes (type_val CS_CHAT_REQ) @ WORD_bytes 2 @ [104, 105]"
  obtain s m p q pl where s: "chat_run sample_env True s" "contentQ s = m # q" "msg_pkt m = Some p" "msg_sid m = sample_sid"
      "msg_type m = MSG_RECV" "unread_of (store s) p = ?u" "in_room sample_sid s = Some (0, pl, 0)"
      "users (roomManager s ! 0) = [(sample_sid, 0)]"
    by (rule sample_room_request [of ?u]) simp_all
  have w: "(\<forall>n. wsa_ok (sys sample_env) n) = True" "crypto (sys sample_env) = sample_ossl" "rand (sys sample_env) n = replicate 12 7" for n
    by (simp_all add: sample_env_def)
  have r: "in_room (msg_sid m) s = Some (0, pl, 0)" using s(4,7) by simp
  obtain s' where "handle_msg sample_env m (s\<lparr>contentQ := q\<rparr>) = Some s'" "delivers True (slots_of [sample_sid] s) (frame sample_ossl (replicate 12 7)
       (WORD_bytes (type_val SC_CHAT_RES) @ GetNickname pl @ WORD_bytes 2 @ [104, 105])) (s\<lparr>contentQ := q\<rparr>) s'"
    using chat_is_broadcast [OF s(1) sample_env_ok s(2,5,3,6) _ _ r] s(8) w by (auto simp: GetUsers_def)
  with s(1,7) show ?thesis by (intro exI conjI)
qed

text \<open>
  C26: A chat message from a client that is in no room, or with a length field above 256, is dropped:
  nobody is sent anything, no session is touched, no event is added, players, rooms and jobs stay as
  they are.
\<close>

theorem chat_is_dropped:
  assumes run: "chat_run e strict s" and e: "chatenv_ok e" and q: "contentQ s = m # q"
    and m: "msg_type m = MSG_RECV" "msg_pkt m = Some p"
    and u: "unread_of (store s) p = WORD_bytes (type_val CS_CHAT_REQ) @ WORD_bytes n @ text"
    and no: "256 < uint n \<or> in_room (msg_sid m) s = None"
  shows "\<exists>s'. handle_msg e m (s\<lparr>contentQ := q\<rparr>) = Some s' \<and> sessions s' = sessions s \<and> outbox s' = outbox s \<and>
     events s' = tl (events s) \<and> players s' = players s \<and> objects s' = objects s \<and>
     roomManager s' = roomManager s \<and> dbWorker s' = dbWorker s"
proof -
  obtain s1 s2 s' H where r: "handle_msg e m (s\<lparr>contentQ := q\<rparr>) = Some s'" "silent (\<not> strict) H (s\<lparr>contentQ := q\<rparr>) s1"
      "request_effect (\<not> strict) H e (msg_sid m) (type_val CS_CHAT_REQ) (WORD_bytes n @ text) s1 s2"
      "silent (\<not> strict) {#} s2 s'"
    by (rule request_turn [OF run e q m u])
  have ps: "pkt_step (s\<lparr>contentQ := q\<rparr>) s1" using r(2) by (simp add: silent_def)
  obtain chat where "replied (\<not> strict) H e (if uint n > 256 then None else chat_reply (msg_sid m) (WORD_bytes n @ chat) s1) s1 s2"
    by (rule request_chat [OF r(3)])
  then have "silent (\<not> strict) H s1 s2"
    using no in_room_step [OF ps, of "msg_sid m"] by (auto simp: chat_reply_in_room split: if_splits)
  then have "pkt_step (s\<lparr>contentQ := q\<rparr>) s'" using ps r(4) pkt_step_trans by (auto simp: silent_def)
  moreover have "events (s\<lparr>contentQ := q\<rparr>) = tl (events s)" using q by (simp add: events_def)
  ultimately show ?thesis using r(1) by (simp add: pkt_step_def)
qed

theorem chat_is_dropped_witness:
  "\<exists>s m q s'. chat_run sample_env True s \<and> handle_msg sample_env m (s\<lparr>contentQ := q\<rparr>) = Some s' \<and> outbox s' = outbox s"
proof -
  let ?u = "WORD_bytes (type_val CS_CHAT_REQ) @ WORD_bytes 2 @ [104, 105]"
  obtain s m p where s: "chat_run sample_env True s" "contentQ s = [m]" "msg_pkt m = Some p" "msg_sid m = sample_sid"
      "msg_type m = MSG_RECV" "unread_of (store s) p = ?u" "chat_rest s = chat_rest sample_joined"
    by (rule sample_request [of ?u]) simp_all
  have "in_room (msg_sid m) s = None"
    using chat_rest_eqD(2,3) [OF s(7)] by (simp add: in_room_def player_def s(4) sample_joined_fields GetState_def CPlayer_new_def)
  then show ?thesis using chat_is_dropped [OF s(1) sample_env_ok s(2,5,3,6)] s(1) by auto
qed

text \<open>
  C30: A length field that promises more text than the packet has is not checked: the handler
  broadcasts as many bytes as promised from its uninitialised stack buffer to the whole room.
\<close>

theorem chat_overread_leaks_memory:
  assumes run: "chat_run e strict s" and e: "chatenv_ok e" and q: "contentQ s = m # q"
    and m: "msg_type m = MSG_RECV" "msg_pkt m = Some p"
    and u: "unread_of (store s) p = WORD_bytes (type_val CS_CHAT_REQ) @ WORD_bytes n @ text"
    and n: "length text < unat n" "unat n \<le> 256"
    and room: "in_room (msg_sid m) s = Some (ptr, pl, k)"
  shows "\<exists>s' j. handle_msg e m (s\<lparr>contentQ := q\<rparr>) = Some s' \<and>
     delivers (\<forall>n. wsa_ok (sys e) n) (slots_of (map fst (GetUsers (roomManager s ! k))) s)
       (frame (crypto (sys e)) (rand (sys e) (rand_calls s))
         (WORD_bytes (type_val SC_CHAT_RES) @ GetNickname pl @ WORD_bytes n @ map (junk e j) [0..<unat n])) (s\<lparr>contentQ := q\<rparr>) s'"
proof -
  obtain s1 s2 s' H where r: "handle_msg e m (s\<lparr>contentQ := q\<rparr>) = Some s'" "silent (\<not> strict) H (s\<lparr>contentQ := q\<rparr>) s1"
      "request_effect (\<not> strict) H e (msg_sid m) (type_val CS_CHAT_REQ) (WORD_bytes n @ text) s1 s2"
      "silent (\<not> strict) {#} s2 s'" "socks_ok s1"
    by (rule request_turn [OF run e q m u])
  have ps: "pkt_step (s\<lparr>contentQ := q\<rparr>) s1" using r(2) by (simp add: silent_def)
  have nn: "\<not> 256 < uint n" "uint n \<le> 256" using n uint_nat [of n] by linarith+
  obtain chat where c: "replied (\<not> strict) H e (if uint n > 256 then None else chat_reply (msg_sid m) (WORD_bytes n @ chat) s1) s1 s2"
      "uint n \<le> 256 \<Longrightarrow> length text < unat n \<Longrightarrow> \<exists>j. chat = map (junk e j) [0..<unat n]"
    by (rule request_chat [OF r(3)]) blast
  obtain j where j: "chat = map (junk e j) [0..<unat n]" using c(2) [OF nn(2) n(1)] by blast
  have t: "told (\<not> strict) H e (map fst (users (roomManager s ! k)))
      (WORD_bytes (type_val SC_CHAT_RES) @ GetNickname pl @ WORD_bytes n @ chat) s1 s2"
    using c(1) nn room in_room_step [OF ps] ps by (simp add: chat_reply_in_room pkt_step_def)
  show ?thesis using r(1) told_turn(1) [OF r(2) t r(4,5)] by (auto simp: sealing_def GetUsers_def j)
qed

theorem chat_overread_leaks_memory_witness:
  "\<exists>s m q pl s'. chat_run sample_env True s \<and> handle_msg sample_env m (s\<lparr>contentQ := q\<rparr>) = Some s' \<and>
     delivers True (slots_of [sample_sid] s) (frame sample_ossl (replicate 12 7)
       (WORD_bytes (type_val SC_CHAT_RES) @ GetNickname pl @ WORD_bytes 3 @ [0xCC, 0xCC, 0xCC])) (s\<lparr>contentQ := q\<rparr>) s'"
proof -
  let ?u = "WORD_bytes (type_val CS_CHAT_REQ) @ WORD_bytes 3 @ []"
  obtain s m p q pl where s: "chat_run sample_env True s" "contentQ s = m # q" "msg_pkt m = Some p" "msg_sid m = sample_sid"
      "msg_type m = MSG_RECV" "unread_of (store s) p = ?u" "in_room sample_sid s = Some (0, pl, 0)"
      "users (roomManager s ! 0) = [(sample_sid, 0)]"
    by (rule sample_room_request [of ?u]) simp_all
  have w: "(\<forall>n. wsa_ok (sys sample_env) n) = True" "crypto (sys sample_env) = sample_ossl" "rand (sys sample_env) n = replicate 12 7"
      "map (junk sample_env j) [0..<unat (3 :: WORD)] = [0xCC, 0xCC, 0xCC]" for n j
    by (simp_all add: sample_env_def upt_rec)
  have r: "in_room (msg_sid m) s = Some (0, pl, 0)" using s(4,7) by simp
  obtain s' where "handle_msg sample_env m (s\<lparr>contentQ := q\<rparr>) = Some s'" "delivers True (slots_of [sample_sid] s) (frame sample_ossl (replicate 12 7)
       (WORD_bytes (type_val SC_CHAT_RES) @ GetNickname pl @ WORD_bytes 3 @ [0xCC, 0xCC, 0xCC])) (s\<lparr>contentQ := q\<rparr>) s'"
    using chat_overread_leaks_memory [OF s(1) sample_env_ok s(2,5,3,6) _ _ r] s(8) w by (auto simp: GetUsers_def)
  with s(1) show ?thesis by (intro exI conjI)
qed

section \<open>Rooms\<close>

text \<open>Changes of players and rooms do not change what the connections get.\<close>

lemma delivers_cong:
  assumes "sessions s' = sessions s" "indexPool s' = indexPool s" "outbox s' = outbox s" "store s' = store s"
  shows "delivers ok T w s' u = delivers ok T w s u"
  using assms by (simp add: delivers_def open_slot_def conn_stream_def out_to_def)

lemma entered_room_engine:
  "sessions (entered_room sid ptr pl no k s) = sessions s" "indexPool (entered_room sid ptr pl no k s) = indexPool s"
  "outbox (entered_room sid ptr pl no k s) = outbox s" "store (entered_room sid ptr pl no k s) = store s"
  "rand_calls (entered_room sid ptr pl no k s) = rand_calls s" "players (entered_room sid ptr pl no k s) = players s"
  "objects (entered_room sid ptr pl no k s) = (objects s)[ptr := Some (snd (player_EnterRoom pl no))]"
  "roomManager (entered_room sid ptr pl no k s) = (roomManager s)[k := snd (room_EnterRoom (roomManager s ! k) sid ptr)]"
  by (simp_all add: entered_room_def set_player_def set_room_def)

lemma left_room_engine:
  "sessions (left_room sid ptr pl k s) = sessions s" "indexPool (left_room sid ptr pl k s) = indexPool s"
  "outbox (left_room sid ptr pl k s) = outbox s" "store (left_room sid ptr pl k s) = store s"
  "rand_calls (left_room sid ptr pl k s) = rand_calls s" "players (left_room sid ptr pl k s) = players s"
  "objects (left_room sid ptr pl k s) = (objects s)[ptr := Some (snd (player_LeaveRoom pl))]"
  "roomManager (left_room sid ptr pl k s) = (roomManager s)[k := snd (room_LeaveRoom (roomManager s ! k) sid)]"
  by (simp_all add: left_room_def set_player_def set_room_def)

lemma request_enter:
  assumes "request_effect leak H e sid (type_val CS_ROOM_ENTER_REQ) (WORD_bytes no @ rest) s s'"
  obtains s1 where "silent leak H s s1" "enter_effect leak H e sid no s1 s'"
proof -
  obtain no' s1 where c: "silent leak H s s1" "enter_effect leak H e sid no' s1 s'"
      "2 \<le> length (WORD_bytes no @ rest) \<longrightarrow> no' = le_to_word (take 2 (WORD_bytes no @ rest))"
    using assms by (simp add: request_effect_def) blast
  have no: "no' = no" using c(3) by simp
  show ?thesis by (rule that [of s1]) (use c(1,2) in \<open>simp_all add: no\<close>)
qed

lemma room_EnterRoom_new:
  assumes "GetUserCount r < 50" and "sid \<notin> set (map fst (GetUsers r))"
  shows "fst (room_EnterRoom r sid ptr)" and "users (snd (room_EnterRoom r sid ptr)) = users r @ [(sid, ptr)]"
proof -
  have "map_of (users r) sid = None" using assms(2) by (simp add: GetUsers_def map_of_eq_None_iff)
  then show "fst (room_EnterRoom r sid ptr)" "users (snd (room_EnterRoom r sid ptr)) = users r @ [(sid, ptr)]"
    using assms(1) by (simp_all add: room_EnterRoom_def umap_insert_def GetUserCount_def MAX_LIMIT_PERSON_def del: umap_find_None)
qed

text \<open>A valid request to enter a room, up to the point where the room lists the player.\<close>

lemma enter_turn:
  assumes run: "chat_run e strict s" and e: "chatenv_ok e" and q: "contentQ s = m # q"
    and m: "msg_type m = MSG_RECV" "msg_pkt m = Some p"
    and u: "unread_of (store s) p = WORD_bytes (type_val CS_ROOM_ENTER_REQ) @ WORD_bytes no @ rest"
    and pl: "map_of (players s) (msg_sid m) = Some ptr" "player s ptr = Some pl" and k: "GetRoom no = Some k"
    and r: "GetUserCount (roomManager s ! k) < 50" "msg_sid m \<notin> set (map fst (GetUsers (roomManager s ! k)))"
  obtains s1 s2 s' H where "handle_msg e m (s\<lparr>contentQ := q\<rparr>) = Some s'" "pkt_step (s\<lparr>contentQ := q\<rparr>) s1"
    "rand_calls s1 = rand_calls s" "silent (\<not> strict) {#} s2 s'" "socks_ok s1" "chat_state (\<not> strict) H s1"
    "if GetState pl = PS_IN_ROOM then s2 = entered_room (msg_sid m) ptr pl no k s1
     else \<exists>s3. told (\<not> strict) H e [msg_sid m]
             (WORD_bytes (type_val SC_ROOM_ENTER_RES) @ BYTE_bytes (result_val RESULT_SUCCESS) @ WORD_bytes no)
             (entered_room (msg_sid m) ptr pl no k s1) s3 \<and>
           told (\<not> strict) H e (map fst (users (roomManager s ! k))) (WORD_bytes (type_val SC_USER_JOIN) @ GetNickname pl) s3 s2"
proof -
  obtain s0 s2 s' H where t: "handle_msg e m (s\<lparr>contentQ := q\<rparr>) = Some s'" "silent (\<not> strict) H (s\<lparr>contentQ := q\<rparr>) s0"
      "request_effect (\<not> strict) H e (msg_sid m) (type_val CS_ROOM_ENTER_REQ) (WORD_bytes no @ rest) s0 s2"
      "silent (\<not> strict) {#} s2 s'" "socks_ok s0"
    by (rule request_turn [OF run e q m u])
  obtain s1 where s1: "silent (\<not> strict) H s0 s1" "enter_effect (\<not> strict) H e (msg_sid m) no s1 s2"
    by (rule request_enter [OF t(3)])
  have ps: "pkt_step (s\<lparr>contentQ := q\<rparr>) s1" "rand_calls s1 = rand_calls s" "chat_state (\<not> strict) H s1"
    using t(2) s1(1) pkt_step_trans by (auto simp: silent_def)
  have so: "socks_ok s1" using t(5) s1(1) pkt_step_socks by (auto simp: silent_def)
  have pq: "player (s\<lparr>contentQ := q\<rparr>) = player s" by (simp add: fun_eq_iff player_def)
  have eq: "players s1 = players s" "roomManager s1 = roomManager s" using ps(1) by (simp_all add: pkt_step_def)
  have eq3: "player s1 ptr = Some pl" using pkt_step_look [OF ps(1)] pl(2) pq by simp
  have others: "filter (\<lambda>x. x \<noteq> msg_sid m) (map fst (users (roomManager s ! k))) = map fst (users (roomManager s ! k))"
    using r(2) unfolding GetUsers_def by (intro filter_True) blast
  have "if GetState pl = PS_IN_ROOM then s2 = entered_room (msg_sid m) ptr pl no k s1
     else \<exists>s3. told (\<not> strict) H e [msg_sid m]
             (WORD_bytes (type_val SC_ROOM_ENTER_RES) @ BYTE_bytes (result_val RESULT_SUCCESS) @ WORD_bytes no)
             (entered_room (msg_sid m) ptr pl no k s1) s3 \<and>
           told (\<not> strict) H e (map fst (users (roomManager s ! k))) (WORD_bytes (type_val SC_USER_JOIN) @ GetNickname pl) s3 s2"
    using s1(2) pl(1) k eq(1) eq3 room_EnterRoom_new(1) [OF r, of ptr]
    unfolding enter_effect_def Let_def eq(2) by (simp add: others split: if_splits)
  then show ?thesis using that t(1,4) ps so by blast
qed

lemma room_bound:
  assumes "chat_run e strict s" and "chatenv_ok e" and "GetRoom no = Some k"
  shows "k < length (roomManager s)"
  using room_of(2) [OF chat_state_parts(2) [OF run_state(1) [OF assms(1,2)]] assms(3)] .

lemma player_bound: "player s ptr = Some pl \<Longrightarrow> ptr < length (objects s)"
  by (simp add: player_def split: if_splits)

text \<open>
  C13: A request of a player that is in no room to enter a room with a free place succeeds: the room
  lists the player behind the others, the player's state names the room, the requester is sent the
  success reply and then every earlier member is told the newcomer's name; no other connection gets
  anything.
\<close>

theorem enter_room_joins:
  assumes run: "chat_run e strict s" and e: "chatenv_ok e" and q: "contentQ s = m # q"
    and m: "msg_type m = MSG_RECV" "msg_pkt m = Some p"
    and u: "unread_of (store s) p = WORD_bytes (type_val CS_ROOM_ENTER_REQ) @ WORD_bytes no @ rest"
    and pl: "map_of (players s) (msg_sid m) = Some ptr" "player s ptr = Some pl" "GetState pl \<noteq> PS_IN_ROOM"
    and k: "GetRoom no = Some k"
    and r: "GetUserCount (roomManager s ! k) < 50" "msg_sid m \<notin> set (map fst (GetUsers (roomManager s ! k)))"
  shows "\<exists>s' t. handle_msg e m (s\<lparr>contentQ := q\<rparr>) = Some s' \<and>
     in_room (msg_sid m) s' = Some (ptr, pl\<lparr>pl_roomNo := no, pl_state := PS_IN_ROOM\<rparr>, k) \<and>
     GetUsers (roomManager s' ! k) = GetUsers (roomManager s ! k) @ [(msg_sid m, ptr)] \<and>
     delivers (\<forall>n. wsa_ok (sys e) n) (slots_of [msg_sid m] s) (sealing e s
       (WORD_bytes (type_val SC_ROOM_ENTER_RES) @ BYTE_bytes (result_val RESULT_SUCCESS) @ WORD_bytes no)) (s\<lparr>contentQ := q\<rparr>) t \<and>
     delivers (\<forall>n. wsa_ok (sys e) n) (slots_of (map fst (GetUsers (roomManager s ! k))) s) (sealing e t
       (WORD_bytes (type_val SC_USER_JOIN) @ GetNickname pl)) t s'"
proof -
  obtain s1 s2 s' H where t: "handle_msg e m (s\<lparr>contentQ := q\<rparr>) = Some s'" "pkt_step (s\<lparr>contentQ := q\<rparr>) s1"
      "rand_calls s1 = rand_calls s" "silent (\<not> strict) {#} s2 s'" "socks_ok s1"
      "\<exists>s3. told (\<not> strict) H e [msg_sid m]
             (WORD_bytes (type_val SC_ROOM_ENTER_RES) @ BYTE_bytes (result_val RESULT_SUCCESS) @ WORD_bytes no)
             (entered_room (msg_sid m) ptr pl no k s1) s3 \<and>
           told (\<not> strict) H e (map fst (users (roomManager s ! k))) (WORD_bytes (type_val SC_USER_JOIN) @ GetNickname pl) s3 s2"
    by (rule enter_turn [OF run e q m u pl(1,2) k r]) (use pl(3) in auto)
  let ?e = "entered_room (msg_sid m) ptr pl no k s1" and ?q = "s\<lparr>contentQ := q\<rparr>"
  obtain s3 where s3: "told (\<not> strict) H e [msg_sid m]
             (WORD_bytes (type_val SC_ROOM_ENTER_RES) @ BYTE_bytes (result_val RESULT_SUCCESS) @ WORD_bytes no) ?e s3"
      "told (\<not> strict) H e (map fst (users (roomManager s ! k))) (WORD_bytes (type_val SC_USER_JOIN) @ GetNickname pl) s3 s2"
    using t(6) by blast
  have so: "socks_ok ?e" using t(5) by (simp add: socks_ok_def open_slot_def entered_room_engine)
  have d1: "delivers (wsa_all e) (slots_of [msg_sid m] s) (sealing e s
       (WORD_bytes (type_val SC_ROOM_ENTER_RES) @ BYTE_bytes (result_val RESULT_SUCCESS) @ WORD_bytes no)) ?q s3"
    (is "delivers _ ?T ?w ?q s3")
  proof -
    have "slots_of [msg_sid m] ?e = ?T"
      using pkt_step_slots_of [OF t(2), of "[msg_sid m]"] by (simp add: slots_of_def entered_room_engine)
    moreover have "sealing e ?e bs = sealing e s bs" for bs using t(3) by (simp add: sealing_def entered_room_engine)
    ultimately have "delivers (wsa_all e) ?T ?w ?e s3" using s3(1) so by (simp add: told_def)
    then have "delivers (wsa_all e) ?T ?w s1 s3" by (simp add: delivers_cong [of ?e s1] entered_room_engine)
    then show ?thesis by (rule delivers_step [OF t(2)])
  qed
  have so3: "socks_ok s3" using delivers_socks s3(1) so unfolding told_def by blast
  have sl: "slots_of sids s3 = slots_of sids s" for sids using delivers_slots_of [OF d1, of sids] by simp
  have "delivers (wsa_all e) (slots_of (map fst (users (roomManager s ! k))) s) (sealing e s3
       (WORD_bytes (type_val SC_USER_JOIN) @ GetNickname pl)) s3 s2"
    using s3(2) so3 sl by (simp add: told_def)
  then have d2: "delivers (wsa_all e) (slots_of (map fst (users (roomManager s ! k))) s) (sealing e s3
       (WORD_bytes (type_val SC_USER_JOIN) @ GetNickname pl)) s3 s'"
    by (rule delivers_then_step) (use t(4) in \<open>simp add: silent_def\<close>)
  have parts: "players s' = players ?e" "objects s' = objects ?e" "roomManager s' = roomManager ?e"
    using told_parts [OF s3(1)] told_parts [OF s3(2)] silent_parts [OF t(4)] by simp_all
  have eq: "players s1 = players s" "objects s1 = objects s" "roomManager s1 = roomManager s"
    using t(2) by (simp_all add: pkt_step_def)
  have "in_room (msg_sid m) s' = Some (ptr, pl\<lparr>pl_roomNo := no, pl_state := PS_IN_ROOM\<rparr>, k)"
    using parts(1,2) eq pl(1,3) k player_bound [OF pl(2)]
    by (simp add: in_room_def player_def entered_room_engine player_EnterRoom_def GetState_def GetRoomNo_def)
  moreover have "GetUsers (roomManager s' ! k) = GetUsers (roomManager s ! k) @ [(msg_sid m, ptr)]"
    using parts(3) eq room_bound [OF run e k] room_EnterRoom_new(2) [OF r, of ptr] by (simp add: entered_room_engine GetUsers_def)
  ultimately show ?thesis using t(1) d1 d2 unfolding GetUsers_def by (intro exI [of _ s'] exI [of _ s3] conjI)
qed

theorem enter_room_joins_witness:
  "\<exists>s m s' pl. chat_run sample_env True s \<and> handle_msg sample_env m (s\<lparr>contentQ := []\<rparr>) = Some s' \<and>
     in_room sample_sid s' = Some (0, pl, 0) \<and> GetUsers (roomManager s' ! 0) = [(sample_sid, 0)]"
proof -
  let ?u = "WORD_bytes (type_val CS_ROOM_ENTER_REQ) @ WORD_bytes 1 @ []"
  obtain s m p where s: "chat_run sample_env True s" "contentQ s = [m]" "msg_pkt m = Some p" "msg_sid m = sample_sid"
      "msg_type m = MSG_RECV" "unread_of (store s) p = ?u" "chat_rest s = chat_rest sample_joined"
    by (rule sample_request [of ?u]) simp_all
  note eq = chat_rest_eqD(1-3) [OF s(7)]
  let ?pl = "CPlayer_new (map (junk sample_env 0) [0..<32]) sample_sid"
  have pl: "map_of (players s) (msg_sid m) = Some 0" "player s 0 = Some ?pl" "GetState ?pl \<noteq> PS_IN_ROOM"
    by (simp_all add: eq s(4) sample_joined_fields player_def GetState_def CPlayer_new_def)
  have r: "GetRoom 1 = Some 0" "GetUserCount (roomManager s ! 0) < 50" "msg_sid m \<notin> set (map fst (GetUsers (roomManager s ! 0)))"
    "GetUsers (roomManager s ! 0) = []"
    by (simp_all add: eq sample_joined_fields GetRoom_def GetUserCount_def GetUsers_def CRoomManager_new_def CRoom_new_def
        MAX_ROOM_COUNT_def upt_rec)
  obtain s' where "handle_msg sample_env m (s\<lparr>contentQ := []\<rparr>) = Some s'"
      "in_room sample_sid s' = Some (0, ?pl\<lparr>pl_roomNo := 1, pl_state := PS_IN_ROOM\<rparr>, 0)" "GetUsers (roomManager s' ! 0) = [(sample_sid, 0)]"
    using enter_room_joins [OF s(1) sample_env_ok s(2,5,3,6) pl r(1-3)] r(4) s(4) by auto
  with s(1) show ?thesis by (intro exI conjI)
qed

text \<open>
  C31: A player that is already in a room and asks to enter another is added to the other room's
  members before its own state refuses the change: it gets no reply, its state still names the old
  room, and it is listed in both rooms. What it leaves later is only the room its state names.
\<close>

theorem enter_from_room_leaves_ghost:
  assumes run: "chat_run e strict s" and e: "chatenv_ok e" and q: "contentQ s = m # q"
    and m: "msg_type m = MSG_RECV" "msg_pkt m = Some p"
    and u: "unread_of (store s) p = WORD_bytes (type_val CS_ROOM_ENTER_REQ) @ WORD_bytes no @ rest"
    and room: "in_room (msg_sid m) s = Some (ptr, pl, k0)" and k: "GetRoom no = Some k" "k \<noteq> k0"
    and r: "GetUserCount (roomManager s ! k) < 50" "msg_sid m \<notin> set (map fst (GetUsers (roomManager s ! k)))"
  shows "\<exists>s'. handle_msg e m (s\<lparr>contentQ := q\<rparr>) = Some s' \<and> in_room (msg_sid m) s' = Some (ptr, pl, k0) \<and>
     (msg_sid m, ptr) \<in> set (GetUsers (roomManager s' ! k)) \<and>
     msg_sid m \<in> set (map fst (GetUsers (roomManager s' ! k0))) \<and> outbox s' = outbox s"
proof -
  note st = run_state(1) [OF run e]
  note pl = in_room_Some [OF st room]
  obtain s1 s2 s' H where t: "handle_msg e m (s\<lparr>contentQ := q\<rparr>) = Some s'" "pkt_step (s\<lparr>contentQ := q\<rparr>) s1"
      "silent (\<not> strict) {#} s2 s'" "s2 = entered_room (msg_sid m) ptr pl no k s1"
    by (rule enter_turn [OF run e q m u pl(1,2) k(1) r]) (use pl(6) in auto)
  have eq: "players s1 = players s" "objects s1 = objects s" "roomManager s1 = roomManager s" "outbox s1 = outbox s"
    using t(2) by (simp_all add: pkt_step_def)
  have same: "snd (player_EnterRoom pl no) = pl" using pl(6) by (simp add: player_EnterRoom_def GetState_def)
  have parts: "players s' = players s" "objects s' = objects s" "outbox s' = outbox s"
      "roomManager s' = (roomManager s)[k := snd (room_EnterRoom (roomManager s ! k) (msg_sid m) ptr)]"
    using silent_parts [OF t(3)] t(3) pl(3,4) eq
    by (simp_all add: t(4) entered_room_engine same silent_def pkt_step_def list_update_same_conv)
  have "player s' = player s" by (simp add: fun_eq_iff player_def parts)
  then have look: "in_room (msg_sid m) s' = in_room (msg_sid m) s" by (simp add: in_room_def parts)
  have "(msg_sid m, ptr) \<in> set (GetUsers (roomManager s' ! k))"
    using room_bound [OF run e k(1)] room_EnterRoom_new(2) [OF r, of ptr] by (simp add: parts GetUsers_def)
  moreover have "msg_sid m \<in> set (map fst (GetUsers (roomManager s' ! k0)))"
    using pl(5-7) k(2) by (simp add: parts GetUsers_def player_ok_def GetState_def GetRoomNo_def)
  ultimately show ?thesis using t(1) look room parts(3) by (intro exI [of _ s'] conjI) simp_all
qed

theorem enter_from_room_leaves_ghost_witness:
  "\<exists>s m q s'. chat_run sample_env True s \<and> handle_msg sample_env m (s\<lparr>contentQ := q\<rparr>) = Some s' \<and>
     sample_sid \<in> set (map fst (GetUsers (roomManager s' ! 0))) \<and> sample_sid \<in> set (map fst (GetUsers (roomManager s' ! 1)))"
proof -
  let ?u = "WORD_bytes (type_val CS_ROOM_ENTER_REQ) @ WORD_bytes 2 @ []"
  obtain s m p q pl where s: "chat_run sample_env True s" "contentQ s = m # q" "msg_pkt m = Some p" "msg_sid m = sample_sid"
      "msg_type m = MSG_RECV" "unread_of (store s) p = ?u" "in_room sample_sid s = Some (0, pl, 0)" "users (roomManager s ! 1) = []"
    by (rule sample_room_request [of ?u]) simp_all
  have r: "in_room (msg_sid m) s = Some (0, pl, 0)" "GetRoom 2 = Some 1" "GetUserCount (roomManager s ! 1) < 50"
      "msg_sid m \<notin> set (map fst (GetUsers (roomManager s ! 1)))"
    using s(4,7,8) by (simp_all add: GetRoom_def GetUserCount_def GetUsers_def MAX_ROOM_COUNT_def)
  obtain s' where s': "handle_msg sample_env m (s\<lparr>contentQ := q\<rparr>) = Some s'"
      "sample_sid \<in> set (map fst (GetUsers (roomManager s' ! 0)))" "(sample_sid, 0) \<in> set (GetUsers (roomManager s' ! 1))"
    using enter_from_room_leaves_ghost [OF s(1) sample_env_ok s(2,5,3,6) r(1,2) _ r(3,4)] s(4) by auto
  from s'(3) have "sample_sid \<in> set (map fst (GetUsers (roomManager s' ! 1)))" by force
  with s(1) s'(1,2) show ?thesis by (intro exI conjI)
qed

text \<open>
  C14: A member that leaves its room is removed from the room's members, its state names no room any
  more (and says that it is logged in), and exactly the remaining members are told its name.
\<close>

theorem leave_room_tells_members:
  assumes run: "chat_run e strict s" and e: "chatenv_ok e" and q: "contentQ s = m # q"
    and m: "msg_type m = MSG_RECV" "msg_pkt m = Some p"
    and u: "unread_of (store s) p = WORD_bytes (type_val CS_ROOM_LEAVE_REQ) @ rest"
    and room: "in_room (msg_sid m) s = Some (ptr, pl, k)"
  shows "\<exists>s'. handle_msg e m (s\<lparr>contentQ := q\<rparr>) = Some s' \<and>
     GetUsers (roomManager s' ! k) = filter (\<lambda>x. fst x \<noteq> msg_sid m) (GetUsers (roomManager s ! k)) \<and>
     objects s' ! ptr = Some (pl\<lparr>pl_roomNo := INVALID_ROOM_NO, pl_state := PS_LOGGED_IN\<rparr>) \<and>
     delivers (\<forall>n. wsa_ok (sys e) n)
       (slots_of (map fst (filter (\<lambda>x. fst x \<noteq> msg_sid m) (GetUsers (roomManager s ! k)))) s)
       (sealing e s (WORD_bytes (type_val SC_USER_LEAVE) @ GetNickname pl)) (s\<lparr>contentQ := q\<rparr>) s'"
proof -
  note st = run_state(1) [OF run e]
  note pl = in_room_Some [OF st room]
  obtain s1 s2 s' H where t: "handle_msg e m (s\<lparr>contentQ := q\<rparr>) = Some s'" "silent (\<not> strict) H (s\<lparr>contentQ := q\<rparr>) s1"
      "request_effect (\<not> strict) H e (msg_sid m) (type_val CS_ROOM_LEAVE_REQ) rest s1 s2"
      "silent (\<not> strict) {#} s2 s'" "socks_ok s1"
    by (rule request_turn [OF run e q m u])
  have ps: "pkt_step (s\<lparr>contentQ := q\<rparr>) s1" "rand_calls s1 = rand_calls s" using t(2) by (simp_all add: silent_def)
  have eq: "players s1 = players s" "objects s1 = objects s" "roomManager s1 = roomManager s"
    using ps(1) by (simp_all add: pkt_step_def)
  let ?l = "left_room (msg_sid m) ptr pl k s1"
  let ?sids = "map fst (filter (\<lambda>x. fst x \<noteq> msg_sid m) (users (roomManager s ! k)))"
  let ?bs = "WORD_bytes (type_val SC_USER_LEAVE) @ GetNickname pl"
  have told: "told (\<not> strict) H e ?sids ?bs ?l s2"
    using t(3) room in_room_step [OF ps(1), of "msg_sid m"] eq by (simp add: request_effect_def)
  have "slots_of ?sids ?l = slots_of ?sids s" "sealing e ?l ?bs = sealing e s ?bs" "socks_ok ?l"
    using pkt_step_slots_of [OF ps(1), of ?sids] ps(2) t(5)
    by (simp_all add: slots_of_def sealing_def socks_ok_def open_slot_def left_room_engine)
  then have "delivers (wsa_all e) (slots_of ?sids s) (sealing e s ?bs) ?l s2" using told by (simp add: told_def)
  then have "delivers (wsa_all e) (slots_of ?sids s) (sealing e s ?bs) s1 s2"
    by (simp add: delivers_cong [of ?l s1] left_room_engine)
  then have d: "delivers (wsa_all e) (slots_of ?sids s) (sealing e s ?bs) (s\<lparr>contentQ := q\<rparr>) s'"
    by (rule delivers_then_step [OF delivers_step [OF ps(1)]]) (use t(4) in \<open>simp add: silent_def\<close>)
  have parts: "objects s' = objects ?l" "roomManager s' = roomManager ?l"
    using told_parts [OF told] silent_parts [OF t(4)] by simp_all
  have "GetUsers (roomManager s' ! k) = filter (\<lambda>x. fst x \<noteq> msg_sid m) (GetUsers (roomManager s ! k))"
    using room_left(4) [OF chat_state_parts(2) [OF st] pl(7) refl, of "msg_sid m"] parts(2) eq
    by (simp add: left_room_engine GetUsers_def)
  moreover have "objects s' ! ptr = Some (pl\<lparr>pl_roomNo := INVALID_ROOM_NO, pl_state := PS_LOGGED_IN\<rparr>)"
    using parts(1) eq pl(4,6) by (simp add: left_room_engine player_LeaveRoom_def GetState_def)
  ultimately show ?thesis using t(1) d unfolding GetUsers_def by (intro exI [of _ s'] conjI)
qed

theorem leave_room_tells_members_witness:
  "\<exists>s m q s'. chat_run sample_env True s \<and> handle_msg sample_env m (s\<lparr>contentQ := q\<rparr>) = Some s' \<and>
     GetUsers (roomManager s' ! 0) = []"
proof -
  let ?u = "WORD_bytes (type_val CS_ROOM_LEAVE_REQ) @ []"
  obtain s m p q pl where s: "chat_run sample_env True s" "contentQ s = m # q" "msg_pkt m = Some p" "msg_sid m = sample_sid"
      "msg_type m = MSG_RECV" "unread_of (store s) p = ?u" "in_room sample_sid s = Some (0, pl, 0)"
      "users (roomManager s ! 0) = [(sample_sid, 0)]"
    by (rule sample_room_request [of ?u]) simp_all
  have r: "in_room (msg_sid m) s = Some (0, pl, 0)" using s(4,7) by simp
  obtain s' where "handle_msg sample_env m (s\<lparr>contentQ := q\<rparr>) = Some s'" "GetUsers (roomManager s' ! 0) = []"
    using leave_room_tells_members [OF s(1) sample_env_ok s(2,5,3,6) r] s(4,8) by (auto simp: GetUsers_def)
  with s(1) show ?thesis by (intro exI conjI)
qed

section \<open>Accounts\<close>

lemma queued_turn:
  assumes a: "silent L H s s1" and j: "queued L H' job s1 s2" and b: "silent L H'' s2 s'"
  shows "dbWorker s' = PushJob job (dbWorker s)" and "sessions s' = sessions s" and "outbox s' = outbox s"
    and "players s' = players s" and "objects s' = objects s" and "roomManager s' = roomManager s" and "events s' = events s"
    and "job_ok job"
proof -
  obtain t where t: "pkt_step s1 t" "s2 = t\<lparr>dbWorker := PushJob job (dbWorker t)\<rparr>" and jo: "job_ok job"
    using j by (auto simp: queued_def)
  have p: "pkt_step s s1" "pkt_step s2 s'" using a b by (simp_all add: silent_def)
  have st: "pkt_step s t" using pkt_step_trans [OF p(1) t(1)] .
  then have "events s2 = events s" by (simp add: t(2) pkt_step_def)
  then show "events s' = events s" using p(2) by (simp add: pkt_step_def)
  show "dbWorker s' = PushJob job (dbWorker s)" "sessions s' = sessions s" "outbox s' = outbox s" "players s' = players s"
    "objects s' = objects s" "roomManager s' = roomManager s" "job_ok job"
    using st p(2) jo by (simp_all add: t(2) pkt_step_def)
qed

lemma account_turn:
  assumes run: "chat_run e strict s" and e: "chatenv_ok e" and q: "contentQ s = m # q"
    and m: "msg_type m = MSG_RECV" "msg_pkt m = Some p" and pl: "map_of (players s) (msg_sid m) \<noteq> None"
    and u: "unread_of (store s) p = WORD_bytes (type_val ty) @ body" "ty = CS_LOGIN_REQ \<or> ty = CS_SIGNUP_REQ"
  obtains s' job where "handle_msg e m (s\<lparr>contentQ := q\<rparr>) = Some s'" "dbWorker s' = PushJob job (dbWorker s)"
    "if ty = CS_LOGIN_REQ then login_of (msg_sid m) body job else signup_of (msg_sid m) body job" "job_ok job"
    "sessions s' = sessions s" "outbox s' = outbox s" "players s' = players s" "roomManager s' = roomManager s" "events s' = tl (events s)"
proof -
  obtain s1 s2 s' H where r: "handle_msg e m (s\<lparr>contentQ := q\<rparr>) = Some s'" "silent (\<not> strict) H (s\<lparr>contentQ := q\<rparr>) s1"
      "request_effect (\<not> strict) H e (msg_sid m) (type_val ty) body s1 s2" "silent (\<not> strict) {#} s2 s'"
    by (rule request_turn [OF run e q m u(1)])
  have ev: "events (s\<lparr>contentQ := q\<rparr>) = tl (events s)" using q by (simp add: events_def)
  have pl1: "map_of (players s1) (msg_sid m) \<noteq> None" using pl silent_parts [OF r(2)] by simp
  obtain job where job: "queued (\<not> strict) H job s1 s2"
      "if ty = CS_LOGIN_REQ then login_of (msg_sid m) body job else signup_of (msg_sid m) body job"
  proof (cases "ty = CS_LOGIN_REQ")
    case True
    then show ?thesis using r(3) pl1 that by (auto simp: request_effect_def simp del: umap_find_None)
  next
    case False
    then have "ty = CS_SIGNUP_REQ" using u(2) by blast
    then show ?thesis using r(3) pl1 that by (auto simp: request_effect_def simp del: umap_find_None)
  qed
  note t = queued_turn [OF r(2) job(1) r(4)]
  show ?thesis by (rule that [OF r(1) _ job(2) t(8)]) (use t(1-7) ev in simp_all)
qed



text \<open>
  C16: A result of the database for a client that is still connected is answered to exactly that
  client, with the mapped result code and the account number. A successful login also gives the player
  its account number and name and marks it as logged in; a failed one changes no player. A result for
  a client that has left is dropped.
\<close>

theorem login_result_is_answered:
  assumes run: "chat_run e strict s" and e: "chatenv_ok e" and rs: "results (dbWorker s) = r # rs" "res_type r = DB_JOB_LOGIN"
  shows "\<exists>s'. Handle_DbResult e r (s\<lparr>dbWorker := (dbWorker s)\<lparr>results := rs\<rparr>\<rparr>) = Some s' \<and>
     (case map_of (players s) (res_sid r) of
        None \<Rightarrow> s' = s\<lparr>dbWorker := (dbWorker s)\<lparr>results := rs\<rparr>\<rparr>
      | Some ptr \<Rightarrow>
          delivers (\<forall>n. wsa_ok (sys e) n) (slots_of [res_sid r] s) (sealing e s (WORD_bytes (type_val SC_LOGIN_RES) @
            BYTE_bytes (result_val (MapLoginResult (res_result r))) @ int_bytes (res_userNo r) @ take 64 (wbytes (res_nickname r)))) s s' \<and>
          (if MapLoginResult (res_result r) = RESULT_SUCCESS
           then \<exists>pl. objects s' ! ptr = Some pl \<and> GetState pl = PS_LOGGED_IN \<and> GetUserNo pl = res_userNo r \<and>
             cstr (GetNickname pl) = cstr ((wc2mb e (res_nickname r))[31 := 0])
           else objects s' = objects s))"
proof -
  note st = run_state [OF run e]
  let ?s = "s\<lparr>dbWorker := (dbWorker s)\<lparr>results := rs\<rparr>\<rparr>" and ?rc = "MapLoginResult (res_result r)"
  let ?bs = "WORD_bytes (type_val SC_LOGIN_RES) @ BYTE_bytes (result_val ?rc) @ int_bytes (res_userNo r) @ take 64 (wbytes (res_nickname r))"
  have w: "worker_ok (dbWorker s)" using chat_state_parts(3) [OF st(1)] .
  then have ro: "result_ok r" "worker_ok ((dbWorker s)\<lparr>results := rs\<rparr>)" using rs(1) by (auto simp: worker_ok_def)
  obtain s' where s': "Handle_DbResult e r ?s = Some s'" "result_effect (\<not> strict) {#} e r ?s s'"
    using Handle_DbResult_ok [OF chat_state_worker [OF st(1) ro(2)] e ro(1)] by (auto simp: wp_iff)
  show ?thesis
  proof (cases "map_of (players s) (res_sid r)")
    case None
    then show ?thesis using s' by (simp add: result_effect_def del: umap_find_None)
  next
    case (Some ptr)
    let ?c = "count_login (?rc = RESULT_SUCCESS) ?s"
    obtain s1 where s1: "if ?rc = RESULT_SUCCESS then \<exists>pl. player ?s ptr = Some pl \<and> logged_in e r ptr pl ?c s1 else s1 = ?c"
        "told (\<not> strict) {#} e [res_sid r] ?bs s1 s'"
      using s'(2) Some rs(2) by (auto simp: result_effect_def Let_def)
    have eng: "sessions s1 = sessions s \<and> indexPool s1 = indexPool s \<and> outbox s1 = outbox s \<and> store s1 = store s \<and>
        rand_calls s1 = rand_calls s"
      using s1(1) by (auto simp: logged_in_def count_login_def set_player_def split: if_splits)
    have so: "socks_ok s1" using st(2) eng by (simp add: socks_ok_def open_slot_def)
    have "slots_of [res_sid r] s1 = slots_of [res_sid r] s" "sealing e s1 ?bs = sealing e s ?bs"
      using eng by (simp_all add: slots_of_def sealing_def)
    then have "delivers (wsa_all e) (slots_of [res_sid r] s) (sealing e s ?bs) s1 s'" using s1(2) so by (simp add: told_def)
    then have d: "delivers (wsa_all e) (slots_of [res_sid r] s) (sealing e s ?bs) s s'" using eng by (simp add: delivers_cong [of s1 s])
    have ob: "objects s' = objects s1" using told_parts [OF s1(2)] by simp
    have pl: "if ?rc = RESULT_SUCCESS
           then \<exists>pl. objects s' ! ptr = Some pl \<and> GetState pl = PS_LOGGED_IN \<and> GetUserNo pl = res_userNo r \<and>
             cstr (GetNickname pl) = cstr ((wc2mb e (res_nickname r))[31 := 0])
           else objects s' = objects s"
    proof (cases "?rc = RESULT_SUCCESS")
      case True
      then obtain pl nick where n: "player ?s ptr = Some pl" "cstr nick = cstr ((wc2mb e (res_nickname r))[31 := 0])"
          "s1 = set_player ptr (pl\<lparr>userNo := res_userNo r, nickname := nick, pl_state := PS_LOGGED_IN\<rparr>) ?c"
        using s1(1) by (auto simp: logged_in_def)
      have "ptr < length (objects s)" using player_bound [OF n(1)] by simp
      then show ?thesis using True n(2) ob
        by (simp add: n(3) set_player_def count_login_def GetState_def GetUserNo_def GetNickname_def)
    next
      case False
      then show ?thesis using s1(1) ob by (simp add: count_login_def)
    qed
    show ?thesis using s'(1) d pl Some by (intro exI [of _ s'] conjI) simp_all
  qed
qed

lemma sample_login_result:
  obtains s r where "chat_run sample_env True s" "results (dbWorker s) = [r]" "res_type r = DB_JOB_LOGIN" "res_sid r = sample_sid"
    "players s = [(sample_sid, 0)]"
proof -
  let ?u = "WORD_bytes (type_val CS_LOGIN_REQ) @ replicate 192 65"
  obtain s m p where s: "chat_run sample_env True s" "contentQ s = [m]" "msg_pkt m = Some p" "msg_sid m = sample_sid"
      "msg_type m = MSG_RECV" "unread_of (store s) p = ?u" "chat_rest s = chat_rest sample_joined"
    by (rule sample_request [of ?u]) simp_all
  note eq = chat_rest_eqD [OF s(7)]
  have pl: "map_of (players s) (msg_sid m) \<noteq> None" by (simp add: eq s(4) sample_joined_fields)
  obtain s1 job where s1: "handle_msg sample_env m (s\<lparr>contentQ := []\<rparr>) = Some s1" "dbWorker s1 = PushJob job (dbWorker s)"
      "login_of (msg_sid m) (replicate 192 65) job" "job_ok job" "players s1 = players s"
    by (rule account_turn [OF s(1) sample_env_ok s(2,5,3) pl s(6)]) simp_all
  have wk: "results (dbWorker s) = []" "jobs (dbWorker s) = []" "db_isRun (dbWorker s)" "chat_isRun s"
    by (simp_all add: eq sample_joined_fields) (simp_all add: sample_boot_def boot_def Start_def UpdateLoop_enter_def
      StartContent_def CChatServer_new_def db_Start_def CDBWorker_new_def Connect_def odbc_call_def sample_env_def sqlOk_def
      CDBConnector_new_def split_beta Let_def)
  have "db_results sample_env s1 = Some s1" using s1(2) wk(1) by (subst db_results.simps) (simp add: PopResult_def PushJob_def)
  then have "UpdateLoop_turn sample_env (lastStatTick s1) s = Some s1" using s1(1) s(2) by (simp add: UpdateLoop_turn_def Pop_def)
  then have run1: "chat_run sample_env True s1" by (rule chat_run.step [OF s(1) chat_step.update [OF wk(4)]])
  let ?m = "bwords (map (junk sample_env (junk_objs s1)) [0..<66])" and ?w = "(dbWorker s1)\<lparr>jobs := []\<rparr>"
  have j: "jobs (dbWorker s1) = [job]" "results (dbWorker s1) = []" "db_isRun (dbWorker s1)" using s1(2) wk by (simp_all add: PushJob_def)
  have "worker_ok ?w" using chat_state_parts(3) [OF run_state(1) [OF run1 sample_env_ok]] by (simp add: worker_ok_def)
  then obtain w' r where w': "processJob (sql sample_env) ?m job ?w = Some w'" "results w' = [r]" "answer r = request job"
    using processJob_ok [of ?w job ?m "sql sample_env"] s1(4) j(2) by (auto simp: wp_iff)
  have "db_turn sample_env s1 = Some (s1\<lparr>junk_objs := junk_objs s1 + 1, dbWorker := w'\<rparr>)"
    using w'(1) j(1) by (simp add: db_turn_def fresh_mem_eq WorkerLoop_turn_def popJob_def)
  then have "chat_run sample_env True (s1\<lparr>junk_objs := junk_objs s1 + 1, dbWorker := w'\<rparr>)"
    by (rule chat_run.step [OF run1 chat_step.database [OF j(3)]])
  then show ?thesis
    by (rule that [where r = r]) (use w'(2,3) s1(3,5) s(4) eq(2) in \<open>auto simp: answer_def request_def login_of_def sample_joined_fields\<close>)
qed

theorem login_result_is_answered_witness:
  "\<exists>s r rs s'. chat_run sample_env True s \<and> Handle_DbResult sample_env r (s\<lparr>dbWorker := (dbWorker s)\<lparr>results := rs\<rparr>\<rparr>) = Some s' \<and>
     delivers True (slots_of [sample_sid] s) (sealing sample_env s (WORD_bytes (type_val SC_LOGIN_RES) @
       BYTE_bytes (result_val (MapLoginResult (res_result r))) @ int_bytes (res_userNo r) @ take 64 (wbytes (res_nickname r)))) s s'"
proof -
  obtain s r where s: "chat_run sample_env True s" "results (dbWorker s) = [r]" "res_type r = DB_JOB_LOGIN" "res_sid r = sample_sid"
    "players s = [(sample_sid, 0)]"
    by (rule sample_login_result)
  have w: "(\<forall>n. wsa_ok (sys sample_env) n) = True" by (simp add: sample_env_def)
  show ?thesis using login_result_is_answered [OF s(1) sample_env_ok s(2,3)] s(1,4,5) w by auto
qed

section \<open>Departures and statistics\<close>



text \<open>
  C27: The statistics that \<open>PrintChatStat\<close> computes with its own loop over the room numbers agree with
  the room manager: the number of active rooms is \<open>GetActiveRoomcount\<close>, the counts per room are those
  of the rooms in order, and their sum is the number of memberships. Only the remembered counters change.
\<close>

theorem statistics_agree:
  assumes run: "chat_run e strict s" and e: "chatenv_ok e"
  shows "\<exists>st. PrintChatStat s = Some (st, s\<lparr>lastStats := (joinCnt s, leaveCnt s, handleLeaveCnt s)\<rparr>) \<and>
     activeRooms st = GetActiveRoomcount (roomManager s) \<and> roomCounts st = 0 # map GetUserCount (roomManager s) \<and>
     totalInRoom st = sum_list (map GetUserCount (roomManager s)) \<and> playerCount st = int (length (players s))"
proof -
  have "rooms_wf (roomManager s)" using chat_state_parts(2) [OF run_state(1) [OF run e]] by (simp add: rooms_ok_def)
  from PrintChatStat_ok [OF this] show ?thesis by (auto simp: wp_iff)
qed

theorem statistics_agree_witness:
  "\<exists>st s'. PrintChatStat sample_joined = Some (st, s') \<and> roomCounts st = [0, 0, 0, 0, 0, 0] \<and> playerCount st = 1"
proof -
  obtain st where "PrintChatStat sample_joined = Some (st, sample_joined\<lparr>lastStats := (joinCnt sample_joined, leaveCnt sample_joined, handleLeaveCnt sample_joined)\<rparr>)"
      "roomCounts st = 0 # map GetUserCount (roomManager sample_joined)" "playerCount st = int (length (players sample_joined))"
    using statistics_agree [OF sample_joined_run [of True] sample_env_ok] by blast
  then show ?thesis
    by (simp add: sample_joined_fields GetUserCount_def CRoomManager_new_def CRoom_new_def MAX_ROOM_COUNT_def upt_rec)
qed

section \<open>Shutdown\<close>



end
