(* ===== verification/ClientProps.thy ===== *)
theory ClientProps
  imports ClientBot ChatProps
begin

text \<open>
  The client against the server: what a request of the client becomes in the server, what the client's
  statistics say about the frames of the server, and the behaviour of the bots.
\<close>

section \<open>A concrete client\<close>

text \<open>The cipher of the sample server; \<open>send\<close> takes at most 100 bytes at a time; nothing ever arrives.\<close>

definition sample_cenv :: cenv where
  "sample_cenv = \<lparr>c_ossl = sample_ossl, c_nonce = (\<lambda>k. replicate 12 7), c_stack = (\<lambda>k n. replicate n 0xCC),
     c_wstack = (\<lambda>k n. replicate n 0xCCCC), c_send = (\<lambda>k n. min n 100), c_select = (\<lambda>k t. 0), c_recv = (\<lambda>k n. (0, [])),
     c_socket = (\<lambda>k. True), c_connect = (\<lambda>k. True), c_rand = (\<lambda>k. 1), c_tick = (\<lambda>k. 0), c_running = (\<lambda>k. k < 5),
     c_widen = (\<lambda>k cs w. w)\<rparr>"

definition sample_client :: client where
  "sample_client = \<lparr>g_connectTotal = 0, g_sendChatTotal = 0, g_recvChatTotal = 0, g_recvAnyTotal = 0, g_disconnTotal = 0,
     g_aliveBotCount = 0, g_loginSuccess = 0, g_loginFail = 0, g_signupSent = 0, g_tamperSent = 0, g_socketErr = 0,
     g_connectErr = 0, g_cycleErr = 0, g_intRunning = True, outgoing = [], open_socks = 0, printed = [], calls = 0\<rparr>"

lemma sample_cenv_ok: "cenv_ok sample_cenv" "flowing sample_cenv" "c_ossl sample_cenv = sample_ossl"
  by (simp_all add: cenv_ok_def flowing_def sample_cenv_def sample_ossl_ok)

section \<open>Requests\<close>

lemma takeWhile_take: "takeWhile P (take n xs) = take n (takeWhile P xs)"
proof (induction xs arbitrary: n)
  case (Cons x xs)
  then show ?case by (cases n) simp_all
qed simp

lemma wfield_wbytes:
  assumes "length a = n" and "0 < n" and "cstr a = Some (take (n - 1) t)"
  shows "wfield n (wbytes a @ rest) = take (n - 1) t"
proof -
  have a: "takeWhile (\<lambda>c. c \<noteq> 0) a = take (n - 1) t" "0 \<in> set a"
    using assms(3) by (auto simp: cstr_def split: if_splits)
  have "bwords (wbytes a @ rest) = a @ bwords rest" by (simp add: bwords_append)
  then have w: "wfield n (wbytes a @ rest) = takeWhile (\<lambda>c. c \<noteq> 0) (take (n - 1) a)" using assms(1) by (simp add: wfield_def)
  then show ?thesis using a by (simp add: takeWhile_take)
qed

text \<open>
  C18: A login that the client sends arrives as it was meant. When \<open>SendLogin\<close> reports success, whatever
  pieces \<open>send\<close> took it in, and its bytes reach a connection of the running server with an empty ring,
  the receive completion queues one message; handling it puts one login job behind the jobs that wait,
  for this session and with the account cut to 31 and the password cut to 63 characters.
\<close>

theorem login_reaches_worker:
  assumes run: "chat_run e strict s" and e: "chatenv_ok e" and w: "\<forall>n. wsa_ok (sys e) n"
    and o: "closeFlag (sessions s ! i) = 0" "ring_bytes (recvBuffer (sessions s ! i)) = []" "contentQ s = []"
    and pl: "map_of (players s) (sID (sessions s ! i)) \<noteq> None"
    and ce: "cenv_ok ce" "c_ossl ce = crypto (sys e)"
    and t: "cstr account = Some ta" "cstr password = Some tp"
    and snd: "SendLogin ce account password c = Some (True, c')" "outgoing c = []"
    and c: "completion_ok True (int (length (outgoing c'))) i RECV (outgoing c') s"
  shows "\<exists>s1 m s2 job. io_completion chat_vtbl (sys e) True (int (length (outgoing c'))) i RECV (outgoing c') s = Some s1 \<and>
     contentQ s1 = [m] \<and> handle_msg e m (s1\<lparr>contentQ := []\<rparr>) = Some s2 \<and> dbWorker s2 = PushJob job (dbWorker s) \<and>
     job_type job = DB_JOB_LOGIN \<and> job_sid job = sID (sessions s ! i) \<and>
     cstr (job_account job) = Some (take 31 ta) \<and> cstr (job_password job) = Some (take 63 tp)"
proof -
  obtain a p where ap: "length a = 32" "cstr a = Some (take 31 ta)" "length p = 64" "cstr p = Some (take 63 tp)"
    "wp (SendLogin ce account password c)
       (\<lambda>(ok, s'). requests ce (word_to_le 2 (type_val CS_LOGIN_REQ) @ wbytes a @ wbytes p) ok c s')"
    by (rule SendLogin_ok [OF ce(1) t])
  let ?m = "WORD_bytes (type_val CS_LOGIN_REQ) @ wbytes a @ wbytes p" and ?sid = "sID (sessions s ! i)"
  have E: "ossl_ok (crypto (sys e))" using e by (simp add: chatenv_ok_def)
  obtain nonce where n: "length nonce = 12" "hands_over (frame (crypto (sys e)) nonce ?m) True c c'"
    using ap(5) snd(1) ce(2) by (auto simp: requests_def WORD_bytes_def)
  then have out: "outgoing c' = frame (crypto (sys e)) nonce ?m" using snd(2) by (auto elim!: hands_overE)
  have lm: "length ?m = 194" using ap by (simp add: WORD_bytes_def)
  have "parse (crypto (sys e)) [] = ([], NeedMore, [])" by (subst parse.simps) simp
  then have prs: "parse (crypto (sys e)) (outgoing c') = ([?m], NeedMore, [])"
    using parse_frame [OF E n(1), of ?m "[]"] lm out by simp
  have ne: "outgoing c' \<noteq> []" using length_frame [OF E n(1), of ?m] out by auto
  obtain s1 where s1: "io_completion chat_vtbl (sys e) True (int (length (outgoing c'))) i RECV (outgoing c') s = Some s1"
      "received e i ([?m], NeedMore, []) s s1"
    using recv_turn [OF run e c ne] prs o(2) by (auto simp: wp_iff)
  have f: "events s1 = [Received ?sid ?m]" "players s1 = players s"
    using s1(2) w o by (simp_all add: received_def Let_def events_def)
  have run1: "chat_run e strict s1" by (rule chat_run.step [OF run chat_step.complete [OF c _ s1(1)]]) simp
  obtain m q pk where m: "contentQ s1 = m # q" "msg_pkt m = Some pk" "msg_sid m = ?sid" "msg_type m = MSG_RECV"
      "unread_of (store s1) pk = ?m"
    by (rule waiting_packet [OF run1 e f(1)])
  have q: "q = []" using f(1) m(1) by (simp add: events_def)
  have db: "dbWorker s1 = dbWorker s"
    using wp_SomeD [OF completion_chat [OF run_state(1) [OF run e] c e] s1(1)] chat_rest_eqD(4) by blast
  obtain s2 job where "handle_msg e m (s1\<lparr>contentQ := q\<rparr>) = Some s2" "dbWorker s2 = PushJob job (dbWorker s1)"
      "login_of (msg_sid m) (wbytes a @ wbytes p) job"
    by (rule account_turn [OF run1 e m(1,4,2) _ m(5)]) (use pl f(2) m(3) in simp_all)
  moreover have "wfield 32 (wbytes a @ wbytes p) = take 31 ta" using wfield_wbytes [of a 32 ta "wbytes p"] ap by simp
  moreover have "wfield 64 (drop 64 (wbytes a @ wbytes p)) = take 63 tp" using wfield_wbytes [of p 64 tp "[]"] ap by simp
  ultimately show ?thesis using s1(1) m q db ap
    by (intro exI [of _ s1] exI [of _ m] exI [of _ s2] exI [of _ job]) (simp add: login_of_def request_def)
qed

theorem login_reaches_worker_witness:
  "\<exists>c' s1 m s2 job. SendLogin sample_cenv [65, 0] [112, 0] sample_client = Some (True, c') \<and>
     io_completion chat_vtbl (sys sample_env) True (int (length (outgoing c'))) 0 RECV (outgoing c') sample_joined = Some s1 \<and>
     contentQ s1 = [m] \<and> handle_msg sample_env m (s1\<lparr>contentQ := []\<rparr>) = Some s2 \<and>
     dbWorker s2 = PushJob job (dbWorker sample_joined) \<and> job_sid job = sample_sid \<and> cstr (job_account job) = Some [65]"
proof -
  have t: "cstr [65, 0] = Some [65 :: WORD]" "cstr [112, 0] = Some [112 :: WORD]" by (simp_all add: cstr_def)
  obtain a p where ap: "length a = 32" "length p = 64"
    "wp (SendLogin sample_cenv [65, 0] [112, 0] sample_client) (\<lambda>(ok, s').
       requests sample_cenv (word_to_le 2 (type_val CS_LOGIN_REQ) @ wbytes a @ wbytes p) ok sample_client s')"
    by (rule SendLogin_ok [OF sample_cenv_ok(1) t])
  then obtain c' nonce where c': "SendLogin sample_cenv [65, 0] [112, 0] sample_client = Some (True, c')" "length nonce = 12"
      "hands_over (frame sample_ossl nonce (word_to_le 2 (type_val CS_LOGIN_REQ) @ wbytes a @ wbytes p)) True sample_client c'"
    using sample_cenv_ok(2,3) by (auto simp: wp_iff requests_def)
  have o0: "outgoing sample_client = []" by (simp add: sample_client_def)
  have "length (outgoing c') = 224"
    using c'(3) length_frame [OF sample_ossl_ok c'(2)] ap(1,2) o0 by (auto elim!: hands_overE)
  then have c: "completion_ok True (int (length (outgoing c'))) 0 RECV (outgoing c') sample_joined"
    by (intro sample_completion) simp
  have s: "closeFlag (sessions sample_joined ! 0) = 0" "sID (sessions sample_joined ! 0) = sample_sid" "contentQ sample_joined = []"
      "map_of (players sample_joined) sample_sid \<noteq> None" "\<forall>n. wsa_ok (sys sample_env) n" "c_ossl sample_cenv = crypto (sys sample_env)"
    by (simp_all add: sample_joined_fields sample_session_def Session_new_def sample_env_def sample_cenv_ok)
  obtain s1 m s2 job where "io_completion chat_vtbl (sys sample_env) True (int (length (outgoing c'))) 0 RECV (outgoing c') sample_joined = Some s1"
     "contentQ s1 = [m]" "handle_msg sample_env m (s1\<lparr>contentQ := []\<rparr>) = Some s2"
     "dbWorker s2 = PushJob job (dbWorker sample_joined)" "job_sid job = sample_sid" "cstr (job_account job) = Some [65]"
    using login_reaches_worker [OF sample_joined_run [of True] sample_env_ok s(5,1) sample_joined_ring s(3) _ sample_cenv_ok(1) s(6) t c'(1) o0 c]
      s(2,4) by auto
  with c'(1) show ?thesis by (intro exI conjI)
qed

text \<open>
  C19: A tampered chat ends the connection. The frame that \<open>SendChatTampered\<close> hands over (whatever
  pieces \<open>send\<close> took it in) differs from a proper one in one bit of the cipher text; if that does not
  collide under the truncated HMAC, the server that receives it announces no message, only the client's
  departure, and closes the session.
\<close>

theorem tampered_chat_closes_session:
  assumes run: "chat_run e strict s" and e: "chatenv_ok e"
    and o: "closeFlag (sessions s ! i) = 0" "ring_bytes (recvBuffer (sessions s ! i)) = []"
    and ce: "cenv_ok ce" "c_ossl ce = crypto (sys e)"
    and t: "cstr chat = Some t" "length t < 65535" and m: "m = chat_msg chat (min (length t + 1) 256)"
    and ct: "ct = evp_encrypt (crypto (sys e)) PKT_AES_KEY (frame_iv (c_nonce ce (calls c))) m"
      "h = frame_head (c_nonce ce (calls c)) m"
    and tag: "frame_tag (crypto (sys e)) (h @ ct) \<noteq> frame_tag (crypto (sys e)) (h @ ct[0 := ct ! 0 XOR 1])"
    and snd: "SendChatTampered ce chat c = Some (True, c')" "outgoing c = []"
    and c: "completion_ok True (int (length (outgoing c'))) i RECV (outgoing c') s"
  shows "\<exists>s'. io_completion chat_vtbl (sys e) True (int (length (outgoing c'))) i RECV (outgoing c') s = Some s' \<and>
     events s' = events s @ [Left (sID (sessions s ! i))] \<and> closeFlag (sessions s' ! i) \<noteq> 0"
proof -
  let ?E = "crypto (sys e)" and ?n = "min (length t + 1) 256"
  have E: "ossl_ok ?E" using e by (simp add: chatenv_ok_def)
  let ?f = "tampered (frame ?E (c_nonce ce (calls c)) m)"
  have lm: "length m = 4 + ?n" unfolding m by (rule length_chat_msg [OF chat_request_ok(2) [OF t refl]])
  have "hands_over ?f True c c'"
    using SendChatTampered_ok [OF ce(1) t refl, of c] snd(1) ce(2) m by simp
  then have out: "outgoing c' = ?f" using snd(2) by (auto elim!: hands_overE)
  have m0: "0 < length m" "length m < 65536" using lm by simp_all
  note bad = tampered_invalid [OF E cenv_okD(2) [OF ce(1)] m0 ct(1) tag [unfolded ct(2)]]
  have "parse ?E ?f = ([], BadTag, drop (30 + length m) ?f)"
    using bad lm by (subst parse.simps) simp
  moreover have "outgoing c' \<noteq> []" using bad(3) out by auto
  ultimately show ?thesis using recv_turn [OF run e c] o out by (auto simp: wp_iff received_def Let_def)
qed

theorem tampered_chat_closes_session_witness:
  "\<exists>c' s'. SendChatTampered sample_cenv [104, 0] sample_client = Some (True, c') \<and>
     io_completion chat_vtbl (sys sample_env) True (int (length (outgoing c'))) 0 RECV (outgoing c') sample_joined = Some s' \<and>
     events s' = [Left sample_sid] \<and> closeFlag (sessions s' ! 0) \<noteq> 0"
proof -
  let ?m = "chat_msg [104, 0] 2" and ?nonce = "c_nonce sample_cenv (calls sample_client)"
  let ?ct = "evp_encrypt sample_ossl PKT_AES_KEY (frame_iv ?nonce) ?m" and ?h = "frame_head ?nonce ?m"
  have t: "cstr [104, 0] = Some [104 :: byte]" "length [104 :: byte] < 65535" by (simp_all add: cstr_def)
  have n: "2 = min (length [104 :: byte] + 1) 256" by simp
  have lm: "length ?m = 6" by (simp add: chat_msg_def)
  have nonce: "length ?nonce = 12" by (simp add: sample_cenv_def)
  have lc: "length ?ct = 6" "length ?h = 14" using lm nonce by (simp_all add: sample_ossl_def frame_head_def)
  have "frame_tag sample_ossl (?h @ xs) ! 14 = xs ! 0" if "length xs = 6" for xs
    using that lc by (simp add: frame_tag_def sample_ossl_def nth_append)
  then have "frame_tag sample_ossl (?h @ ?ct) ! 14 = ?ct ! 0"
      "frame_tag sample_ossl (?h @ ?ct[0 := ?ct ! 0 XOR 1]) ! 14 = ?ct ! 0 XOR 1" using lc by simp_all
  moreover have "b \<noteq> b XOR 1" for b :: byte
  proof
    assume "b = b XOR 1"
    then have "b XOR (b XOR 1) = 0" by simp
    then show False by (simp flip: xor.assoc)
  qed
  ultimately have tag: "frame_tag sample_ossl (?h @ ?ct) \<noteq> frame_tag sample_ossl (?h @ ?ct[0 := ?ct ! 0 XOR 1])" by metis
  obtain c' where c': "SendChatTampered sample_cenv [104, 0] sample_client = Some (True, c')"
      "hands_over (tampered (frame sample_ossl ?nonce ?m)) True sample_client c'"
    using SendChatTampered_ok [OF sample_cenv_ok(1) t n, of sample_client] sample_cenv_ok(2,3) by (auto simp: wp_iff)
  have o0: "outgoing sample_client = []" by (simp add: sample_client_def)
  have "length (tampered (frame sample_ossl ?nonce ?m)) = 36"
    using length_frame [OF sample_ossl_ok nonce, of ?m] lm by (simp add: tampered_def)
  then have "length (outgoing c') = 36" using c'(2) o0 by (auto elim!: hands_overE)
  then have c: "completion_ok True (int (length (outgoing c'))) 0 RECV (outgoing c') sample_joined"
    by (intro sample_completion) simp
  have s: "closeFlag (sessions sample_joined ! 0) = 0" "sID (sessions sample_joined ! 0) = sample_sid" "events sample_joined = []"
      "c_ossl sample_cenv = crypto (sys sample_env)" "crypto (sys sample_env) = sample_ossl"
    by (simp_all add: sample_joined_fields sample_session_def Session_new_def sample_env_def sample_cenv_ok events_def)
  have "?m = chat_msg [104, 0] (min (length [104 :: byte] + 1) 256)" by (simp add: numeral_2_eq_2)
  from tampered_chat_closes_session [OF sample_joined_run [of True] sample_env_ok s(1) sample_joined_ring sample_cenv_ok(1) s(4) t this
      refl refl _ c'(1) o0 c] tag
  obtain s' where "io_completion chat_vtbl (sys sample_env) True (int (length (outgoing c'))) 0 RECV (outgoing c') sample_joined = Some s'"
      "events s' = [Left sample_sid]" "closeFlag (sessions s' ! 0) \<noteq> 0" by (auto simp: s)
  with c'(1) show ?thesis by (intro exI conjI)
qed

section \<open>Responses\<close>

text \<open>
  C20: The client's statistics count what the server sent. Whenever \<open>DrainRecv\<close> gets bytes that complete
  any number of frames (of 3 to 4066 bytes) and leave an unfinished one, it returns true, keeps exactly
  the unfinished bytes, and adds to its counters the number of messages, of chat messages, and of
  successful and failed login answers among them, however the stream was cut and whatever was in
  the local arrays before.
\<close>

theorem drain_counts_messages:
  assumes e: "cenv_ok e" and buf: "length buf = 8192" "0 \<le> used" "used \<le> 8192"
    and rc: "0 < c_select e (calls s) t" "c_recv e (calls s + 1) (8192 - used) = (n, bs)" "0 < n"
    and fs: "\<forall>(n, m) \<in> set fs. length n = 12 \<and> 3 \<le> length m \<and> length m \<le> 4066"
    and d: "take (nat used) buf @ bs = concat (map (\<lambda>(n, m). frame (c_ossl e) n m) fs) @ r"
    and r: "length r < 30 \<or> frame_len r \<le> 4066 \<and> length r < 30 + frame_len r"
  shows "\<exists>buf' used' s'. DrainRecv e buf used 8192 t v s = Some (True, buf', used', s') \<and>
     length buf' = 8192 \<and> 0 \<le> used' \<and> take (nat used') buf' = r \<and>
     g_recvAnyTotal s' = g_recvAnyTotal s + of_nat (length fs) \<and>
     g_recvChatTotal s' = g_recvChatTotal s +
       of_nat (length (filter (\<lambda>m. msg_kind m = type_val SC_CHAT_RES) (map snd fs))) \<and>
     g_loginSuccess s' = g_loginSuccess s +
       of_nat (length (filter (\<lambda>m. msg_kind m = type_val SC_LOGIN_RES \<and> m ! 2 = 0) (map snd fs))) \<and>
     g_loginFail s' = g_loginFail s +
       of_nat (length (filter (\<lambda>m. msg_kind m = type_val SC_LOGIN_RES \<and> m ! 2 \<noteq> 0) (map snd fs)))"
proof -
  have "parse (c_ossl e) r = ([], NeedMore, r)" using r by (subst parse.simps) auto
  moreover have "\<forall>(n, m) \<in> set fs. length n = 12 \<and> length m \<le> 4066" using fs by auto
  ultimately have "parse (c_ossl e) (take (nat used) buf @ bs) = (map snd fs, NeedMore, r)"
    using parse_frames [OF cenv_okD(1) [OF e], of fs r] by (simp add: d)
  note p = client_parse_eq [OF this]
  have "\<forall>m \<in> set (map snd fs). 3 \<le> length m" using fs by auto
  with drain_recv_data [OF e buf rc p, of v] show ?thesis by (auto simp: wp_iff tallied_def)
qed

theorem drain_counts_messages_witness:
  "\<exists>buf' used' s'. DrainRecv (sample_cenv\<lparr>c_select := (\<lambda>k t. 1), c_recv := (\<lambda>k n. if n < 33 then (0, [])
        else (33, frame sample_ossl (replicate 12 7) [101, 0, 0]))\<rparr>) (replicate 8192 0) 0 8192 50 False sample_client =
       Some (True, buf', used', s') \<and>
     g_recvAnyTotal s' = 1 \<and> g_recvChatTotal s' = 0 \<and> g_loginSuccess s' = 1 \<and> g_loginFail s' = 0"
proof -
  let ?d = "frame sample_ossl (replicate 12 7) [101, 0, 0]"
  let ?e = "sample_cenv\<lparr>c_select := (\<lambda>k t. 1), c_recv := (\<lambda>k n. if n < 33 then (0, []) else (33, ?d))\<rparr>"
  have l: "length ?d = 33" using length_frame [OF sample_ossl_ok, of "replicate 12 7" "[101, 0, 0]"] by simp
  then have e: "cenv_ok ?e" "c_ossl ?e = sample_ossl" by (simp_all add: cenv_ok_def sample_cenv_def sample_ossl_ok)
  have k: "msg_kind [101, 0, 0] = 101" by (simp add: msg_kind_def)
  have s: "g_recvAnyTotal sample_client = 0" "g_recvChatTotal sample_client = 0" "g_loginSuccess sample_client = 0"
    "g_loginFail sample_client = 0" by (simp_all add: sample_client_def)
  show ?thesis
    using drain_counts_messages [OF e(1), of "replicate 8192 0" 0 sample_client 50 33 ?d "[(replicate 12 7, [101, 0, 0])]" "[]" False]
    by (auto simp: e(2) k s)
qed

section \<open>Bots\<close>

text \<open>
  C21: A bot always stops cleanly. Once \<open>g_botRunning\<close> is cleared (from the thread's \<open>T\<close>-th look at its
  environment on), \<open>BotThread\<close> returns, whatever the sockets, the server's bytes, the clock and the
  random numbers do: no loop runs on and no access leaves an array. Every connection it counted was
  counted as closed again, it left no socket open, and the number of live bots is what it was.
\<close>

theorem bot_thread_stops:
  assumes e: "cenv_ok e" and i: "idx < 2 ^ 31" and T: "\<forall>k \<ge> T. \<not> c_running e k"
  shows "\<exists>s'. BotThread e idx s = Some s' \<and>
     g_connectTotal s' - g_disconnTotal s' = g_connectTotal s - g_disconnTotal s \<and>
     open_socks s' = open_socks s \<and> g_aliveBotCount s' = g_aliveBotCount s"
proof -
  have i': "idx < 10 ^ 10" using i by simp
  let ?s = "s\<lparr>g_aliveBotCount := g_aliveBotCount s + 1\<rparr>"
  have "wp (bot_loop e idx True (c_stack e (calls s) 8192) ?s) (settled ?s)"
    by (rule bot_loop_ok [OF e i' T cenv_okD(3) [OF e]])
  then show ?thesis by (auto simp: BotThread_def settled_def wp_iff)
qed

theorem bot_thread_stops_witness:
  "\<exists>s'. BotThread sample_cenv 3 sample_client = Some s' \<and> g_connectTotal s' = g_disconnTotal s' \<and> open_socks s' = 0"
proof -
  have T: "\<forall>k \<ge> 5. \<not> c_running sample_cenv k" by (simp add: sample_cenv_def)
  show ?thesis using bot_thread_stops [OF sample_cenv_ok(1) _ T, of 3 sample_client] by (auto simp: sample_client_def)
qed

end
