(* ===== verification/ClientConsole.thy ===== *)
theory ClientConsole
  imports ClientBot
begin

text \<open>
  The other modes of the client: the tamper test and the interactive mode return whatever the network
  does and close their socket, the interactive receive thread ends once the mode is left, every bot
  thread is waited for exactly once, and a number on the command line is read as it was written.
  The interactive account commands rely on \<open>MultiByteToWideChar\<close> terminating its output, which it
  does not for a name that is too long.
\<close>

section \<open>Numbers on the command line\<close>

lemma digit_byte: "k < 10 \<Longrightarrow> unat (of_nat (48 + k) :: byte) = 48 + k"
  by (simp del: of_nat_add add: unsigned_of_nat take_bit_nat_eq_self)

lemma dec_digits: "c \<in> set (dec n) \<Longrightarrow> 48 \<le> c \<and> c \<le> 57"
proof (induction n rule: dec.induct)
  case (1 n)
  have d: "(48 :: byte) \<le> of_nat (48 + k) \<and> of_nat (48 + k) \<le> (57 :: byte)" if "k < 10" for k
    using that digit_byte [OF that] by (simp del: of_nat_add add: word_le_nat_alt)
  show ?case
  proof (cases "n < 10")
    case True
    then show ?thesis using "1.prems" d [of n] by (subst (asm) dec.simps) simp
  next
    case False
    then show ?thesis using "1.prems" "1.IH" d [of "n mod 10"] by (subst (asm) dec.simps) auto
  qed
qed

lemma digits_dec: "digits (dec n) = int n"
proof -
  have tw: "takeWhile (\<lambda>c. 48 \<le> c \<and> c \<le> 57) (dec n) = dec n" for n
    using dec_digits by (simp add: takeWhile_eq_all_conv)
  have u: "uint (of_nat (48 + k) :: byte) - 48 = int k" if "k < 10" for k
    using arg_cong [OF digit_byte [OF that], of int] by (simp del: of_nat_add)
  have "foldl (\<lambda>m c. 10 * m + (uint c - 48)) 0 (dec n) = int n"
  proof (induction n rule: dec.induct)
    case (1 n)
    show ?case
    proof (cases "n < 10")
      case True
      then show ?thesis using u [of n] by (subst dec.simps) simp
    next
      case False
      then have "foldl (\<lambda>m c. 10 * m + (uint c - 48)) 0 (dec n) = 10 * int (n div 10) + int (n mod 10)"
        using 1 u [of "n mod 10"] by (subst dec.simps) simp
      then show ?thesis by (simp add: zdiv_int zmod_int)
    qed
  qed
  then show ?thesis by (simp add: digits_def tw)
qed

lemma dec_not_Nil: "dec n \<noteq> []"
  by (subst dec.simps) simp

lemma atoi_dec: "n < 2 ^ 31 \<Longrightarrow> atoi (dec n) = int n"
proof -
  assume n: "n < 2 ^ 31"
  have h: "hd (dec n) \<in> set (dec n)" using dec_not_Nil by simp
  then have h: "48 \<le> hd (dec n)" "hd (dec n) \<le> 57" using dec_digits by blast+
  have ns: "\<not> is_space (hd (dec n))" "hd (dec n) \<noteq> 45" "hd (dec n) \<noteq> 43"
    using h by (auto simp: is_space_def word_le_nat_alt)
  then have "dropWhile is_space (dec n) = dec n" using dec_not_Nil by (cases "dec n") auto
  then show ?thesis using ns n by (simp add: atoi_def digits_dec Let_def)
qed

text \<open>\<open>--auto N IP PORT\<close> starts \<open>N\<close> bots against that server.\<close>

lemma client_args_auto:
  "n < 2 ^ 31 \<Longrightarrow> p < 2 ^ 31 \<Longrightarrow> client_args [ascii ''--auto'', dec n, ip, dec p] = Some (Auto (int n), ip, int p)"
  by (simp add: client_args_def atoi_dec)

section \<open>Waiting for the bots\<close>

text \<open>
  Every thread is in exactly one batch, in order, and no batch is longer than the 64 handles that
  \<open>WaitForMultipleObjects\<close> accepts.
\<close>

lemma wait_batches_cover:
  "concat (map (\<lambda>(off, cnt). [off..off + cnt - 1]) (wait_batches n off)) = [off..n - 1]"
  "\<forall>(off, cnt) \<in> set (wait_batches n off). 0 < cnt \<and> cnt \<le> 64"
proof (induction n off rule: wait_batches.induct)
  case (1 n off)
  {
    case 1
    show ?case
    proof (cases "off < n")
      case True
      show ?thesis
      proof (cases "n - off < 64")
        case small: True
        then have "wait_batches n (off + 64) = []" by (subst wait_batches.simps) simp
        then show ?thesis using True small by (subst wait_batches.simps) simp
      next
        case False
        then have "[off..n - 1] = [off..off + 63] @ [off + 64..n - 1]"
          using upto_split2 [of off "off + 63" "n - 1"] by (simp add: add.commute)
        then show ?thesis using True False "1.IH"(1) by (subst wait_batches.simps) (simp add: add.commute)
      qed
    qed (subst wait_batches.simps, simp)
  next
    case 2
    show ?case using "1.IH"(2) by (subst wait_batches.simps) auto
  }
qed

section \<open>The interactive receive thread\<close>

lemma steady_print [simp]:
  "steady s (print_line l s') = steady s s'" "steady s (s'\<lparr>g_intRunning := b\<rparr>) = steady s s'"
  by (simp_all add: steady_def)

lemma int_packet_prints: "int_packet p s = Some s' \<Longrightarrow> \<exists>l. s' = print_line l s"
  unfolding int_packet_def Let_def by (auto simp only: bind_eq_Some_conv option.inject)

lemma interactive_read_all:
  "foldM (interactive.read_one e) ms s = Some s' \<Longrightarrow>
   steady s s' \<and> g_intRunning s' = g_intRunning s \<and> length (printed s') = length (printed s) + length ms"
proof (induction ms arbitrary: s)
  case (Cons m ms)
  then obtain s1 where s1: "interactive.read_one e m s = Some s1" "foldM (interactive.read_one e) ms s1 = Some s'"
    by (auto simp: bind_eq_Some_conv)
  obtain l where "s1 = print_line l (called s)"
    using int_packet_prints s1(1) unfolding interactive.read_one_def by blast
  then have "steady s s1" "g_intRunning s1 = g_intRunning s" "length (printed s1) = length (printed s) + 1"
    by (simp_all add: print_line_def called_def steady_def)
  with Cons.IH [OF s1(2)] show ?case by (auto intro: steady_trans)
qed simp

text \<open>One round: what arrived is printed, one line per message; the thread goes on until the stream ends or a tag is wrong.\<close>

lemma int_recv_turn_ok:
  assumes e: "cenv_ok e" and b: "buffered buf used"
  shows "wp (int_recv_turn e buf used s) (\<lambda>(go, buf', used', s'). buffered buf' used' \<and> steady s s' \<and> calls s < calls s' \<and>
    (\<not> go \<longrightarrow> \<not> g_intRunning s'))"
proof (cases "fst (c_recv e (calls s) (8192 - used)) \<le> 0")
  case True
  then show ?thesis using b by (cases "c_recv e (calls s) (8192 - used)") (simp add: int_recv_turn_def)
next
  case False
  obtain n bs where rc: "c_recv e (calls s) (8192 - used) = (n, bs)" by (cases "c_recv e (calls s) (8192 - used)")
  have n: "0 < n" "n \<le> 8192 - used" "int (length bs) = n" "length buf = 8192" "0 \<le> used"
    using cenv_okD(8) [OF e _ rc] False rc b by (auto simp: buffered_def)
  then obtain buf1 where m: "memcpy buf used bs 0 n = Some buf1" by (simp add: memcpy_def)
  then have b1: "memcpy buf used bs 0 n = Some buf1" "length buf1 = 8192" using memcpy_length [OF m] n by simp_all
  obtain ms ok r where p: "client_parse (c_ossl e) (take (nat (used + n)) buf1) = (ms, ok, r)" by (metis prod_cases3)
  let ?s = "called s"
  have "wp (int_loop e buf1 (used + n) ?s) (\<lambda>(ok', buf', used', s'). ok' = ok \<and> length buf' = 8192 \<and> 0 \<le> used' \<and> used' \<le> used + n \<and>
      take (nat used') buf' = r \<and> (\<exists>s1. foldM (interactive.read_one e) ms ?s = Some s1 \<and>
        s' = (if ok then s1 else (print_line MacMismatch (called s1))\<lparr>g_intRunning := False\<rparr>)))"
    by (rule interactive.loop_refines [OF e b1(2) _ _ p]) (use n in simp_all)
  then obtain buf' used' s1 s' where l: "int_loop e buf1 (used + n) ?s = Some (ok, buf', used', s')" "buffered buf' used'"
      "foldM (interactive.read_one e) ms ?s = Some s1" "s' = (if ok then s1 else (print_line MacMismatch (called s1))\<lparr>g_intRunning := False\<rparr>)"
    using n by (auto simp: wp_iff buffered_def)
  have "steady ?s s1" using interactive_read_all [OF l(3)] by simp
  then have "steady ?s s'" "\<not> ok \<longrightarrow> \<not> g_intRunning s'" using l(4) steady_trans by auto
  then show ?thesis using n(1) b1(1) l(1,2) rc by (auto simp: int_recv_turn_def steady_def)
qed

lemma int_recv_rounds_ok:
  assumes e: "cenv_ok e" and T: "\<forall>k \<ge> T. \<not> c_running e k"
  shows "buffered buf used \<Longrightarrow> wp (int_recv_rounds e buf used s) (steady s)"
proof (induction "T - calls s" arbitrary: buf used s rule: less_induct)
  case less
  show ?case
  proof (cases "g_intRunning s \<and> c_running e (calls s)")
    case False
    then show ?thesis by (subst int_recv_rounds.simps) auto
  next
    case True
    then have T': "calls s < T" using T by (meson not_le)
    obtain go buf' used' s' where t: "int_recv_turn e buf used (called s) = Some (go, buf', used', s')" "buffered buf' used'"
        "steady (called s) s'" "calls (called s) < calls s'"
      using int_recv_turn_ok [OF e less.prems, of "called s"] by (auto elim!: wpE)
    have "wp (int_recv_rounds e buf' used' s') (steady s')"
      by (rule less.hyps [OF _ t(2)]) (use t(4) T' in simp)
    moreover have "steady s s'" by (rule steady_called [OF t(3)])
    ultimately show ?thesis using True t(1) by (subst int_recv_rounds.simps) (auto elim!: wp_mono intro: steady_trans)
  qed
qed

lemma InteractiveRecvThread_ok:
  assumes e: "cenv_ok e" and T: "\<forall>k \<ge> T. \<not> c_running e k"
  shows "wp (InteractiveRecvThread e s) (steady s)"
  unfolding InteractiveRecvThread_def
  by (rule int_recv_rounds_ok [OF e T]) (simp add: buffered_def cenv_okD(3) [OF e])

section \<open>Commands\<close>

lemma SendSignUp_steady:
  assumes "cenv_ok e" and "0 \<in> set a" "0 \<in> set p" "0 \<in> set n"
  shows "wp (SendSignUp e a p n s) (\<lambda>(ok, s'). steady s s')"
proof -
  obtain ta tp tn where t: "cstr a = Some ta" "cstr p = Some tp" "cstr n = Some tn" using assms by (auto simp: cstr_def)
  show ?thesis by (rule SendSignUp_ok [OF assms(1) t]) (auto elim!: wp_mono intro: steady_requests)
qed

lemma SendLogin_steady:
  assumes "cenv_ok e" and "0 \<in> set a" "0 \<in> set p"
  shows "wp (SendLogin e a p s) (\<lambda>(ok, s'). steady s s')"
proof -
  obtain ta tp where t: "cstr a = Some ta" "cstr p = Some tp" using assms by (auto simp: cstr_def)
  show ?thesis by (rule SendLogin_ok [OF assms(1) t]) (auto elim!: wp_mono intro: steady_requests)
qed

lemma SendChat_steady:
  assumes "cenv_ok e" and "length cs < 65535"
  shows "wp (SendChat e (cs @ [0]) s) (\<lambda>(ok, s'). steady s s')"
    and "wp (SendChatTampered e (cs @ [0]) s) (\<lambda>(ok, s'). steady s s')"
proof -
  obtain t where t: "cstr (cs @ [0]) = Some t" "length t < 65535" using cstr_0_end [of cs] assms(2) by auto
  show "wp (SendChat e (cs @ [0]) s) (\<lambda>(ok, s'). steady s s')"
    by (rule wp_mono [OF SendChat_ok [OF assms(1) t refl]]) (auto intro: steady_requests)
  show "wp (SendChatTampered e (cs @ [0]) s) (\<lambda>(ok, s'). steady s s')"
    by (rule wp_mono [OF SendChatTampered_ok [OF assms(1) t refl]]) (auto intro: steady_hands_over)
qed

text \<open>What the account commands need: the converted text has a terminator.\<close>

definition widens :: "cenv \<Rightarrow> bool" where
  "widens e \<longleftrightarrow> (\<forall>k cs w. 0 \<in> set (c_widen e k cs w))"

lemma steady_calls: "steady (s\<lparr>calls := n\<rparr>) s' \<Longrightarrow> calls s \<le> n \<Longrightarrow> steady s s'"
  by (simp add: steady_def)

lemma length_strip_eol: "length (strip_eol cs) \<le> length cs"
  using length_dropWhile_le [of "\<lambda>c. c = 10 \<or> c = 13" "rev cs"] unfolding strip_eol_def length_rev .

lemma wp_ifI: "(c \<Longrightarrow> wp a P) \<Longrightarrow> (\<not> c \<Longrightarrow> wp b P) \<Longrightarrow> wp (if c then a else b) P"
  by simp

text \<open>A command that sends something, whatever \<open>send\<close> answers.\<close>

lemma command_steady:
  "wp m (\<lambda>(ok, s'). steady s s') \<Longrightarrow> wp (Option.bind m (\<lambda>(_, s'). Some (True, s'))) (\<lambda>(go, s'). steady s s')"
  by (rule wp_bind2I) auto

lemma interactive_signup_ok:
  assumes e: "cenv_ok e" and w: "widens e"
  shows "wp (case ws of
      [a, p, n] \<Rightarrow> do { (_, s') \<leftarrow> SendSignUp e (ToWide e (calls s) a 32) (ToWide e (calls s + 1) p 64)
        (ToWide e (calls s + 2) n 32) (s\<lparr>calls := calls s + 3\<rparr>); Some (True, s') }
    | _ \<Rightarrow> Some (True, print_line UsageSignUp s)) (\<lambda>(go, s'). steady s s')"
proof -
  have "wp (SendSignUp e (ToWide e (calls s) a 32) (ToWide e (calls s + 1) p 64) (ToWide e (calls s + 2) n 32)
      (s\<lparr>calls := calls s + 3\<rparr>)) (\<lambda>(ok, s'). steady s s')" for a p n
    by (rule wp_mono [OF SendSignUp_steady [OF e]]) (use w in \<open>auto simp: widens_def ToWide_def dest: steady_calls\<close>)
  from command_steady [OF this] show ?thesis by (simp split: list.split del: wp_bind)
qed

lemma interactive_login_ok:
  assumes e: "cenv_ok e" and w: "widens e"
  shows "wp (case ws of
      [a, p] \<Rightarrow> do { (_, s') \<leftarrow> SendLogin e (ToWide e (calls s) a 32) (ToWide e (calls s + 1) p 64)
        (s\<lparr>calls := calls s + 2\<rparr>); Some (True, s') }
    | _ \<Rightarrow> Some (True, print_line UsageLogin s)) (\<lambda>(go, s'). steady s s')"
proof -
  have "wp (SendLogin e (ToWide e (calls s) a 32) (ToWide e (calls s + 1) p 64)
      (s\<lparr>calls := calls s + 2\<rparr>)) (\<lambda>(ok, s'). steady s s')" for a p
    by (rule wp_mono [OF SendLogin_steady [OF e]]) (use w in \<open>auto simp: widens_def ToWide_def dest: steady_calls\<close>)
  from command_steady [OF this] show ?thesis by (simp split: list.split del: wp_bind)
qed

lemma interactive_line_ok:
  assumes e: "cenv_ok e" and w: "widens e" and l: "length input < 1024"
  shows "wp (interactive_line e input s) (\<lambda>(go, s'). steady s s')"
proof -
  have "length (strip_eol input) < 65535" using length_strip_eol [of input] l by linarith
  note chat = SendChat_steady(1) [OF e this]
  show ?thesis unfolding interactive_line_def Let_def
    by (intro wp_ifI interactive_signup_ok [OF e w] interactive_login_ok [OF e w] command_steady chat
        senders_steady(3,4) [OF e]) simp_all
qed

text \<open>The whole mode: it returns, and its socket is closed again.\<close>

lemma interactive_lines_ok:
  assumes e: "cenv_ok e" and w: "widens e"
  shows "\<forall>l \<in> set ls. length l < 1024 \<Longrightarrow> wp (interactive_lines e ls s) (steady s)"
proof (induction ls arbitrary: s)
  case (Cons l ls)
  obtain go s1 where s1: "interactive_line e l (called s) = Some (go, s1)" "steady (called s) s1"
    using interactive_line_ok [OF e w, of l "called s"] Cons.prems by (auto elim!: wpE)
  have "wp (interactive_lines e ls s1) (steady s1)" by (rule Cons.IH) (use Cons.prems in simp)
  then show ?case using s1 steady_called [OF s1(2)] by (auto elim!: wp_mono intro: steady_trans)
qed simp

lemma RunInteractive_ok:
  assumes e: "cenv_ok e" and w: "widens e" and l: "\<forall>l \<in> set ls. length l < 1024"
  shows "wp (RunInteractive e ls s) (\<lambda>(ret, s'). open_socks s' = open_socks s)"
proof -
  let ?s = "print_line HelpText (called (s\<lparr>open_socks := open_socks s + 1\<rparr>)\<lparr>outgoing := []\<rparr>)"
  have "wp (interactive_lines e ls ?s) (steady ?s)" by (rule interactive_lines_ok [OF e w l])
  then show ?thesis by (auto simp: RunInteractive_def Let_def steady_def elim!: wp_mono)
qed

text \<open>
  Without that terminator the account commands read past the end of a local array: a name of 32 to 63
  characters passes \<open>sscanf_s\<close>, does not fit the 32 units of \<open>wAcc\<close>, and \<open>MultiByteToWideChar\<close> then fails
  and leaves no terminator; its result is not checked.
\<close>

lemma interactive_login_undefined:
  assumes "take 7 (strip_eol input) = ascii ''/login ''" and "scan_words 2 (drop 7 (strip_eol input)) = [acc, pw]"
    and "0 \<notin> set (c_widen e (calls s) acc (c_wstack e (calls s) 32))"
  shows "interactive_line e input s = None"
proof -
  have "strip_eol input \<noteq> []" using assms(1) by (auto simp: ascii_def)
  moreover have "take 8 (strip_eol input) \<noteq> ascii ''/signup ''"
  proof
    assume "take 8 (strip_eol input) = ascii ''/signup ''"
    then have "take 7 (take 8 (strip_eol input)) = take 7 (ascii ''/signup '')" by (rule arg_cong)
    with assms(1) show False by (simp add: ascii_def min_def)
  qed
  ultimately show ?thesis using assms
    by (simp add: interactive_line_def SendLogin_def typed_array put_text_def ToWide_def wcsncpy_trunc_def cstr_def mem_read_def Let_def)
qed

section \<open>The tamper test\<close>

text \<open>Going on after a send or a receive, with everything since \<open>s\<close> steady.\<close>

lemma wp_after_send:
  "steady s s0 \<Longrightarrow> wp m (\<lambda>(ok, s1). steady s0 s1) \<Longrightarrow> (\<And>ok s1. steady s s1 \<Longrightarrow> wp (f ok s1) Q) \<Longrightarrow>
   wp (Option.bind m (\<lambda>(ok, s1). f ok s1)) Q"
  by (erule wp_bind2I) (blast intro: steady_trans)

lemma wp_after_drain:
  assumes "cenv_ok e" and "steady s s0" and "buffered buf used"
    and "\<And>ok buf' used' s1. steady s s1 \<Longrightarrow> buffered buf' used' \<Longrightarrow> wp (f ok buf' used' s1) Q"
  shows "wp (Option.bind (DrainRecv e buf used 8192 t v s0) (\<lambda>(ok, buf', used', s1). f ok buf' used' s1)) Q"
  by (rule wp_bind4I [OF drain_steady [OF assms(1,3)]]) (use assms(2,4) in \<open>blast intro: steady_trans\<close>)

text \<open>
  The test returns 0 with a verdict as its last line unless it could not connect, and closes its socket.
  The verdict is \<open>TamperDetected\<close> exactly when \<open>recv\<close> reports the end of the connection.
\<close>

lemma RunTamper_ok:
  assumes e: "cenv_ok e"
  shows "wp (RunTamper e s) (\<lambda>(ret, s'). open_socks s' = open_socks s \<and>
    (if c_connect e (calls s)
     then ret = 0 \<and> last (printed s') \<in> {TamperSilent} \<union> TamperDetected ` {n. n \<le> 0} \<union> TamperMissed ` {n. 0 < n}
     else ret = 1))"
proof (cases "c_connect e (calls s)")
  case False
  then show ?thesis by (simp add: RunTamper_def Let_def)
next
  case True
  let ?s = "called (s\<lparr>open_socks := open_socks s + 1\<rparr>)\<lparr>outgoing := []\<rparr>"
  have z: "0 \<in> set tamper_name" "0 \<in> set bot_password" by (simp_all add: tamper_name_def bot_password_def)
  have b: "buffered (c_stack e k 8192) 0" for k using cenv_okD(3) [OF e] by (simp add: buffered_def)
  have l: "length (ascii ''hello normal'') < 65535" "length (ascii ''hello tampered'') < 65535" by (simp_all add: ascii_def)
  have s: "steady ?s ?s" by simp
  show ?thesis using True unfolding RunTamper_def Let_def
    apply (simp del: wp_bind)
    apply (rule wp_after_send [OF s SendSignUp_steady [OF e z(1,2,1)]])
    apply (rule wp_after_drain [OF e _ b], assumption)
    apply (rule wp_after_send [OF _ SendLogin_steady [OF e z]], assumption)
    apply (rule wp_after_drain [OF e], assumption, assumption)
    apply (rule wp_after_send [OF _ senders_steady(3) [OF e]], assumption)
    apply (rule wp_after_drain [OF e], assumption, assumption)
    apply (rule wp_after_send [OF _ SendChat_steady(1) [OF e l(1)]], assumption)
    apply (rule wp_after_drain [OF e], assumption, assumption)
    apply (rule wp_after_send [OF _ SendChat_steady(2) [OF e l(2)]], assumption)
    apply (auto simp: steady_def print_line_def called_def)
    done
qed

end
