(* ===== verification/Spec2Isabelle.thy ===== *)
theory Spec2Isabelle
  imports ClientProps ClientConsole DatabaseProps
begin

text \<open>
  Verification of the IOCP chat server (\<open>src/myIOCP\<close>) and of its test client (\<open>src/DummyClient\<close>).

  \<^bold>\<open>The program.\<close> \<open>CLanServer\<close> is a Windows network engine: an accept thread takes session slots from a
  lock-free index pool, worker threads wait on a completion port, cut the received bytes into encrypted
  frames and hand each plain message as a reference-counted \<open>CPacket\<close> to four virtual functions;
  \<open>SendPacket\<close> queues packets per session and keeps at most one \<open>WSASend\<close> outstanding. \<open>CChatServer\<close>
  derives from it: the virtual functions put events into \<open>CContentQueue\<close>, and one update thread
  handles them with players (\<open>CPlayer\<close>), rooms (\<open>CRoom\<close>, \<open>CRoomManager\<close>) and a database worker
  (\<open>CDBWorker\<close>, \<open>CDBConnector\<close>, two stored procedures) that takes jobs and gives results back.
  \<open>DummyClient\<close> is a load generator, an interactive client and a tamper test for that server.

  \<^bold>\<open>Conventions.\<close> A class is a record, \<open>CChatServer\<close> an extension of the record of \<open>CLanServer\<close> as in the
  source; a method is a function on it. Undefined behaviour (an access outside an array, a null or
  dangling pointer) is \<open>None\<close>; \<open>wp\<close> of \<open>Prelude\<close> is total correctness, so every lemma that states a
  \<open>wp\<close> also says that the code is defined. Byte arrays are lists copied by a checked \<open>memcpy\<close>; machine
  integers are words where they wrap (session identifiers, stamps, counters) and \<open>int\<close> where the code
  keeps them in range. Pointers to heap objects are positions in the list of all objects ever created.
  What the code does not contain is a parameter: OpenSSL (\<open>ossl\<close>, with the laws \<open>ossl_ok\<close>), Winsock and
  the random generator (\<open>sysenv\<close>), ODBC and the collation (\<open>odbc\<close>), uninitialised memory and the
  code-page conversion (\<open>chatenv\<close>), and everything a client thread calls (\<open>cenv\<close>, with \<open>cenv_ok\<close>).

  \<^bold>\<open>Shared theories.\<close> \<open>Prelude\<close>: types, \<open>wp\<close>, \<open>memcpy\<close>, object representation, \<open>std::unordered_map\<close>.
  \<open>Interfaces\<close>: the locales \<open>fifo\<close>, \<open>stream_buffer\<close>, \<open>pool_spec\<close> and \<open>refcounted\<close>, each with the lemmas
  its clients use and interpreted in the theory of every provider. \<open>Strings\<close>: C strings and wide
  strings. \<open>Protocol\<close>: \<open>Protocol.h\<close>.

  \<^bold>\<open>Server components, in the order of the code.\<close>
  \<^item> \<open>LockFreeStack\<close> (\<open>CLockFreeStack.h\<close>): \<open>Push\<close> and \<open>Pop\<close> of any number of threads at the granularity of
    shared accesses. The successful exchanges linearise to an ordinary stack while no thread sleeps
    through \<open>2 ^ 17\<close> exchanges (the width of the stamp), nodes are owned, a failed exchange means
    somebody else's succeeded; a read of a freed node is reachable. The other components use the stack
    through its atomic interface.
  \<^item> \<open>RingBuffer\<close> (\<open>CRingBuffer.h/.cpp\<close>): a circular buffer of 4096 bytes, refined to a byte stream of at
    most 4095.
  \<^item> \<open>Packet\<close>, \<open>PacketPool\<close>, \<open>Framing\<close> (\<open>CPacket.h/.cpp\<close>): serialisation, \<open>Encode\<close> and \<open>Decode\<close>, the pool
    with reference counts; \<open>frame\<close> is the abstract wire format and \<open>parse\<close> the abstract stream parser.
  \<^item> \<open>LanServer\<close> (\<open>CLanServer.h/.cpp\<close>): sessions, send queue, receive path, accept, worker and statistics
    turns, \<open>Start\<close> and \<open>Stop\<close>. \<open>SendQueue\<close>, \<open>LanInv\<close>, \<open>LanOps\<close>, \<open>LanRecv\<close>, \<open>LanTurns\<close>: the
    invariant (exact I/O reference counts, idle slots, covered packets) and every operation against it,
    inside the locale \<open>lan_app\<close> that states what the engine needs of the derived class.
  \<^item> \<open>Room\<close> (\<open>CPlayer\<close>, \<open>CRoom\<close>, \<open>CRoomManager\<close>), \<open>ContentQueue\<close>, \<open>Database\<close> and \<open>DatabaseProps\<close>
    (\<open>CDBConnector\<close>, \<open>CDBWorker\<close>, \<open>DBJob.h\<close>, \<open>db/01-schema.sql\<close>): data and operations; the worker answers
    every job once and in order, frees its handles, and an account that was created can be logged in.
  \<^item> \<open>ChatServer\<close> (\<open>CChatServer.h/.cpp\<close>): virtual functions, handlers, update loop. \<open>ChatInv\<close> interprets
    \<open>lan_app\<close> on them; \<open>ChatOps\<close>, \<open>ChatHandlers\<close>, \<open>ChatRooms\<close>, \<open>ChatUpdate\<close> prove each handler.
  \<^item> \<open>ChatSystem\<close>: \<open>boot\<close> (\<open>main.cpp\<close>), the step relation \<open>chat_step\<close> of all threads in any order, the
    reachable states \<open>chat_run e strict\<close> (\<open>strict\<close> excludes failed send completions, the one place that
    loses packet references) and the invariant of the whole server.

  \<^bold>\<open>Client.\<close> \<open>Client\<close> and \<open>ClientModes\<close> translate \<open>DummyClient.cpp\<close>: codec, senders, \<open>DrainRecv\<close>, \<open>BotThread\<close>;
  interactive mode, \<open>RunTamper\<close>, the statistics round, the command line. \<open>ClientSend\<close>: the codec equals the
  server's, \<open>SendAll\<close> returns whatever \<open>send\<close> answers, each sender hands over one frame of its request.
  \<open>ClientRecv\<close>: both packet loops are instances of the locale \<open>frame_reader\<close> and read the stream like
  \<open>client_parse\<close>, which agrees with the server's \<open>parse\<close>. \<open>ClientBot\<close>, \<open>ClientConsole\<close>: the threads and
  modes return, keep their counters balanced and close their sockets.

  \<^bold>\<open>Properties.\<close> \<open>ServerProps\<close>: what holds in every reachable state (no undefined behaviour in any turn,
  exact reference counts, an open session always has its receive outstanding, players, rooms and queue
  order). \<open>NetProps\<close>: the receive path refines \<open>parse\<close>, chunking does not matter, forged frames close the
  session, the send path appends to the stream of one connection. \<open>ChatProps\<close>: chat, rooms, accounts and
  departures as the clients see them, and three defects. \<open>ClientProps\<close>: client and server together (a
  login sent is the job queued, a tampered chat ends the session), the client's statistics, the bots.
  \<open>Samples\<close> holds the concrete runs on which the properties are instantiated.

  \<^bold>\<open>Loops and bounds.\<close> No model uses fuel. Loops of the code are structural recursion, \<open>function\<close> with a
  measure (bytes left, handles left), or, where the loop condition reads mutable state,
  \<open>partial_function (option)\<close>: \<open>drain_sendQ\<close>, \<open>flush_loop\<close>, \<open>recv_loop\<close>, \<open>db_results\<close>, \<open>WorkerLoop_drain\<close>, each
  proved to return under the invariant, and \<open>observe\<close>, \<open>bot_loop\<close>, \<open>int_recv_rounds\<close> of the client, proved
  to return once the running flag is cleared. Slots are bounded by 65535 (the 16 bits of the
  identifier), payloads by 4066, rooms by 5 with 50 members, bot numbers by \<open>2 ^ 31\<close>.

  \<^bold>\<open>Not modelled.\<close> Interleavings inside an operation of \<open>CLanServer\<close>: a turn of a thread is one step (the
  code takes the session's lock or an interlocked operation around its shared accesses; only the
  lock-free stack is refined further). Of \<open>Stop\<close>: waking and joining the workers
  between \<open>Stop\<close> and \<open>Stop_end\<close>. Start and end of threads, thread entry functions, console input of \<open>main\<close> and
  of \<open>RunAuto\<close>, the CRT heap comparison, \<open>printDiag\<close> and other output that changes no state; \<open>WSAStartup\<close>;
  build files.
\<close>

end
